(* ===== verification/Epics_Prelude.thy ===== *)
theory Epics_Prelude
  imports "HOL-Library.Word" "HOL-Library.Sublist"
begin

text \<open>
  Shared vocabulary of the development: bytes and byte strings, the result
  type of fallible operations with the early-return combinator that models
  the \<^verbatim>\<open>?\<close> operator, fixed-width integers as byte lists in both byte
  orders, saturating and checked machine arithmetic on \<^verbatim>\<open>usize\<close>, and the
  interfaces (locales) that several components implement: a wire codec, a
  stream decoder and a framer that cuts frames off the head of a receive
  buffer.  Components import this theory and interpret the locales on their
  own definitions.
\<close>

unbundle bit_operations_syntax

section \<open>Collections\<close>

named_theorems wire_simps \<open>evaluation of the byte readers on concrete or appended input\<close>
named_theorems wire_length \<open>how many bytes an encoder writes\<close>
named_theorems wire_suffix \<open>what a decoder leaves is a suffix of what it was given\<close>
named_theorems stream_intros \<open>stream decoders are closed under the ways the codec composes them\<close>

section \<open>Types\<close>

type_synonym byte = "8 word"
type_synonym u16 = "16 word"
type_synonym u32 = "32 word"
type_synonym u64 = "64 word"
type_synonym ('e, 'a) decoder = "byte list \<Rightarrow> 'e + ('a \<times> byte list)"

section \<open>Results with early return\<close>

text \<open>\<open>and_then r f\<close> is the source's \<^verbatim>\<open>let x = r?; f(x)\<close>.\<close>

fun and_then :: "'e + 'a \<Rightarrow> ('a \<Rightarrow> 'e + 'b) \<Rightarrow> 'e + 'b" where
  "and_then (Inl e) f = Inl e"
| "and_then (Inr x) f = f x"

text \<open>\<open>ok_or e x\<close> is \<^verbatim>\<open>Option::ok_or_else\<close>.\<close>

fun ok_or :: "'e \<Rightarrow> 'a option \<Rightarrow> 'e + 'a" where
  "ok_or e None = Inl e"
| "ok_or e (Some x) = Inr x"

section \<open>Machine arithmetic on \<^verbatim>\<open>usize\<close>\<close>

text \<open>
  \<^verbatim>\<open>usize\<close> values are natural numbers; the width of the hosted (64-bit)
  targets is \<open>usize_max\<close>, and every operation the source writes as
  \<^verbatim>\<open>saturating_*\<close> or \<^verbatim>\<open>checked_*\<close> is written out.
\<close>

definition usize_max :: nat where
  "usize_max = 2 ^ 64 - 1"

definition sat_add :: "nat \<Rightarrow> nat \<Rightarrow> nat" where
  "sat_add a b = min usize_max (a + b)"

definition sat_mul :: "nat \<Rightarrow> nat \<Rightarrow> nat" where
  "sat_mul a b = min usize_max (a * b)"

definition checked_add :: "nat \<Rightarrow> nat \<Rightarrow> nat option" where
  "checked_add a b = (if a + b \<le> usize_max then Some (a + b) else None)"

section \<open>Words as byte lists\<close>

primrec le_bytes :: "nat \<Rightarrow> 'a::len word \<Rightarrow> byte list" where
  "le_bytes 0 w = []"
| "le_bytes (Suc n) w = ucast w # le_bytes n (drop_bit 8 w)"

definition be_bytes :: "nat \<Rightarrow> 'a::len word \<Rightarrow> byte list" where
  "be_bytes n w = rev (le_bytes n w)"

primrec of_le_bytes :: "byte list \<Rightarrow> 'a::len word" where
  "of_le_bytes [] = 0"
| "of_le_bytes (b # bs) = ucast b OR push_bit 8 (of_le_bytes bs)"

definition of_be_bytes :: "byte list \<Rightarrow> 'a::len word" where
  "of_be_bytes bs = of_le_bytes (rev bs)"

section \<open>Repeated decoding and draining\<close>

text \<open>\<open>decode_n dec n\<close> reads \<open>n\<close> items one after the other.\<close>

primrec decode_n :: "('e, 'a) decoder \<Rightarrow> nat \<Rightarrow> ('e, 'a list) decoder" where
  "decode_n dec 0 bs = Inr ([], bs)"
| "decode_n dec (Suc n) bs =
     and_then (dec bs) (\<lambda>(x, r). and_then (decode_n dec n r) (\<lambda>(xs, r'). Inr (x # xs, r')))"

text \<open>
  A receiver looks at the head of its buffer with \<open>nxt\<close>: either it needs more
  bytes, or it decides an event and says how many bytes of the stream the event
  takes (possibly more than have arrived).  The events may change the state the
  next decision depends on (\<open>upd\<close>), and some of them, in some states, close the
  circuit (\<open>stop\<close>).  Between two reads the receiver holds a state, the bytes it has
  not decided about and the number of bytes it still owes to the last event.
\<close>

datatype 's feed_state = Feed (fs_state: 's) (fs_owed: nat) (fs_held: "byte list") | Closed

function scan :: "('s \<Rightarrow> byte list \<Rightarrow> ('f \<times> nat) option) \<Rightarrow> ('s \<Rightarrow> 'f \<Rightarrow> bool) \<Rightarrow> ('s \<Rightarrow> 'f \<Rightarrow> 's) \<Rightarrow>
    's \<Rightarrow> byte list \<Rightarrow> 'f list \<times> 's feed_state" where
  "scan nxt stop upd s bs =
     (case nxt s bs of
        None \<Rightarrow> ([], Feed s 0 bs)
      | Some (f, n) \<Rightarrow>
          if stop s f then ([f], Closed)
          else if 0 < n \<and> n \<le> length bs
          then (let (fs, st) = scan nxt stop upd (upd s f) (drop n bs) in (f # fs, st))
          else ([f], Feed (upd s f) (n - length bs) []))"
  by pat_completeness auto
termination
  by (relation "measure (\<lambda>(_, _, _, _, bs). length bs)") auto

declare scan.simps [simp del]

definition feed :: "('s \<Rightarrow> byte list \<Rightarrow> ('f \<times> nat) option) \<Rightarrow> ('s \<Rightarrow> 'f \<Rightarrow> bool) \<Rightarrow> ('s \<Rightarrow> 'f \<Rightarrow> 's) \<Rightarrow>
    's feed_state \<Rightarrow> byte list \<Rightarrow> 'f list \<times> 's feed_state" where
  "feed nxt stop upd st seg =
     (case st of
        Closed \<Rightarrow> ([], Closed)
      | Feed s owed held \<Rightarrow>
          if owed > length seg then ([], Feed s (owed - length seg) held)
          else scan nxt stop upd s (held @ drop owed seg))"

primrec feeds :: "('s \<Rightarrow> byte list \<Rightarrow> ('f \<times> nat) option) \<Rightarrow> ('s \<Rightarrow> 'f \<Rightarrow> bool) \<Rightarrow> ('s \<Rightarrow> 'f \<Rightarrow> 's) \<Rightarrow>
    's feed_state \<Rightarrow> byte list list \<Rightarrow> 'f list \<times> 's feed_state" where
  "feeds nxt stop upd st [] = ([], st)"
| "feeds nxt stop upd st (seg # segs) =
     (let (fs, st') = feed nxt stop upd st seg; (gs, st'') = feeds nxt stop upd st' segs
      in (fs @ gs, st''))"

section \<open>Lemmas on results\<close>

lemma and_then_cong [fundef_cong]:
  "r = r' \<Longrightarrow> (\<And>x. r' = Inr x \<Longrightarrow> f x = g x) \<Longrightarrow> and_then r f = and_then r' g"
  by (cases r') auto

lemma and_then_eq_Inr:
  "and_then r f = Inr y \<longleftrightarrow> (\<exists>x. r = Inr x \<and> f x = Inr y)"
  by (cases r) auto

lemma and_then_eq_Inl:
  "and_then r f = Inl e \<longleftrightarrow> r = Inl e \<or> (\<exists>x. r = Inr x \<and> f x = Inl e)"
  by (cases r) auto

lemma and_then_assoc:
  "and_then (and_then r f) g = and_then r (\<lambda>x. and_then (f x) g)"
  by (cases r) auto

lemma ok_or_eq_Inr [simp]: "ok_or e x = Inr y \<longleftrightarrow> x = Some y"
  by (cases x) auto

lemma ok_or_eq_Inl [simp]: "ok_or e x = Inl d \<longleftrightarrow> x = None \<and> d = e"
  by (cases x) auto

lemma and_then_split:
  "P (and_then r f) \<longleftrightarrow> (\<forall>e. r = Inl e \<longrightarrow> P (Inl e)) \<and> (\<forall>x. r = Inr x \<longrightarrow> P (f x))"
  by (cases r) auto

section \<open>Lemmas on machine arithmetic\<close>

lemma sat_add_le: "sat_add a b \<le> a + b"
  by (simp add: sat_add_def)

lemma sat_add_le_max [simp]: "sat_add a b \<le> usize_max"
  by (simp add: sat_add_def)

lemma sat_add_exact: "a + b \<le> usize_max \<Longrightarrow> sat_add a b = a + b"
  by (simp add: sat_add_def)

lemma sat_mul_exact: "a * b \<le> usize_max \<Longrightarrow> sat_mul a b = a * b"
  by (simp add: sat_mul_def)

lemma sat_add_mono: "a \<le> c \<Longrightarrow> b \<le> d \<Longrightarrow> sat_add a b \<le> sat_add c d"
  by (auto simp: sat_add_def)

lemma checked_add_eq_Some:
  "checked_add a b = Some c \<longleftrightarrow> c = a + b \<and> a + b \<le> usize_max"
  by (auto simp: checked_add_def)

section \<open>Lemmas on byte lists of words\<close>

lemma length_le_bytes [simp, wire_length]: "length (le_bytes n w) = n"
  by (induction n arbitrary: w) auto

lemma length_be_bytes [simp, wire_length]: "length (be_bytes n w) = n"
  by (simp add: be_bytes_def)

lemma take_bit_byte_split:
  fixes w :: "'a::len word"
  shows "ucast (ucast w :: byte) OR push_bit 8 (take_bit n (drop_bit 8 w)) = take_bit (8 + n) w"
proof (rule bit_word_eqI)
  fix i
  assume "i < LENGTH('a)"
  then show "bit (ucast (ucast w :: byte) OR push_bit 8 (take_bit n (drop_bit 8 w))) i
    \<longleftrightarrow> bit (take_bit (8 + n) w) i"
    by (cases "i < 8") (auto simp: bit_simps)
qed

lemma of_le_bytes_le_bytes: "of_le_bytes (le_bytes n w) = take_bit (8 * n) w"
  by (induction n arbitrary: w) (simp_all add: take_bit_byte_split)

lemma of_be_bytes_be_bytes: "of_be_bytes (be_bytes n w) = take_bit (8 * n) w"
  by (simp add: of_be_bytes_def be_bytes_def of_le_bytes_le_bytes)

lemma take_bit_full: "LENGTH('a) \<le> m \<Longrightarrow> take_bit m (w :: 'a::len word) = w"
  by (rule bit_word_eqI) (auto simp: bit_simps)

lemma unat_of_nat_less: "n < 2 ^ LENGTH('a) \<Longrightarrow> unat (of_nat n :: 'a::len word) = n"
  by (simp add: unat_of_nat take_bit_nat_eq_self)

lemma of_bytes_roundtrip:
  "of_le_bytes (le_bytes n w) = (w :: 'a::len word)"
  "of_be_bytes (be_bytes n w) = w"
  if "LENGTH('a) \<le> 8 * n"
  using that by (simp_all add: of_le_bytes_le_bytes of_be_bytes_be_bytes take_bit_full)

lemma ucast_join_byte:
  fixes v :: "'a::len word"
  assumes "8 \<le> LENGTH('a)"
  shows "ucast ((ucast (b :: byte) :: 'a word) OR push_bit 8 v) = b"
  by (rule bit_word_eqI) (use assms in \<open>auto simp: bit_simps\<close>)

lemma drop_join_byte:
  fixes v :: "'a::len word"
  assumes "take_bit (LENGTH('a) - 8) v = v"
  shows "drop_bit 8 (ucast (b :: byte) OR push_bit 8 v) = v"
proof (rule bit_word_eqI)
  fix i
  assume "i < LENGTH('a)"
  have "bit v i \<longleftrightarrow> i < LENGTH('a) - 8 \<and> bit v i"
    by (metis assms bit_take_bit_iff)
  then show "bit (drop_bit 8 (ucast b OR push_bit 8 v)) i \<longleftrightarrow> bit v i"
    by (auto simp: bit_simps dest: bit_imp_le_length)
qed

lemma bit_of_le_bytes_less:
  "bit (of_le_bytes bs :: 'a::len word) i \<Longrightarrow> i < 8 * length bs"
proof (induction bs arbitrary: i)
  case (Cons b bs)
  then have "bit (ucast b :: 'a word) i \<or> 8 \<le> i \<and> bit (of_le_bytes bs :: 'a word) (i - 8)"
    by (auto simp: bit_simps)
  then show ?case
    using Cons.IH [of "i - 8"] by (auto simp: bit_simps dest: bit_imp_le_length)
qed simp

lemma of_le_bytes_bound:
  "8 * length bs \<le> m \<Longrightarrow> take_bit m (of_le_bytes bs :: 'a::len word) = of_le_bytes bs"
  by (rule bit_word_eqI) (use bit_of_le_bytes_less in \<open>fastforce simp: bit_simps\<close>)

lemma le_bytes_of_le_bytes:
  "8 * length bs \<le> LENGTH('a) \<Longrightarrow> le_bytes (length bs) (of_le_bytes bs :: 'a::len word) = bs"
proof (induction bs)
  case (Cons b bs)
  have "take_bit (LENGTH('a) - 8) (of_le_bytes bs :: 'a word) = of_le_bytes bs"
    using Cons.prems by (intro of_le_bytes_bound) simp
  with Cons show ?case
    by (simp add: ucast_join_byte drop_join_byte del: drop_bit_or)
qed simp

lemma be_bytes_of_be_bytes:
  "8 * length bs \<le> LENGTH('a) \<Longrightarrow> be_bytes (length bs) (of_be_bytes bs :: 'a::len word) = bs"
  using le_bytes_of_le_bytes [of "rev bs", where 'a = 'a]
  by (simp add: of_be_bytes_def be_bytes_def)

section \<open>Interface: a wire codec\<close>

text \<open>
  An encoder and a decoder that read back what was written, whatever follows
  it in the buffer.  The laws give injectivity, prefix-freeness and the round
  trip of a sequence of encoded items.
\<close>

locale codec =
  fixes enc :: "'a \<Rightarrow> byte list"
    and dec :: "('e, 'a) decoder"
    and valid :: "'a \<Rightarrow> bool"
  assumes dec_enc: "valid x \<Longrightarrow> dec (enc x @ rest) = Inr (x, rest)"
begin

lemma dec_enc_only: "valid x \<Longrightarrow> dec (enc x) = Inr (x, [])"
  using dec_enc [of x "[]"] by simp

lemma enc_prefix_free:
  assumes "valid x" "valid y" "enc x @ r = enc y @ s"
  shows "x = y \<and> r = s"
proof -
  have "Inr (x, r) = (Inr (y, s) :: 'e + 'a \<times> byte list)"
    unfolding dec_enc [OF assms(1), of r, symmetric] dec_enc [OF assms(2), of s, symmetric]
    by (rule arg_cong [OF assms(3)])
  then show ?thesis by simp
qed

lemma enc_inject: "valid x \<Longrightarrow> valid y \<Longrightarrow> enc x = enc y \<longleftrightarrow> x = y"
  using enc_prefix_free [of x y "[]" "[]"] by (metis append_Nil2)

lemma decode_n_concat:
  "list_all valid xs \<Longrightarrow>
   decode_n dec (length xs) (concat (map enc xs) @ rest) = Inr (xs, rest)"
  by (induction xs) (auto simp: dec_enc)

end

section \<open>Interface: a stream decoder\<close>

text \<open>
  A decoder that only looks at a prefix of its input: what it leaves is a
  suffix of the input, and bytes after a complete item do not change the item.
\<close>

locale stream_decoder =
  fixes dec :: "('e, 'a) decoder"
  assumes dec_append: "dec bs = Inr (x, r) \<Longrightarrow> dec (bs @ more) = Inr (x, r @ more)"
    and dec_suffix: "dec bs = Inr (x, r) \<Longrightarrow> suffix r bs"
begin

lemma dec_length: "dec bs = Inr (x, r) \<Longrightarrow> length r \<le> length bs"
  using dec_suffix suffix_length_le by blast

lemma decode_n_suffix: "decode_n dec n bs = Inr (xs, r) \<Longrightarrow> suffix r bs \<and> length xs = n"
proof (induction n arbitrary: bs xs)
  case (Suc n)
  then obtain x r1 ys where "dec bs = Inr (x, r1)" "decode_n dec n r1 = Inr (ys, r)" "xs = x # ys"
    by (auto simp: and_then_eq_Inr)
  then show ?case
    using Suc.IH [of r1 ys] suffix_order.trans [OF _ dec_suffix, of r r1 bs x] by simp
qed simp

lemma decode_n_append:
  "decode_n dec n bs = Inr (xs, r) \<Longrightarrow> decode_n dec n (bs @ more) = Inr (xs, r @ more)"
proof (induction n arbitrary: bs xs)
  case (Suc n)
  then obtain x r1 ys where "dec bs = Inr (x, r1)" "decode_n dec n r1 = Inr (ys, r)" "xs = x # ys"
    by (auto simp: and_then_eq_Inr)
  with Suc.IH show ?case
    by (auto simp: dec_append)
qed simp

end

text \<open>Sequencing, returning, failing and branching keep the stream laws.\<close>

lemma stream_decoder_bind [stream_intros]:
  assumes "stream_decoder d" "\<And>x. stream_decoder (f x)"
  shows "stream_decoder (\<lambda>bs. and_then (d bs) (\<lambda>(x, r). f x r))"
proof
  show "and_then (d (bs @ more)) (\<lambda>(x, r). f x r) = Inr (y, r @ more)"
    if "and_then (d bs) (\<lambda>(x, r). f x r) = Inr (y, r)" for bs y r more
    using that stream_decoder.dec_append [OF assms(1)] stream_decoder.dec_append [OF assms(2)]
    by (auto simp: and_then_eq_Inr)
  show "suffix r bs" if "and_then (d bs) (\<lambda>(x, r). f x r) = Inr (y, r)" for bs y r
  proof -
    from that obtain x r1 where "d bs = Inr (x, r1)" "f x r1 = Inr (y, r)"
      by (auto simp: and_then_eq_Inr)
    then show ?thesis
      using stream_decoder.dec_suffix [OF assms(1)] stream_decoder.dec_suffix [OF assms(2)]
        suffix_order.trans by blast
  qed
qed

lemma stream_decoder_return [stream_intros]: "stream_decoder (\<lambda>bs. Inr (x, bs))"
  by unfold_locales auto

lemma stream_decoder_fail [stream_intros]: "stream_decoder (\<lambda>bs. Inl e)"
  by unfold_locales auto

lemma stream_decoder_if [stream_intros]:
  "stream_decoder d \<Longrightarrow> stream_decoder d' \<Longrightarrow> stream_decoder (\<lambda>bs. if c then d bs else d' bs)"
  by (cases c) auto

lemma stream_decoder_option [stream_intros]:
  "stream_decoder d \<Longrightarrow> (\<And>x. stream_decoder (f x)) \<Longrightarrow>
   stream_decoder (\<lambda>bs. case v of None \<Rightarrow> d bs | Some x \<Rightarrow> f x bs)"
  by (cases v) auto

lemma stream_decoder_ok_or [stream_intros]:
  "(\<And>x. stream_decoder (f x)) \<Longrightarrow> stream_decoder (\<lambda>bs. and_then (ok_or e v) (\<lambda>x. f x bs))"
  by (cases v) (auto intro: stream_decoder_fail)

text \<open>A codec whose decoder is also a stream decoder.\<close>

locale wire_format = codec enc dec valid + stream_decoder dec
  for enc :: "'a \<Rightarrow> byte list" and dec :: "('e, 'a) decoder" and valid :: "'a \<Rightarrow> bool"

section \<open>Interface: a framer\<close>

text \<open>
  A framer takes at least one byte for every event that keeps the circuit open,
  and bytes that arrive later do not change its mind.  Any such framer is
  independent of how the transport cuts the stream into segments.
\<close>

locale framer =
  fixes nxt :: "'s \<Rightarrow> byte list \<Rightarrow> ('f \<times> nat) option"
    and stop :: "'s \<Rightarrow> 'f \<Rightarrow> bool"
    and upd :: "'s \<Rightarrow> 'f \<Rightarrow> 's"
  assumes nxt_consumes: "nxt s bs = Some (f, n) \<Longrightarrow> \<not> stop s f \<Longrightarrow> 0 < n"
    and nxt_stable: "nxt s bs = Some (f, n) \<Longrightarrow> nxt s (bs @ suf) = Some (f, n)"
begin

lemma scan_None: "nxt s bs = None \<Longrightarrow> scan nxt stop upd s bs = ([], Feed s 0 bs)"
  by (subst scan.simps) simp

lemma scan_stop: "nxt s bs = Some (f, n) \<Longrightarrow> stop s f \<Longrightarrow> scan nxt stop upd s bs = ([f], Closed)"
  by (subst scan.simps) simp

lemma scan_Some:
  "nxt s bs = Some (f, n) \<Longrightarrow> \<not> stop s f \<Longrightarrow> n \<le> length bs \<Longrightarrow>
   scan nxt stop upd s bs = (f # fst (scan nxt stop upd (upd s f) (drop n bs)),
     snd (scan nxt stop upd (upd s f) (drop n bs)))"
  by (subst scan.simps) (auto dest: nxt_consumes simp: case_prod_beta)

lemma scan_short:
  "nxt s bs = Some (f, n) \<Longrightarrow> \<not> stop s f \<Longrightarrow> length bs < n \<Longrightarrow>
   scan nxt stop upd s bs = ([f], Feed (upd s f) (n - length bs) [])"
  by (subst scan.simps) simp

lemma scan_append:
  "scan nxt stop upd s (a @ b) =
   (fst (scan nxt stop upd s a) @ fst (feed nxt stop upd (snd (scan nxt stop upd s a)) b),
    snd (feed nxt stop upd (snd (scan nxt stop upd s a)) b))"
proof (induction a arbitrary: s rule: length_induct)
  case (1 a)
  show ?case
  proof (cases "nxt s a")
    case None
    then show ?thesis by (simp add: scan_None feed_def)
  next
    case (Some p)
    then obtain f n where nxt: "nxt s a = Some (f, n)" by (cases p) auto
    note nxt' = nxt_stable [OF nxt, of b]
    consider "stop s f" | "\<not> stop s f" "n \<le> length a" | "\<not> stop s f" "length a < n" by linarith
    then show ?thesis
    proof cases
      case 1
      then show ?thesis by (simp add: scan_stop [OF nxt] scan_stop [OF nxt'] feed_def)
    next
      case 2
      then have "length (drop n a) < length a" using nxt_consumes [OF nxt] by auto
      with 1 have IH: "scan nxt stop upd t (drop n a @ b) =
         (fst (scan nxt stop upd t (drop n a)) @ fst (feed nxt stop upd (snd (scan nxt stop upd t (drop n a))) b),
          snd (feed nxt stop upd (snd (scan nxt stop upd t (drop n a))) b))" for t by blast
      have "drop n (a @ b) = drop n a @ b" "n \<le> length (a @ b)" using 2 by simp_all
      with IH 2 show ?thesis by (simp add: scan_Some [OF nxt] scan_Some [OF nxt'])
    next
      case 3
      show ?thesis
      proof (cases "n \<le> length (a @ b)")
        case True
        then have "drop n (a @ b) = drop (n - length a) b" "\<not> n - length a > length b"
          using 3 by auto
        with 3 True show ?thesis
          by (simp add: scan_short [OF nxt] scan_Some [OF nxt'] feed_def)
      next
        case False
        then have "length b < n - length a" "length (a @ b) < n" using 3 by simp_all
        with 3 show ?thesis by (simp add: scan_short [OF nxt] scan_short [OF nxt'] feed_def)
      qed
    qed
  qed
qed

text \<open>Feeding the stream in any segmentation yields the events of the whole stream.\<close>

lemma feeds_scan:
  "scan nxt stop upd s (a @ concat segs) =
   (fst (scan nxt stop upd s a) @ fst (feeds nxt stop upd (snd (scan nxt stop upd s a)) segs),
    snd (feeds nxt stop upd (snd (scan nxt stop upd s a)) segs))"
proof (induction segs arbitrary: a)
  case (Cons seg segs)
  show ?case
    using Cons.IH [of "a @ seg"] by (simp add: scan_append [of s a seg] case_prod_beta Let_def)
qed simp

end

end
