(* ===== verification/Pva_Buffer.thy ===== *)
theory Pva_Buffer
  imports Epics_Prelude
begin

text \<open>
  The byte-order aware reader and writer of the PVA codec
  (\<^verbatim>\<open>epics-pva-rs/src/proto/buffer.rs\<close>).  A writer method is the list of
  bytes it appends to the \<^verbatim>\<open>Vec<u8>\<close>; a reader method takes the bytes that
  remain in the cursor and returns the value with the bytes left over.
  Signed integers and IEEE floats are carried as the word of their bits.
  Every reader/writer pair is an instance of the \<open>wire_format\<close> interface.
\<close>

section \<open>Byte order\<close>

datatype byte_order = Little | Big

fun is_big :: "byte_order \<Rightarrow> bool" where
  "is_big Big = True"
| "is_big Little = False"

definition header_flag :: "byte_order \<Rightarrow> byte" where
  "header_flag ord = (if is_big ord then 0x80 else 0x00)"

definition from_header_flag :: "byte \<Rightarrow> byte_order" where
  "from_header_flag flag_byte = (if flag_byte AND 0x80 \<noteq> 0 then Big else Little)"

section \<open>Errors\<close>

text \<open>
  \<^verbatim>\<open>DecodeError\<close> wraps a diagnostic text; the constructors are the distinct
  diagnostics the codec raises, with the values the text interpolates.
\<close>

datatype decode_error =
    ShortRead string
  | ShortBytes nat nat
  | NullSize string
  | BadMagic byte
  | BadVersionZero
  | UnknownStatusKind byte
  | NestingTooDeep
  | TooManyNodes
  | NestingAfterExpansion
  | TypecacheMiss u16
  | ElementNotStructure
  | ElementNotUnion
  | BoundedStringRefused
  | UnknownArrayTag byte
  | UnknownTypeTag byte
  | ArraySizeOverflow
  | ArrayTooLong nat nat nat
  | ValueNestingTooDeep
  | BadPresence byte
  | SelectorOutOfRange u32
  | AdvanceOverflow
  | AdvancePastEnd

section \<open>Writer\<close>

definition put_u8 :: "byte \<Rightarrow> byte list" where
  "put_u8 v = [v]"

definition put_i8 :: "byte \<Rightarrow> byte list" where
  "put_i8 v = [v]"

definition put_u16 :: "u16 \<Rightarrow> byte_order \<Rightarrow> byte list" where
  "put_u16 v ord = (case ord of Big \<Rightarrow> be_bytes 2 v | Little \<Rightarrow> le_bytes 2 v)"

definition put_i16 :: "u16 \<Rightarrow> byte_order \<Rightarrow> byte list" where
  "put_i16 v ord = (case ord of Big \<Rightarrow> be_bytes 2 v | Little \<Rightarrow> le_bytes 2 v)"

definition put_u32 :: "u32 \<Rightarrow> byte_order \<Rightarrow> byte list" where
  "put_u32 v ord = (case ord of Big \<Rightarrow> be_bytes 4 v | Little \<Rightarrow> le_bytes 4 v)"

definition put_i32 :: "u32 \<Rightarrow> byte_order \<Rightarrow> byte list" where
  "put_i32 v ord = (case ord of Big \<Rightarrow> be_bytes 4 v | Little \<Rightarrow> le_bytes 4 v)"

definition put_u64 :: "u64 \<Rightarrow> byte_order \<Rightarrow> byte list" where
  "put_u64 v ord = (case ord of Big \<Rightarrow> be_bytes 8 v | Little \<Rightarrow> le_bytes 8 v)"

definition put_i64 :: "u64 \<Rightarrow> byte_order \<Rightarrow> byte list" where
  "put_i64 v ord = (case ord of Big \<Rightarrow> be_bytes 8 v | Little \<Rightarrow> le_bytes 8 v)"

definition put_f32 :: "u32 \<Rightarrow> byte_order \<Rightarrow> byte list" where
  "put_f32 v ord = (case ord of Big \<Rightarrow> be_bytes 4 v | Little \<Rightarrow> le_bytes 4 v)"

definition put_f64 :: "u64 \<Rightarrow> byte_order \<Rightarrow> byte list" where
  "put_f64 v ord = (case ord of Big \<Rightarrow> be_bytes 8 v | Little \<Rightarrow> le_bytes 8 v)"

definition put_bytes :: "byte list \<Rightarrow> byte list" where
  "put_bytes v = v"

section \<open>Reader\<close>

text \<open>\<^verbatim>\<open>Cursor::read_exact\<close> into a buffer of \<open>n\<close> bytes.\<close>

definition read_exact :: "nat \<Rightarrow> byte list \<Rightarrow> (byte list \<times> byte list) option" where
  "read_exact n bs = (if n \<le> length bs then Some (take n bs, drop n bs) else None)"

definition get_u8 :: "(decode_error, byte) decoder" where
  "get_u8 bs = (case read_exact 1 bs of
     None \<Rightarrow> Inl (ShortRead ''u8'')
   | Some (buf, r) \<Rightarrow> Inr (hd buf, r))"

definition get_i8 :: "(decode_error, byte) decoder" where
  "get_i8 bs = and_then (get_u8 bs) (\<lambda>(v, r). Inr (v, r))"

definition get_u16 :: "byte_order \<Rightarrow> (decode_error, u16) decoder" where
  "get_u16 ord bs = (case read_exact 2 bs of
     None \<Rightarrow> Inl (ShortRead ''u16'')
   | Some (buf, r) \<Rightarrow>
       Inr (case ord of Big \<Rightarrow> of_be_bytes buf | Little \<Rightarrow> of_le_bytes buf, r))"

definition get_i16 :: "byte_order \<Rightarrow> (decode_error, u16) decoder" where
  "get_i16 ord bs = and_then (get_u16 ord bs) (\<lambda>(v, r). Inr (v, r))"

definition get_u32 :: "byte_order \<Rightarrow> (decode_error, u32) decoder" where
  "get_u32 ord bs = (case read_exact 4 bs of
     None \<Rightarrow> Inl (ShortRead ''u32'')
   | Some (buf, r) \<Rightarrow>
       Inr (case ord of Big \<Rightarrow> of_be_bytes buf | Little \<Rightarrow> of_le_bytes buf, r))"

definition get_i32 :: "byte_order \<Rightarrow> (decode_error, u32) decoder" where
  "get_i32 ord bs = and_then (get_u32 ord bs) (\<lambda>(v, r). Inr (v, r))"

definition get_u64 :: "byte_order \<Rightarrow> (decode_error, u64) decoder" where
  "get_u64 ord bs = (case read_exact 8 bs of
     None \<Rightarrow> Inl (ShortRead ''u64'')
   | Some (buf, r) \<Rightarrow>
       Inr (case ord of Big \<Rightarrow> of_be_bytes buf | Little \<Rightarrow> of_le_bytes buf, r))"

definition get_i64 :: "byte_order \<Rightarrow> (decode_error, u64) decoder" where
  "get_i64 ord bs = and_then (get_u64 ord bs) (\<lambda>(v, r). Inr (v, r))"

definition get_f32 :: "byte_order \<Rightarrow> (decode_error, u32) decoder" where
  "get_f32 ord bs = (case read_exact 4 bs of
     None \<Rightarrow> Inl (ShortRead ''f32'')
   | Some (buf, r) \<Rightarrow>
       Inr (case ord of Big \<Rightarrow> of_be_bytes buf | Little \<Rightarrow> of_le_bytes buf, r))"

definition get_f64 :: "byte_order \<Rightarrow> (decode_error, u64) decoder" where
  "get_f64 ord bs = (case read_exact 8 bs of
     None \<Rightarrow> Inl (ShortRead ''f64'')
   | Some (buf, r) \<Rightarrow>
       Inr (case ord of Big \<Rightarrow> of_be_bytes buf | Little \<Rightarrow> of_le_bytes buf, r))"

definition get_bytes :: "nat \<Rightarrow> (decode_error, byte list) decoder" where
  "get_bytes n bs =
     (if length bs < n then Inl (ShortBytes n (length bs))
      else Inr (take n bs, drop n bs))"

definition remaining :: "byte list \<Rightarrow> nat" where
  "remaining bs = length bs"

section \<open>Lemmas\<close>

lemma from_header_flag_header_flag [simp]: "from_header_flag (header_flag ord) = ord"
  by (cases ord) (simp_all add: header_flag_def from_header_flag_def)

lemmas put_defs =
  put_u8_def put_i8_def put_u16_def put_i16_def put_u32_def put_i32_def
  put_u64_def put_i64_def put_f32_def put_f64_def put_bytes_def

lemmas get_defs =
  get_u8_def get_i8_def get_u16_def get_i16_def get_u32_def get_i32_def
  get_u64_def get_i64_def get_f32_def get_f64_def read_exact_def

lemma length_put [wire_length, simp]:
  "length (put_u8 b) = 1" "length (put_u16 h ord) = 2"
  "length (put_u32 w ord) = 4" "length (put_u64 d ord) = 8"
  by (cases ord; simp add: put_defs)+

lemma get_bytes_eq_Inr:
  "get_bytes n bs = Inr (x, r) \<longleftrightarrow> n \<le> length bs \<and> x = take n bs \<and> r = drop n bs"
  by (auto simp: get_bytes_def)

lemma get_bytes_append [wire_simps]: "get_bytes (length xs) (xs @ rest) = Inr (xs, rest)"
  by (simp add: get_bytes_def)

interpretation u8_wire: wire_format put_u8 get_u8 "\<lambda>_. True"
  by unfold_locales (auto simp: put_defs get_defs suffix_drop hd_append split: if_splits)

interpretation i8_wire: wire_format put_i8 get_i8 "\<lambda>_. True"
  by unfold_locales (auto simp: put_defs get_defs suffix_drop hd_append split: if_splits)

interpretation u16_wire: wire_format "\<lambda>v. put_u16 v ord" "get_u16 ord" "\<lambda>_. True" for ord
  by unfold_locales
    (auto simp: put_defs get_defs suffix_drop of_bytes_roundtrip split: if_splits byte_order.splits)

interpretation i16_wire: wire_format "\<lambda>v. put_i16 v ord" "get_i16 ord" "\<lambda>_. True" for ord
  by unfold_locales
    (auto simp: put_defs get_defs suffix_drop of_bytes_roundtrip split: if_splits byte_order.splits)

interpretation u32_wire: wire_format "\<lambda>v. put_u32 v ord" "get_u32 ord" "\<lambda>_. True" for ord
  by unfold_locales
    (auto simp: put_defs get_defs suffix_drop of_bytes_roundtrip split: if_splits byte_order.splits)

interpretation i32_wire: wire_format "\<lambda>v. put_i32 v ord" "get_i32 ord" "\<lambda>_. True" for ord
  by unfold_locales
    (auto simp: put_defs get_defs suffix_drop of_bytes_roundtrip split: if_splits byte_order.splits)

interpretation u64_wire: wire_format "\<lambda>v. put_u64 v ord" "get_u64 ord" "\<lambda>_. True" for ord
  by unfold_locales
    (auto simp: put_defs get_defs suffix_drop of_bytes_roundtrip split: if_splits byte_order.splits)

interpretation i64_wire: wire_format "\<lambda>v. put_i64 v ord" "get_i64 ord" "\<lambda>_. True" for ord
  by unfold_locales
    (auto simp: put_defs get_defs suffix_drop of_bytes_roundtrip split: if_splits byte_order.splits)

interpretation f32_wire: wire_format "\<lambda>v. put_f32 v ord" "get_f32 ord" "\<lambda>_. True" for ord
  by unfold_locales
    (auto simp: put_defs get_defs suffix_drop of_bytes_roundtrip split: if_splits byte_order.splits)

interpretation f64_wire: wire_format "\<lambda>v. put_f64 v ord" "get_f64 ord" "\<lambda>_. True" for ord
  by unfold_locales
    (auto simp: put_defs get_defs suffix_drop of_bytes_roundtrip split: if_splits byte_order.splits)

interpretation bytes_stream: stream_decoder "get_bytes n" for n
  by unfold_locales (auto simp: get_bytes_def suffix_drop split: if_splits)

lemmas get_streams [stream_intros] =
  u8_wire.stream_decoder_axioms i8_wire.stream_decoder_axioms
  u16_wire.stream_decoder_axioms i16_wire.stream_decoder_axioms
  u32_wire.stream_decoder_axioms i32_wire.stream_decoder_axioms
  u64_wire.stream_decoder_axioms i64_wire.stream_decoder_axioms
  f32_wire.stream_decoder_axioms f64_wire.stream_decoder_axioms
  bytes_stream.stream_decoder_axioms

lemmas get_put [wire_simps] =
  u8_wire.dec_enc [OF TrueI] i8_wire.dec_enc [OF TrueI]
  u16_wire.dec_enc [OF TrueI] i16_wire.dec_enc [OF TrueI]
  u32_wire.dec_enc [OF TrueI] i32_wire.dec_enc [OF TrueI]
  u64_wire.dec_enc [OF TrueI] i64_wire.dec_enc [OF TrueI]
  f32_wire.dec_enc [OF TrueI] f64_wire.dec_enc [OF TrueI]

lemma get_u8_Cons [wire_simps, simp]: "get_u8 (b # bs) = Inr (b, bs)"
  by (simp add: get_u8_def read_exact_def)

lemma get_u8_Nil [wire_simps, simp]: "get_u8 [] = Inl (ShortRead ''u8'')"
  by (simp add: get_u8_def read_exact_def)

lemma get_u8_eq_Inr: "get_u8 bs = Inr (b, r) \<longleftrightarrow> bs = b # r"
  by (cases bs) auto

end
