(* ===== verification/Utf8_Lossy.thy ===== *)
theory Utf8_Lossy
  imports Epics_Prelude
begin

text \<open>
  \<^verbatim>\<open>String::from_utf8_lossy\<close> of the Rust standard library, which the label
  decoders of the PVA codec apply to wire bytes: the input is cut into
  well-formed scalar encodings and maximal ill-formed subparts, and each of
  the latter is replaced by U+FFFD.  A Rust \<^verbatim>\<open>String\<close> is modelled by its
  bytes, and \<open>utf8_valid\<close> is the type's invariant.
\<close>

section \<open>Definitions\<close>

definition safe_get :: "byte list \<Rightarrow> nat \<Rightarrow> byte" where
  "safe_get bs i = (if i < length bs then bs ! i else 0)"

definition is_cont :: "byte \<Rightarrow> bool" where
  "is_cont b \<longleftrightarrow> b AND 0xC0 = 0x80"

definition second_of_three :: "byte \<Rightarrow> byte \<Rightarrow> bool" where
  "second_of_three b c \<longleftrightarrow>
     b = 0xE0 \<and> 0xA0 \<le> c \<and> c \<le> 0xBF \<or>
     0xE1 \<le> b \<and> b \<le> 0xEC \<and> 0x80 \<le> c \<and> c \<le> 0xBF \<or>
     b = 0xED \<and> 0x80 \<le> c \<and> c \<le> 0x9F \<or>
     0xEE \<le> b \<and> b \<le> 0xEF \<and> 0x80 \<le> c \<and> c \<le> 0xBF"

definition second_of_four :: "byte \<Rightarrow> byte \<Rightarrow> bool" where
  "second_of_four b c \<longleftrightarrow>
     b = 0xF0 \<and> 0x90 \<le> c \<and> c \<le> 0xBF \<or>
     0xF1 \<le> b \<and> b \<le> 0xF3 \<and> 0x80 \<le> c \<and> c \<le> 0xBF \<or>
     b = 0xF4 \<and> 0x80 \<le> c \<and> c \<le> 0x8F"

text \<open>
  The head of a non-empty byte string: whether it starts with a well-formed
  scalar, and the number of bytes of that scalar or of the maximal subpart.
\<close>

definition utf8_seq :: "byte list \<Rightarrow> bool \<times> nat" where
  "utf8_seq bs =
     (let b = safe_get bs 0 in
      if b < 0x80 then (True, 1)
      else if 0xC2 \<le> b \<and> b \<le> 0xDF then
        (if is_cont (safe_get bs 1) then (True, 2) else (False, 1))
      else if 0xE0 \<le> b \<and> b \<le> 0xEF then
        (if second_of_three b (safe_get bs 1)
         then (if is_cont (safe_get bs 2) then (True, 3) else (False, 2))
         else (False, 1))
      else if 0xF0 \<le> b \<and> b \<le> 0xF4 then
        (if second_of_four b (safe_get bs 1)
         then (if is_cont (safe_get bs 2)
               then (if is_cont (safe_get bs 3) then (True, 4) else (False, 3))
               else (False, 2))
         else (False, 1))
      else (False, 1))"

lemma utf8_seq_pos: "0 < snd (utf8_seq bs)"
  by (simp add: utf8_seq_def Let_def)

lemma utf8_seq_shrinks: "bs \<noteq> [] \<Longrightarrow> (ok, n) = utf8_seq bs \<Longrightarrow> length (drop n bs) < length bs"
  using utf8_seq_pos [of bs] by (cases bs) (auto dest: sym)

definition replacement :: "byte list" where
  "replacement = [0xEF, 0xBF, 0xBD]"

function utf8_lossy :: "byte list \<Rightarrow> byte list" where
  "utf8_lossy bs =
     (if bs = [] then []
      else (case utf8_seq bs of (ok, n) \<Rightarrow>
        (if ok then take n bs else replacement) @ utf8_lossy (drop n bs)))"
  by pat_completeness auto
termination
  by (relation "measure length") (use utf8_seq_shrinks in simp_all)

function utf8_valid :: "byte list \<Rightarrow> bool" where
  "utf8_valid bs =
     (if bs = [] then True
      else (case utf8_seq bs of (ok, n) \<Rightarrow> ok \<and> utf8_valid (drop n bs)))"
  by pat_completeness auto
termination
  by (relation "measure length") (use utf8_seq_shrinks in simp_all)

declare utf8_lossy.simps [simp del] utf8_valid.simps [simp del]

section \<open>Lemmas\<close>

lemma not_cont_0 [simp]: "\<not> is_cont 0"
  by (simp add: is_cont_def)

lemma not_second_0 [simp]: "\<not> second_of_three b 0" "\<not> second_of_four b 0"
  by (simp_all add: second_of_three_def second_of_four_def word_le_nat_alt)

lemma cont_in_range: "is_cont (safe_get bs i) \<Longrightarrow> i < length bs"
  by (cases "i < length bs") (simp_all add: safe_get_def)

lemma second_in_range:
  "second_of_three b (safe_get bs i) \<Longrightarrow> i < length bs"
  "second_of_four b (safe_get bs i) \<Longrightarrow> i < length bs"
  by (cases "i < length bs"; simp add: safe_get_def)+

lemma utf8_seq_le: "bs \<noteq> [] \<Longrightarrow> snd (utf8_seq bs) \<le> length bs"
  by (cases bs)
    (auto simp: utf8_seq_def Let_def Suc_le_eq numeral_eq_Suc
      dest!: cont_in_range second_in_range)

lemma safe_get_take: "i < n \<Longrightarrow> n \<le> length bs \<Longrightarrow> safe_get (take n bs @ rest) i = safe_get bs i"
  by (simp add: safe_get_def nth_append)

lemma utf8_seq_take:
  assumes "bs \<noteq> []" "utf8_seq bs = (True, n)"
  shows "utf8_seq (take n bs @ rest) = (True, n)"
proof -
  have n: "n \<le> length bs" "0 < n"
    using utf8_seq_le [of bs] utf8_seq_pos [of bs] assms by simp_all
  then have "safe_get (take n bs @ rest) i = safe_get bs i" if "i < n" for i
    using that by (simp add: safe_get_take)
  with assms n show ?thesis
    by (auto simp: utf8_seq_def Let_def split: if_splits)
qed

lemma utf8_valid_Nil [simp]: "utf8_valid []"
  by (simp add: utf8_valid.simps)

lemma utf8_lossy_Nil [simp]: "utf8_lossy [] = []"
  by (simp add: utf8_lossy.simps)

lemma utf8_valid_take_append:
  assumes "bs \<noteq> []" "utf8_seq bs = (True, n)"
  shows "utf8_valid (take n bs @ rest) \<longleftrightarrow> utf8_valid rest"
proof -
  have "n \<le> length bs" "0 < n"
    using utf8_seq_le [of bs] utf8_seq_pos [of bs] assms by simp_all
  then show ?thesis
    using utf8_seq_take [OF assms, of rest] assms(1)
    by (subst utf8_valid.simps) auto
qed

lemma utf8_valid_replacement: "utf8_valid (replacement @ rest) \<longleftrightarrow> utf8_valid rest"
proof -
  have "utf8_seq (replacement @ rest) = (True, 3)"
    by (simp add: utf8_seq_def safe_get_def replacement_def is_cont_def second_of_three_def)
  then show ?thesis
    by (subst utf8_valid.simps) (simp add: replacement_def)
qed

lemma utf8_valid_split:
  assumes "utf8_valid bs" "bs \<noteq> []"
  obtains n where "utf8_seq bs = (True, n)" "utf8_valid (drop n bs)" "0 < n" "n \<le> length bs"
  using assms utf8_seq_pos [of bs] utf8_seq_le [of bs]
  by (subst (asm) utf8_valid.simps) (auto split: prod.splits)

lemma utf8_lossy_valid: "utf8_valid (utf8_lossy bs)"
proof (induction bs rule: utf8_lossy.induct)
  case (1 bs)
  obtain ok n where "utf8_seq bs = (ok, n)" by fastforce
  with 1 show ?case
    by (subst utf8_lossy.simps)
      (auto simp: utf8_valid_take_append utf8_valid_replacement)
qed

lemma utf8_lossy_append: "utf8_valid xs \<Longrightarrow> utf8_lossy (xs @ ys) = xs @ utf8_lossy ys"
proof (induction xs rule: length_induct)
  case (1 xs)
  show ?case
  proof (cases "xs = []")
    case False
    then obtain n where n: "utf8_seq xs = (True, n)" "utf8_valid (drop n xs)" "0 < n" "n \<le> length xs"
      using 1 utf8_valid_split by blast
    then have seq: "utf8_seq (xs @ ys) = (True, n)"
      using utf8_seq_take [OF False n(1), of "drop n xs @ ys"]
      by (metis append.assoc append_take_drop_id)
    have "utf8_lossy (xs @ ys) = take n (xs @ ys) @ utf8_lossy (drop n (xs @ ys))"
      by (subst utf8_lossy.simps) (simp add: seq False)
    moreover have "utf8_lossy (drop n xs @ ys) = drop n xs @ utf8_lossy ys"
      using 1 n False by simp
    ultimately show ?thesis
      using n by simp
  qed simp
qed

lemma utf8_lossy_id: "utf8_valid bs \<Longrightarrow> utf8_lossy bs = bs"
  using utf8_lossy_append [of bs "[]"] by simp

lemma utf8_valid_append: "utf8_valid xs \<Longrightarrow> utf8_valid ys \<Longrightarrow> utf8_valid (xs @ ys)"
  by (metis utf8_lossy_append utf8_lossy_id utf8_lossy_valid)

lemma utf8_valid_ascii: "list_all (\<lambda>b. b < 0x80) bs \<Longrightarrow> utf8_valid bs"
proof (induction bs)
  case (Cons b bs)
  then show ?case
    by (subst utf8_valid.simps) (simp add: utf8_seq_def safe_get_def)
qed simp

lemma utf8_lossy_idem: "utf8_lossy (utf8_lossy bs) = utf8_lossy bs"
  by (simp add: utf8_lossy_id utf8_lossy_valid)

end
