(* ===== verification/Pva_Proto.thy ===== *)
theory Pva_Proto
  imports Pva_Buffer Utf8_Lossy
begin

text \<open>
  The primitive wire formats of the PVA protocol
  (\<^verbatim>\<open>epics-pva-rs/src/proto/{size,string,header,status,command,ip}.rs\<close>):
  variable-length sizes, strings, the 8-byte message header, operation
  status, command codes and 16-byte addresses.  Each format is an instance
  of the \<open>wire_format\<close> interface; a Rust \<^verbatim>\<open>String\<close> is a byte list that
  satisfies \<open>utf8_valid\<close>.
\<close>

section \<open>Sizes (size.rs)\<close>

definition NULL_MARKER :: byte where "NULL_MARKER = 0xFF"
definition EXTENDED_MARKER :: byte where "EXTENDED_MARKER = 0xFE"

definition encode_size_into :: "u32 \<Rightarrow> byte_order \<Rightarrow> byte list" where
  "encode_size_into value ord =
     (if value < 254 then [ucast value]
      else EXTENDED_MARKER # put_u32 value ord)"

definition decode_size :: "byte_order \<Rightarrow> (decode_error, u32 option) decoder" where
  "decode_size ord bs = and_then (get_u8 bs) (\<lambda>(b, bs).
     if b = NULL_MARKER then Inr (None, bs)
     else if b = EXTENDED_MARKER then and_then (get_u32 ord bs) (\<lambda>(v, bs). Inr (Some v, bs))
     else Inr (Some (ucast b), bs))"

definition decode_size_nonnull :: "string \<Rightarrow> byte_order \<Rightarrow> (decode_error, u32) decoder" where
  "decode_size_nonnull what ord bs = and_then (decode_size ord bs) (\<lambda>(v, bs).
     and_then (ok_or (NullSize what) v) (\<lambda>n. Inr (n, bs)))"

section \<open>Strings (string.rs)\<close>

definition encode_string_bytes_into :: "byte list \<Rightarrow> byte_order \<Rightarrow> byte list" where
  "encode_string_bytes_into s ord = encode_size_into (of_nat (length s)) ord @ s"

definition encode_string_into :: "byte list \<Rightarrow> byte_order \<Rightarrow> byte list" where
  "encode_string_into s ord = encode_string_bytes_into s ord"

definition decode_string_bytes :: "byte_order \<Rightarrow> (decode_error, byte list option) decoder" where
  "decode_string_bytes ord bs = and_then (decode_size ord bs) (\<lambda>(v, bs).
     case v of
       None \<Rightarrow> Inr (None, bs)
     | Some n \<Rightarrow> and_then (get_bytes (unat n) bs) (\<lambda>(s, bs). Inr (Some s, bs)))"

definition decode_string :: "byte_order \<Rightarrow> (decode_error, byte list option) decoder" where
  "decode_string ord bs = and_then (decode_string_bytes ord bs) (\<lambda>(s, bs).
     Inr (map_option utf8_lossy s, bs))"

definition decode_string_value :: "byte_order \<Rightarrow> (decode_error, byte list option) decoder" where
  "decode_string_value ord bs = decode_string_bytes ord bs"

text \<open>\<^verbatim>\<open>unwrap_or_default\<close> on an optional string.\<close>

definition unwrap_or_empty :: "'a list option \<Rightarrow> 'a list" where
  "unwrap_or_empty s = (case s of None \<Rightarrow> [] | Some x \<Rightarrow> x)"

section \<open>Message header (header.rs)\<close>

definition MAGIC :: byte where "MAGIC = 0xCA"
definition PVA_VERSION :: byte where "PVA_VERSION = 2"
definition FLAG_CONTROL :: byte where "FLAG_CONTROL = 0x01"
definition FLAG_SEGMENT_FIRST :: byte where "FLAG_SEGMENT_FIRST = 0x10"
definition FLAG_SEGMENT_LAST :: byte where "FLAG_SEGMENT_LAST = 0x20"
definition FLAG_SERVER :: byte where "FLAG_SERVER = 0x40"
definition FLAG_BIG_ENDIAN :: byte where "FLAG_BIG_ENDIAN = 0x80"
definition FLAG_SEGMENT_MASK :: byte where "FLAG_SEGMENT_MASK = 0x30"

definition header_flags_new :: "bool \<Rightarrow> bool \<Rightarrow> byte_order \<Rightarrow> byte" where
  "header_flags_new server control ord =
     (let b = 0;
          b = (if control then b OR FLAG_CONTROL else b);
          b = (if server then b OR FLAG_SERVER else b);
          b = (if ord = Big then b OR FLAG_BIG_ENDIAN else b)
      in b)"

definition is_control :: "byte \<Rightarrow> bool" where
  "is_control f \<longleftrightarrow> f AND FLAG_CONTROL \<noteq> 0"

definition is_server :: "byte \<Rightarrow> bool" where
  "is_server f \<longleftrightarrow> f AND FLAG_SERVER \<noteq> 0"

definition segment_first :: "byte \<Rightarrow> bool" where
  "segment_first f \<longleftrightarrow> f AND FLAG_SEGMENT_FIRST \<noteq> 0"

definition segment_last :: "byte \<Rightarrow> bool" where
  "segment_last f \<longleftrightarrow> f AND FLAG_SEGMENT_LAST \<noteq> 0"

definition unsegmented :: "byte \<Rightarrow> bool" where
  "unsegmented f \<longleftrightarrow> f AND FLAG_SEGMENT_MASK = 0"

definition flags_byte_order :: "byte \<Rightarrow> byte_order" where
  "flags_byte_order f = from_header_flag f"

record pva_header =
  h_version :: byte
  h_flags :: byte
  h_command :: byte
  h_payload_length :: u32

definition header_application :: "bool \<Rightarrow> byte_order \<Rightarrow> byte \<Rightarrow> u32 \<Rightarrow> pva_header" where
  "header_application server ord command payload_length =
     \<lparr> h_version = PVA_VERSION, h_flags = header_flags_new server False ord,
       h_command = command, h_payload_length = payload_length \<rparr>"

definition header_control :: "bool \<Rightarrow> byte_order \<Rightarrow> byte \<Rightarrow> u32 \<Rightarrow> pva_header" where
  "header_control server ord command data =
     \<lparr> h_version = PVA_VERSION, h_flags = header_flags_new server True ord,
       h_command = command, h_payload_length = data \<rparr>"

definition header_encode :: "pva_header \<Rightarrow> byte list" where
  "header_encode h =
     [MAGIC, h_version h, h_flags h, h_command h] @
     (case flags_byte_order (h_flags h) of
        Big \<Rightarrow> be_bytes 4 (h_payload_length h)
      | Little \<Rightarrow> le_bytes 4 (h_payload_length h))"

definition header_write_into :: "pva_header \<Rightarrow> byte list" where
  "header_write_into h =
     put_u8 MAGIC @ put_u8 (h_version h) @ put_u8 (h_flags h) @ put_u8 (h_command h) @
     put_u32 (h_payload_length h) (flags_byte_order (h_flags h))"

definition header_decode :: "(decode_error, pva_header) decoder" where
  "header_decode bs =
     and_then (get_u8 bs) (\<lambda>(magic, bs).
     if magic \<noteq> MAGIC then Inl (BadMagic magic) else
     and_then (get_u8 bs) (\<lambda>(version, bs).
     if version = 0 then Inl BadVersionZero else
     and_then (get_u8 bs) (\<lambda>(flags, bs).
     and_then (get_u8 bs) (\<lambda>(command, bs).
     and_then (get_u32 (flags_byte_order flags) bs) (\<lambda>(len, bs).
     Inr (\<lparr> h_version = version, h_flags = flags, h_command = command,
            h_payload_length = len \<rparr>, bs))))))"

section \<open>Status (status.rs)\<close>

datatype status_kind = StOk | StWarning | StError | StFatal

fun status_kind_code :: "status_kind \<Rightarrow> byte" where
  "status_kind_code StOk = 0"
| "status_kind_code StWarning = 1"
| "status_kind_code StError = 2"
| "status_kind_code StFatal = 3"

definition status_kind_from_byte :: "byte \<Rightarrow> status_kind option" where
  "status_kind_from_byte b =
     (if b = 0 then Some StOk else if b = 1 then Some StWarning
      else if b = 2 then Some StError else if b = 3 then Some StFatal else None)"

datatype status =
    OkNoMsg
  | Detailed (st_kind: status_kind) (st_message: "byte list") (st_stack: "byte list")

definition status_error :: "byte list \<Rightarrow> status" where
  "status_error msg = Detailed StError msg []"

definition status_warning :: "byte list \<Rightarrow> status" where
  "status_warning msg = Detailed StWarning msg []"

definition status_fatal :: "byte list \<Rightarrow> status" where
  "status_fatal msg = Detailed StFatal msg []"

text \<open>Decimal rendering and \<^verbatim>\<open>u32::from_str\<close>, as the source location uses them.\<close>

function dec_digits :: "nat \<Rightarrow> byte list" where
  "dec_digits n =
     (if n < 10 then [of_nat (48 + n)] else dec_digits (n div 10) @ [of_nat (48 + n mod 10)])"
  by pat_completeness auto
termination
  by (relation "measure id") auto

declare dec_digits.simps [simp del]

fun parse_digits :: "nat \<Rightarrow> byte list \<Rightarrow> nat option" where
  "parse_digits acc [] = Some acc"
| "parse_digits acc (d # ds) =
     (if 48 \<le> unat d \<and> unat d \<le> 57
      then (let v = acc * 10 + (unat d - 48) in
            if v < 2 ^ 32 then parse_digits v ds else None)
      else None)"

definition parse_u32 :: "byte list \<Rightarrow> u32 option" where
  "parse_u32 s =
     (let digits = (if s \<noteq> [] \<and> hd s = 0x2B then tl s else s) in
      if digits = [] then None else map_option of_nat (parse_digits 0 digits))"

definition rsplit_once :: "byte \<Rightarrow> byte list \<Rightarrow> (byte list \<times> byte list) option" where
  "rsplit_once c s =
     (if c \<in> set s
      then Some (rev (tl (dropWhile (\<lambda>b. b \<noteq> c) (rev s))), rev (takeWhile (\<lambda>b. b \<noteq> c) (rev s)))
      else None)"

definition error_with_location :: "byte list \<Rightarrow> u32 \<Rightarrow> byte list \<Rightarrow> status" where
  "error_with_location file line msg =
     Detailed StError msg (file @ [0x3A] @ dec_digits (unat line))"

definition source_location :: "status \<Rightarrow> (byte list \<times> u32) option" where
  "source_location s = (case s of
     OkNoMsg \<Rightarrow> None
   | Detailed _ _ stack \<Rightarrow>
       if stack = [] then None
       else (case rsplit_once 0x3A stack of
               None \<Rightarrow> None
             | Some (file, line) \<Rightarrow>
                 (case parse_u32 line of None \<Rightarrow> None | Some n \<Rightarrow> Some (file, n))))"

fun is_success :: "status \<Rightarrow> bool" where
  "is_success OkNoMsg = True"
| "is_success (Detailed kind _ _) = (kind = StOk \<or> kind = StWarning)"

fun status_message :: "status \<Rightarrow> byte list option" where
  "status_message OkNoMsg = None"
| "status_message (Detailed _ msg _) = Some msg"

fun status_write_into :: "byte_order \<Rightarrow> status \<Rightarrow> byte list" where
  "status_write_into ord OkNoMsg = put_u8 0xFF"
| "status_write_into ord (Detailed kind msg stack) =
     put_u8 (status_kind_code kind) @ encode_string_into msg ord @ encode_string_into stack ord"

definition status_decode :: "byte_order \<Rightarrow> (decode_error, status) decoder" where
  "status_decode ord bs = and_then (get_u8 bs) (\<lambda>(kind_byte, bs).
     if kind_byte = 0xFF then Inr (OkNoMsg, bs) else
     and_then (ok_or (UnknownStatusKind kind_byte) (status_kind_from_byte kind_byte)) (\<lambda>kind.
     and_then (decode_string ord bs) (\<lambda>(message, bs).
     and_then (decode_string ord bs) (\<lambda>(stack, bs).
     Inr (Detailed kind (unwrap_or_empty message) (unwrap_or_empty stack), bs)))))"

text \<open>The representation invariant of a \<^verbatim>\<open>String\<close> that fits the 32-bit length field.\<close>

definition wire_string :: "byte list \<Rightarrow> bool" where
  "wire_string s \<longleftrightarrow> utf8_valid s \<and> length s < 2 ^ 32"

fun wire_status :: "status \<Rightarrow> bool" where
  "wire_status OkNoMsg = True"
| "wire_status (Detailed _ msg stack) = (wire_string msg \<and> wire_string stack)"

section \<open>Command codes (command.rs)\<close>

datatype command =
    Beacon | ConnectionValidation | Echo | Search | SearchResponse | AuthNZ | AclChange
  | CreateChannel | DestroyChannel | ConnectionValidated | Get | Put | PutGet | Monitor
  | Array | DestroyRequest | Process | GetField | Message | MultipleData | Rpc
  | CancelRequest | OriginTag

fun command_code :: "command \<Rightarrow> byte" where
  "command_code Beacon = 0"
| "command_code ConnectionValidation = 1"
| "command_code Echo = 2"
| "command_code Search = 3"
| "command_code SearchResponse = 4"
| "command_code AuthNZ = 5"
| "command_code AclChange = 6"
| "command_code CreateChannel = 7"
| "command_code DestroyChannel = 8"
| "command_code ConnectionValidated = 9"
| "command_code Get = 10"
| "command_code Put = 11"
| "command_code PutGet = 12"
| "command_code Monitor = 13"
| "command_code Array = 14"
| "command_code DestroyRequest = 15"
| "command_code Process = 16"
| "command_code GetField = 17"
| "command_code Message = 18"
| "command_code MultipleData = 19"
| "command_code Rpc = 20"
| "command_code CancelRequest = 21"
| "command_code OriginTag = 22"

definition command_from_code :: "byte \<Rightarrow> command option" where
  "command_from_code c = map_of
      [(0, Beacon), (1, ConnectionValidation), (2, Echo), (3, Search),
       (4, SearchResponse), (5, AuthNZ), (6, AclChange), (7, CreateChannel),
       (8, DestroyChannel), (9, ConnectionValidated), (10, Get), (11, Put),
       (12, PutGet), (13, Monitor), (14, Array), (15, DestroyRequest),
       (16, Process), (17, GetField), (18, Message), (19, MultipleData),
       (20, Rpc), (21, CancelRequest), (22, OriginTag)] c"

datatype control_command = SetMarker | AckMarker | SetByteOrder | EchoRequest | EchoResponse

fun control_code :: "control_command \<Rightarrow> byte" where
  "control_code SetMarker = 0"
| "control_code AckMarker = 1"
| "control_code SetByteOrder = 2"
| "control_code EchoRequest = 3"
| "control_code EchoResponse = 4"

definition control_from_code :: "byte \<Rightarrow> control_command option" where
  "control_from_code c =
     (if c = 0 then Some SetMarker else if c = 1 then Some AckMarker
      else if c = 2 then Some SetByteOrder else if c = 3 then Some EchoRequest
      else if c = 4 then Some EchoResponse else None)"

section \<open>Addresses (ip.rs)\<close>

datatype ip_addr = V4 byte byte byte byte | V6 "byte list"

fun wf_ip :: "ip_addr \<Rightarrow> bool" where
  "wf_ip (V4 _ _ _ _) = True"
| "wf_ip (V6 octets) = (length octets = 16)"

definition is_mapped :: "byte list \<Rightarrow> bool" where
  "is_mapped addr \<longleftrightarrow>
     (\<forall>b \<in> set (take 10 addr). b = 0) \<and> addr ! 10 = 0xFF \<and> addr ! 11 = 0xFF"

fun ip_to_bytes :: "ip_addr \<Rightarrow> byte list" where
  "ip_to_bytes (V4 a b c d) = replicate 10 0 @ [0xFF, 0xFF] @ [a, b, c, d]"
| "ip_to_bytes (V6 octets) = octets"

definition ip_from_bytes :: "byte list \<Rightarrow> ip_addr option" where
  "ip_from_bytes addr =
     (if \<forall>b \<in> set addr. b = 0 then None
      else if is_mapped addr then Some (V4 (addr ! 12) (addr ! 13) (addr ! 14) (addr ! 15))
      else Some (V6 addr))"

definition ip_from_bytes_allow_unspec :: "byte list \<Rightarrow> ip_addr" where
  "ip_from_bytes_allow_unspec addr =
     (if is_mapped addr then V4 (addr ! 12) (addr ! 13) (addr ! 14) (addr ! 15) else V6 addr)"

section \<open>Lemmas: sizes and strings\<close>

lemma ucast_size_byte:
  fixes v :: u32
  assumes "v < 254"
  shows "unat (ucast v :: byte) = unat v"
proof -
  have "unat v < 254" using assms by (simp add: word_less_nat_alt)
  then show ?thesis by (simp add: unsigned_ucast_eq take_bit_nat_eq_self)
qed

lemma size_marker_distinct:
  fixes v :: u32
  assumes "v < 254"
  shows "(ucast v :: byte) \<noteq> NULL_MARKER" "(ucast v :: byte) \<noteq> EXTENDED_MARKER"
    "ucast (ucast v :: byte) = v"
proof -
  have v: "unat v < 254" using assms by (simp add: word_less_nat_alt)
  show "(ucast v :: byte) \<noteq> NULL_MARKER" "(ucast v :: byte) \<noteq> EXTENDED_MARKER"
    using v ucast_size_byte [OF assms] by (auto simp: NULL_MARKER_def EXTENDED_MARKER_def)
  show "ucast (ucast v :: byte) = v"
    by (rule word_unat_eq_iff [THEN iffD2])
      (use v in \<open>simp add: unsigned_ucast_eq unsigned_take_bit_eq take_bit_nat_eq_self\<close>)
qed

lemma marker_neq [simp]: "EXTENDED_MARKER \<noteq> NULL_MARKER"
  by (simp add: NULL_MARKER_def EXTENDED_MARKER_def)

lemma decode_size_encode [wire_simps]:
  "decode_size ord (encode_size_into v ord @ rest) = Inr (Some v, rest)"
  by (simp add: decode_size_def encode_size_into_def size_marker_distinct wire_simps)

lemma decode_size_nonnull_encode [wire_simps]:
  "decode_size_nonnull what ord (encode_size_into v ord @ rest) = Inr (v, rest)"
  by (simp add: decode_size_nonnull_def wire_simps)

interpretation size_stream: stream_decoder "decode_size ord" for ord
  unfolding decode_size_def by (intro stream_intros)

lemmas size_stream_intro [stream_intros] = size_stream.stream_decoder_axioms

interpretation nonnull_size_wire:
  wire_format "\<lambda>v. encode_size_into v ord" "decode_size_nonnull what ord" "\<lambda>_. True" for ord what
proof (intro wire_format.intro codec.intro)
  show "stream_decoder (decode_size_nonnull what ord)"
    unfolding decode_size_nonnull_def by (intro stream_intros)
qed (simp add: wire_simps)

lemmas nonnull_size_stream [stream_intros] = nonnull_size_wire.stream_decoder_axioms

lemma unat_of_nat_u32: "n < 2 ^ 32 \<Longrightarrow> unat (of_nat n :: u32) = n"
  by (simp add: unat_of_nat take_bit_nat_eq_self)

lemma decode_string_bytes_encode [wire_simps]:
  "length s < 2 ^ 32 \<Longrightarrow>
   decode_string_bytes ord (encode_string_bytes_into s ord @ rest) = Inr (Some s, rest)"
  by (simp add: decode_string_bytes_def encode_string_bytes_into_def wire_simps unat_of_nat_u32)

lemma string_bytes_stream [stream_intros]: "stream_decoder (decode_string_bytes ord)"
  unfolding decode_string_bytes_def by (intro stream_intros)

lemma decode_string_encode [wire_simps]:
  "wire_string s \<Longrightarrow> decode_string ord (encode_string_into s ord @ rest) = Inr (Some s, rest)"
  by (simp add: decode_string_def encode_string_into_def wire_string_def wire_simps utf8_lossy_id)

lemma string_stream [stream_intros]: "stream_decoder (decode_string ord)"
  unfolding decode_string_def by (intro stream_intros)

interpretation string_wire:
  wire_format "\<lambda>s. encode_string_into s ord"
    "\<lambda>bs. and_then (decode_string ord bs) (\<lambda>(s, r). Inr (unwrap_or_empty s, r))" wire_string for ord
proof (intro wire_format.intro codec.intro)
  show "stream_decoder (\<lambda>bs. and_then (decode_string ord bs) (\<lambda>(s, r). Inr (unwrap_or_empty s, r)))"
    by (intro stream_intros)
qed (simp add: wire_simps unwrap_or_empty_def)

lemma decode_string_valid:
  "decode_string ord bs = Inr (Some s, r) \<Longrightarrow> utf8_valid s"
  by (auto simp: decode_string_def and_then_eq_Inr utf8_lossy_valid)

lemma length_encode_size [wire_length]:
  "length (encode_size_into v ord) = (if v < 254 then 1 else 5)"
  by (simp add: encode_size_into_def)

section \<open>Lemmas: header, status, codes and addresses\<close>

lemma header_encode_write_into: "header_encode h = header_write_into h"
  by (simp add: header_encode_def header_write_into_def put_defs)

lemma header_stream [stream_intros]: "stream_decoder header_decode"
  unfolding header_decode_def by (intro stream_intros)

interpretation header_wire: wire_format header_write_into header_decode "\<lambda>h. h_version h \<noteq> 0"
proof (intro wire_format.intro codec.intro header_stream)
  show "header_decode (header_write_into h @ rest) = Inr (h, rest)" if "h_version h \<noteq> 0" for h rest
    using that by (simp add: header_decode_def header_write_into_def wire_simps)
qed

lemma length_header [wire_length, simp]: "length (header_write_into h) = 8"
  by (simp add: header_write_into_def)

lemma header_flags_new_bits:
  "is_control (header_flags_new server control ord) = control"
  "is_server (header_flags_new server control ord) = server"
  "flags_byte_order (header_flags_new server control ord) = ord"
  "unsegmented (header_flags_new server control ord)"
  by (cases server; cases control; cases ord;
      simp add: header_flags_new_def is_control_def is_server_def flags_byte_order_def
        from_header_flag_def unsegmented_def FLAG_CONTROL_def FLAG_SERVER_def
        FLAG_BIG_ENDIAN_def FLAG_SEGMENT_MASK_def)+

lemma status_kind_from_byte_code [simp]: "status_kind_from_byte (status_kind_code k) = Some k"
  by (cases k) (simp_all add: status_kind_from_byte_def)

lemma status_kind_code_not_null [simp]: "status_kind_code k \<noteq> 0xFF"
  by (cases k) simp_all

lemma status_stream [stream_intros]: "stream_decoder (status_decode ord)"
  unfolding status_decode_def by (intro stream_intros)

interpretation status_wire: wire_format "status_write_into ord" "status_decode ord" wire_status for ord
proof (intro wire_format.intro codec.intro status_stream)
  show "status_decode ord (status_write_into ord s @ rest) = Inr (s, rest)" if "wire_status s"
    for s rest
    using that by (cases s) (simp_all add: status_decode_def wire_simps put_u8_def unwrap_or_empty_def)
qed

lemma parse_digits_append:
  "parse_digits a (xs @ ys) = (case parse_digits a xs of None \<Rightarrow> None | Some v \<Rightarrow> parse_digits v ys)"
  by (induction xs arbitrary: a) (auto simp: Let_def)

lemma unat_digit: "d < 10 \<Longrightarrow> unat (of_nat (48 + d) :: byte) = 48 + d"
  by (simp add: unat_of_nat take_bit_nat_eq_self del: of_nat_add)

lemma parse_dec_digits: "n < 2 ^ 32 \<Longrightarrow> parse_digits 0 (dec_digits n) = Some n"
proof (induction n rule: dec_digits.induct)
  case (1 n)
  show ?case
  proof (cases "n < 10")
    case True
    then show ?thesis
      using 1 unat_digit [of n] by (subst dec_digits.simps) (simp add: Let_def)
  next
    case False
    then have "parse_digits 0 (dec_digits (n div 10)) = Some (n div 10)"
      using 1 by simp
    moreover have "unat (of_nat (48 + n mod 10) :: byte) = 48 + n mod 10"
      by (rule unat_digit) simp
    moreover have "n div 10 * 10 + n mod 10 = n" by simp
    ultimately show ?thesis
      using False 1 by (subst dec_digits.simps) (simp add: parse_digits_append Let_def)
  qed
qed

lemma dec_digits_chars: "b \<in> set (dec_digits n) \<Longrightarrow> 48 \<le> unat b \<and> unat b \<le> 57"
proof (induction n rule: dec_digits.induct)
  case (1 n)
  then show ?case
    using unat_digit [of n] unat_digit [of "n mod 10"]
    by (subst (asm) (2) dec_digits.simps) (auto split: if_splits)
qed

lemma dec_digits_not_Nil [simp]: "dec_digits n \<noteq> []"
  by (subst dec_digits.simps) simp

lemma parse_u32_dec_digits: "parse_u32 (dec_digits (unat w)) = Some w"
proof -
  have "unat w < 2 ^ 32" using unsigned_less [of w] by simp
  moreover have "hd (dec_digits (unat w)) \<noteq> 0x2B"
    using dec_digits_chars [OF hd_in_set [OF dec_digits_not_Nil], of "unat w"] by auto
  ultimately show ?thesis
    by (simp add: parse_u32_def parse_dec_digits)
qed

lemma rsplit_once_last: "c \<notin> set t \<Longrightarrow> rsplit_once c (s @ c # t) = Some (s, t)"
  by (auto simp: rsplit_once_def takeWhile_append dropWhile_append)

lemma source_location_error_with_location:
  "source_location (error_with_location file line msg) = Some (file, line)"
proof -
  have "(0x3A :: byte) \<notin> set (dec_digits (unat line))"
    using dec_digits_chars [of "0x3A" "unat line"] by auto
  then show ?thesis
    by (simp add: source_location_def error_with_location_def rsplit_once_last parse_u32_dec_digits)
qed

lemma command_from_code_code: "command_from_code (command_code c) = Some c"
  by (cases c) (simp_all add: command_from_code_def)

lemma command_from_code_Some: "command_from_code b = Some c \<longleftrightarrow> b = command_code c"
  by (auto simp: command_from_code_code) (auto simp: command_from_code_def split: if_splits)

lemma control_from_code_Some: "control_from_code b = Some c \<longleftrightarrow> b = control_code c"
  by (cases c) (auto simp: control_from_code_def split: if_splits)

lemma ip_to_bytes_length: "wf_ip ip \<Longrightarrow> length (ip_to_bytes ip) = 16"
  by (cases ip) simp_all

lemma is_mapped_V4: "is_mapped (ip_to_bytes (V4 a b c d))"
  by (simp add: is_mapped_def numeral_eq_Suc)

lemma list16_split:
  assumes "length xs = 16" "is_mapped xs"
  shows "xs = replicate 10 0 @ [0xFF, 0xFF] @ [xs ! 12, xs ! 13, xs ! 14, xs ! 15]"
proof -
  have "take 10 xs = replicate 10 0"
    using assms by (intro replicate_eqI) (auto simp: is_mapped_def)
  moreover have "drop 10 xs = [xs ! 10, xs ! 11, xs ! 12, xs ! 13, xs ! 14, xs ! 15]"
    using assms by (intro nth_equalityI) (auto simp: nth_Cons' less_Suc_eq numeral_eq_Suc)
  ultimately show ?thesis
    using append_take_drop_id [of 10 xs] assms by (simp add: is_mapped_def)
qed

lemma ip_to_bytes_from_bytes:
  "length bs = 16 \<Longrightarrow> ip_to_bytes (ip_from_bytes_allow_unspec bs) = bs"
  using list16_split [of bs] by (simp add: ip_from_bytes_allow_unspec_def)

end
