(* ===== verification/Pva_BitSet.thy ===== *)
theory Pva_BitSet
  imports Pva_Proto
begin

text \<open>
  The packed bit container behind monitor deltas and field selectors
  (\<^verbatim>\<open>epics-pva-rs/src/proto/{bitset,selector}.rs\<close>).  The interface
  \<open>bit_container\<close> says what the operations mean for \<open>get\<close>; the byte-level
  operations are shown to implement it, so the container refines a set of
  natural numbers.  The wire form (trimmed bytes, 8-byte words reversed for
  big-endian peers) is shown to carry exactly that set.
\<close>

section \<open>Definitions (bitset.rs)\<close>

record bit_set =
  bit_bytes :: "byte list"

definition bitset_new :: bit_set where
  "bitset_new = \<lparr> bit_bytes = [] \<rparr>"

definition div_ceil8 :: "nat \<Rightarrow> nat" where
  "div_ceil8 n = (n + 7) div 8"

definition bitset_all_set :: "nat \<Rightarrow> bit_set" where
  "bitset_all_set nbits =
     (let nbytes = div_ceil8 nbits;
          bs = replicate nbytes 0xFF;
          extra = nbytes * 8 - nbits
      in if extra > 0
         then (let last = length bs - 1
               in \<lparr> bit_bytes = bs[last := bs ! last AND drop_bit extra 0xFF] \<rparr>)
         else \<lparr> bit_bytes = bs \<rparr>)"

text \<open>\<^verbatim>\<open>Vec::resize\<close> to a larger length with zeros.\<close>

definition grow :: "nat \<Rightarrow> byte list \<Rightarrow> byte list" where
  "grow need bs = (if length bs < need then bs @ replicate (need - length bs) 0 else bs)"

definition bitset_set :: "bit_set \<Rightarrow> nat \<Rightarrow> bit_set" where
  "bitset_set s i =
     (let bs = grow (i div 8 + 1) (bit_bytes s)
      in s \<lparr> bit_bytes := bs[i div 8 := bs ! (i div 8) OR push_bit (i mod 8) 1] \<rparr>)"

definition bitset_clear :: "bit_set \<Rightarrow> nat \<Rightarrow> bit_set" where
  "bitset_clear s i =
     (let byte_idx = i div 8
      in if byte_idx < length (bit_bytes s)
         then s \<lparr> bit_bytes := (bit_bytes s)[byte_idx := bit_bytes s ! byte_idx AND NOT (push_bit (i mod 8) 1)] \<rparr>
         else s)"

definition bitset_get :: "bit_set \<Rightarrow> nat \<Rightarrow> bool" where
  "bitset_get s i =
     (let byte_idx = i div 8
      in if byte_idx \<ge> length (bit_bytes s) then False
         else bit_bytes s ! byte_idx AND push_bit (i mod 8) 1 \<noteq> 0)"

definition bitset_any_in :: "bit_set \<Rightarrow> nat \<Rightarrow> nat \<Rightarrow> bool" where
  "bitset_any_in s start stop =
     (let end' = min stop (length (bit_bytes s) * 8)
      in if start \<ge> end' then False
         else
           let first = start div 8;
               last = (end' - 1) div 8;
               lo = push_bit (start mod 8) (0xFF :: byte);
               hi = drop_bit (7 - (end' - 1) mod 8) (0xFF :: byte)
           in if first = last then bit_bytes s ! first AND lo AND hi \<noteq> 0
              else bit_bytes s ! first AND lo \<noteq> 0
                 \<or> list_ex (\<lambda>b. b \<noteq> 0) (drop (first + 1) (take last (bit_bytes s)))
                 \<or> bit_bytes s ! last AND hi \<noteq> 0)"

definition bitset_union_with :: "bit_set \<Rightarrow> bit_set \<Rightarrow> bit_set" where
  "bitset_union_with s other =
     (let dst = grow (length (bit_bytes other)) (bit_bytes s);
          n = length (bit_bytes other)
      in s \<lparr> bit_bytes := map2 (OR) (take n dst) (bit_bytes other) @ drop n dst \<rparr>)"

definition bitset_is_empty :: "bit_set \<Rightarrow> bool" where
  "bitset_is_empty s \<longleftrightarrow> list_all (\<lambda>b. b = 0) (bit_bytes s)"

definition byte_bits :: "byte \<Rightarrow> nat list" where
  "byte_bits b = filter (\<lambda>k. b AND push_bit k 1 \<noteq> 0) [0..<8]"

definition bitset_iter :: "bit_set \<Rightarrow> nat list" where
  "bitset_iter s =
     concat (map (\<lambda>(byte_idx, b). map (\<lambda>k. byte_idx * 8 + k) (byte_bits b))
       (enumerate 0 (bit_bytes s)))"

definition bitset_size :: "bit_set \<Rightarrow> nat" where
  "bitset_size s = length (bit_bytes s) * 8"

definition bitset_byte_size :: "bit_set \<Rightarrow> nat" where
  "bitset_byte_size s = length (bit_bytes s)"

function find_set_from :: "bit_set \<Rightarrow> nat \<Rightarrow> nat" where
  "find_set_from s i =
     (if i < bitset_size s
      then (if bitset_get s i then i else find_set_from s (i + 1))
      else bitset_size s)"
  by pat_completeness auto
termination
  by (relation "measure (\<lambda>(s, i). bitset_size s - i)") auto

declare find_set_from.simps [simp del]

definition bitset_find_set :: "bit_set \<Rightarrow> nat \<Rightarrow> nat" where
  "bitset_find_set s start = find_set_from s start"

text \<open>\<^verbatim>\<open>u8::count_ones\<close>.\<close>

definition count_ones :: "byte \<Rightarrow> nat" where
  "count_ones b = length (filter (bit b) [0..<8])"

definition bitset_count :: "bit_set \<Rightarrow> nat" where
  "bitset_count s = sum_list (map count_ones (bit_bytes s))"

primrec trim_len :: "byte list \<Rightarrow> nat \<Rightarrow> nat" where
  "trim_len bs 0 = 0"
| "trim_len bs (Suc n) = (if bs ! n = 0 then trim_len bs n else Suc n)"

definition swap_words :: "nat \<Rightarrow> byte list \<Rightarrow> byte list" where
  "swap_words nbytes bs =
     (let nwords = nbytes div 8;
          extra = nbytes mod 8
      in concat (map (\<lambda>w. rev (take 8 (drop (w * 8) bs))) [0..<nwords]) @
         (if extra > 0 then take extra (drop (nwords * 8) bs) else []))"

definition bitset_write_into :: "byte_order \<Rightarrow> bit_set \<Rightarrow> byte list" where
  "bitset_write_into ord s =
     (let nbytes = trim_len (bit_bytes s) (length (bit_bytes s))
      in encode_size_into (of_nat nbytes) ord @
         (case ord of
            Little \<Rightarrow> take nbytes (bit_bytes s)
          | Big \<Rightarrow> swap_words nbytes (bit_bytes s)))"

definition bitset_decode :: "byte_order \<Rightarrow> (decode_error, bit_set) decoder" where
  "bitset_decode ord bs =
     and_then (decode_size_nonnull ''bitset size'' ord bs) (\<lambda>(n, bs).
     and_then (get_bytes (unat n) bs) (\<lambda>(wire, bs).
     Inr (\<lparr> bit_bytes = (case ord of Little \<Rightarrow> wire | Big \<Rightarrow> swap_words (unat n) wire) \<rparr>, bs)))"

section \<open>Definitions (selector.rs)\<close>

record selector =
  sel_bits :: bit_set

definition selector_new :: selector where
  "selector_new = \<lparr> sel_bits = bitset_new \<rparr>"

definition selector_all :: "nat \<Rightarrow> selector" where
  "selector_all nbits = \<lparr> sel_bits = bitset_all_set nbits \<rparr>"

definition selector_select :: "selector \<Rightarrow> nat \<Rightarrow> selector" where
  "selector_select s i = s \<lparr> sel_bits := bitset_set (sel_bits s) i \<rparr>"

definition selector_deselect :: "selector \<Rightarrow> nat \<Rightarrow> selector" where
  "selector_deselect s i = s \<lparr> sel_bits := bitset_clear (sel_bits s) i \<rparr>"

definition selector_is_selected :: "selector \<Rightarrow> nat \<Rightarrow> bool" where
  "selector_is_selected s i = bitset_get (sel_bits s) i"

definition selector_iter :: "selector \<Rightarrow> nat list" where
  "selector_iter s = bitset_iter (sel_bits s)"

section \<open>Interface: a container of bit positions\<close>

locale bit_container =
  fixes new :: 's
    and set_bit :: "'s \<Rightarrow> nat \<Rightarrow> 's"
    and clear_bit :: "'s \<Rightarrow> nat \<Rightarrow> 's"
    and get_bit :: "'s \<Rightarrow> nat \<Rightarrow> bool"
  assumes get_new: "\<not> get_bit new i"
    and get_set: "get_bit (set_bit s i) j \<longleftrightarrow> j = i \<or> get_bit s j"
    and get_clear: "get_bit (clear_bit s i) j \<longleftrightarrow> j \<noteq> i \<and> get_bit s j"
begin

lemma get_foldl_set: "get_bit (foldl set_bit s is) j \<longleftrightarrow> j \<in> set is \<or> get_bit s j"
  by (induction "is" arbitrary: s) (auto simp: get_set)

lemma get_foldl_clear: "get_bit (foldl clear_bit s is) j \<longleftrightarrow> j \<notin> set is \<and> get_bit s j"
  by (induction "is" arbitrary: s) (auto simp: get_clear)

lemma built_set: "{j. get_bit (foldl set_bit new is) j} = set is"
  by (simp add: get_foldl_set get_new)

end

section \<open>Lemmas: bytes and bits\<close>

lemma and_push_bit_1: "(b :: byte) AND push_bit k 1 \<noteq> 0 \<longleftrightarrow> bit b k"
  by (simp add: push_bit_eq_mult and_exp_eq_0_iff_not_bit)

lemma byte_neq_0: "(b :: byte) \<noteq> 0 \<longleftrightarrow> (\<exists>k < 8. bit b k)"
  by (auto simp: bit_eq_iff [of b 0] dest: bit_imp_le_length)

lemma get_bit_iff:
  "bitset_get s i \<longleftrightarrow> i div 8 < length (bit_bytes s) \<and> bit (bit_bytes s ! (i div 8)) (i mod 8)"
  using and_push_bit_1 by (simp add: bitset_get_def Let_def not_le and_exp_eq_0_iff_not_bit)

lemma length_grow [simp]: "length (grow n bs) = max n (length bs)"
  by (auto simp: grow_def)

lemma nth_grow: "i < length (grow n bs) \<Longrightarrow> grow n bs ! i = (if i < length bs then bs ! i else 0)"
  by (auto simp: grow_def nth_append)

lemma bit_index_eq: "(i :: nat) div 8 = j div 8 \<Longrightarrow> i mod 8 = j mod 8 \<Longrightarrow> i = j"
  by (metis div_mult_mod_eq)

lemma bit_exp_byte: "k < 8 \<Longrightarrow> bit (2 ^ n :: byte) k \<longleftrightarrow> n = k"
  by (auto simp: bit_simps)

lemma get_set_bit: "bitset_get (bitset_set s i) j \<longleftrightarrow> j = i \<or> bitset_get s j"
proof (cases "j div 8 = i div 8")
  case True
  then have "j = i \<longleftrightarrow> j mod 8 = i mod 8"
    using bit_index_eq [of j i] by blast
  with True show ?thesis
    by (auto simp: get_bit_iff bitset_set_def Let_def nth_grow bit_or_iff bit_exp_byte)
next
  case False
  then have "j \<noteq> i" by auto
  with False show ?thesis
    by (auto simp: get_bit_iff bitset_set_def Let_def nth_list_update_neq nth_grow split: if_splits)
qed

lemma get_clear_bit: "bitset_get (bitset_clear s i) j \<longleftrightarrow> j \<noteq> i \<and> bitset_get s j"
proof (cases "j div 8 = i div 8")
  case True
  then have "j = i \<longleftrightarrow> j mod 8 = i mod 8"
    using bit_index_eq [of j i] by blast
  with True show ?thesis
    by (auto simp: get_bit_iff bitset_clear_def Let_def bit_and_iff bit_not_iff bit_exp_byte)
next
  case False
  then have "j \<noteq> i" by auto
  with False show ?thesis
    by (auto simp: get_bit_iff bitset_clear_def Let_def nth_list_update_neq)
qed

interpretation bs: bit_container bitset_new bitset_set bitset_clear bitset_get
proof
  show "\<not> bitset_get bitset_new i" for i
    by (simp add: get_bit_iff bitset_new_def)
qed (simp_all add: get_set_bit get_clear_bit)

interpretation sel: bit_container selector_new selector_select selector_deselect selector_is_selected
  by unfold_locales
    (simp_all add: selector_new_def selector_select_def selector_deselect_def
      selector_is_selected_def bs.get_new bs.get_set bs.get_clear)

lemma get_union_with:
  "bitset_get (bitset_union_with s t) j \<longleftrightarrow> bitset_get s j \<or> bitset_get t j"
proof -
  have len: "length (bit_bytes (bitset_union_with s t)) = max (length (bit_bytes s)) (length (bit_bytes t))"
    by (simp add: bitset_union_with_def Let_def)
  have "bit_bytes (bitset_union_with s t) ! k =
      (if k < length (bit_bytes s) then bit_bytes s ! k else 0) OR
      (if k < length (bit_bytes t) then bit_bytes t ! k else 0)"
    if "k < max (length (bit_bytes s)) (length (bit_bytes t))" for k
    using that by (auto simp: bitset_union_with_def Let_def nth_append nth_grow)
  with len show ?thesis
    by (auto simp: get_bit_iff bit_or_iff split: if_splits)
qed

lemma get_in_range: "bitset_get s i \<Longrightarrow> i < bitset_size s"
  by (auto simp: get_bit_iff bitset_size_def)

lemma finite_bits [simp]: "finite {i. bitset_get s i}"
  by (rule finite_subset [of _ "{..<bitset_size s}"]) (auto simp: get_in_range)

lemma is_empty_iff: "bitset_is_empty s \<longleftrightarrow> (\<forall>i. \<not> bitset_get s i)"
proof
  assume "bitset_is_empty s"
  then show "\<forall>i. \<not> bitset_get s i"
    by (auto simp: bitset_is_empty_def get_bit_iff list_all_length)
next
  assume none: "\<forall>i. \<not> bitset_get s i"
  have "bit_bytes s ! n = 0" if "n < length (bit_bytes s)" for n
  proof (rule ccontr)
    assume "bit_bytes s ! n \<noteq> 0"
    then obtain k where "k < 8" "bit (bit_bytes s ! n) k" by (auto simp: byte_neq_0)
    with none that show False
      by (auto simp: get_bit_iff dest!: spec [of _ "n * 8 + k"])
  qed
  then show "bitset_is_empty s" by (simp add: bitset_is_empty_def list_all_length)
qed

lemma byte_mask_bits:
  "k < 8 \<Longrightarrow> bit (push_bit n (0xFF :: byte)) k \<longleftrightarrow> n \<le> k"
  "bit (drop_bit n (0xFF :: byte)) k \<longleftrightarrow> n + k < 8"
proof -
  have ff: "bit (0xFF :: byte) j \<longleftrightarrow> j < 8" for j
  proof -
    have "bit (mask 8 :: byte) j \<longleftrightarrow> j < 8"
      by (simp only: bit_mask_iff possible_bit_word) auto
    then show ?thesis by (simp add: mask_eq_exp_minus_1)
  qed
  show "k < 8 \<Longrightarrow> bit (push_bit n (0xFF :: byte)) k \<longleftrightarrow> n \<le> k"
    using ff [of "k - n"] by (auto simp: bit_push_bit_iff)
  show "bit (drop_bit n (0xFF :: byte)) k \<longleftrightarrow> n + k < 8"
    using ff [of "n + k"] by (simp add: bit_drop_bit_eq)
qed

section \<open>Lemmas: queries\<close>

lemma byte_bits_eq: "byte_bits b = filter (bit b) [0..<8]"
  using and_push_bit_1 [of b] by (auto simp: byte_bits_def intro!: filter_cong)

lemma bitset_iter_Cons:
  "bitset_iter \<lparr> bit_bytes = bs @ [b] \<rparr> =
   bitset_iter \<lparr> bit_bytes = bs \<rparr> @ map (\<lambda>k. length bs * 8 + k) (byte_bits b)"
  by (simp add: bitset_iter_def enumerate_append_eq)

lemma bitset_iter_set: "set (bitset_iter s) = {i. bitset_get s i}"
proof (rule set_eqI)
  fix i
  have "i \<in> set (bitset_iter s) \<longleftrightarrow>
      (\<exists>n < length (bit_bytes s). \<exists>k < 8. bit (bit_bytes s ! n) k \<and> i = n * 8 + k)"
    by (force simp: bitset_iter_def byte_bits_eq in_set_enumerate_eq)
  also have "\<dots> \<longleftrightarrow> i div 8 < length (bit_bytes s) \<and> bit (bit_bytes s ! (i div 8)) (i mod 8)"
  proof
    assume "i div 8 < length (bit_bytes s) \<and> bit (bit_bytes s ! (i div 8)) (i mod 8)"
    then show "\<exists>n < length (bit_bytes s). \<exists>k < 8. bit (bit_bytes s ! n) k \<and> i = n * 8 + k"
      by (intro exI [of _ "i div 8"] conjI exI [of _ "i mod 8"]) auto
  qed auto
  finally show "i \<in> set (bitset_iter s) \<longleftrightarrow> i \<in> {i. bitset_get s i}"
    by (simp add: get_bit_iff)
qed

lemma iter_bytes_less: "i \<in> set (bitset_iter \<lparr> bit_bytes = bs \<rparr>) \<Longrightarrow> i < length bs * 8"
  using get_in_range by (fastforce simp: bitset_iter_set bitset_size_def)

lemma bitset_iter_ascending: "sorted_wrt (<) (bitset_iter s)"
proof -
  have "sorted_wrt (<) (bitset_iter \<lparr> bit_bytes = bs \<rparr>)" for bs
  proof (induction bs rule: rev_induct)
    case (snoc b bs)
    have "sorted_wrt (<) (byte_bits b)"
      by (simp add: byte_bits_eq sorted_wrt_filter)
    then show ?case
      using snoc iter_bytes_less [of _ bs]
      by (fastforce simp: bitset_iter_Cons sorted_wrt_append sorted_wrt_map)
  qed (simp add: bitset_iter_def)
  from this [of "bit_bytes s"] show ?thesis by (simp add: bitset_iter_def)
qed

lemma bitset_count_iter: "bitset_count s = length (bitset_iter s)"
proof -
  have "bitset_count \<lparr> bit_bytes = bs \<rparr> = length (bitset_iter \<lparr> bit_bytes = bs \<rparr>)" for bs
  proof (induction bs rule: rev_induct)
    case (snoc b bs)
    then show ?case
      by (simp add: bitset_iter_Cons) (simp add: bitset_count_def count_ones_def byte_bits_eq)
  qed (simp add: bitset_iter_def bitset_count_def)
  from this [of "bit_bytes s"] show ?thesis by (simp add: bitset_iter_def bitset_count_def)
qed

lemma bitset_count_card: "bitset_count s = card {i. bitset_get s i}"
  using bitset_iter_ascending [of s]
  by (metis bitset_count_iter bitset_iter_set distinct_card strict_sorted_iff)

lemma find_set_from_spec:
  "bitset_get s (find_set_from s i) \<and> i \<le> find_set_from s i \<and>
     (\<forall>j. i \<le> j \<and> j < find_set_from s i \<longrightarrow> \<not> bitset_get s j)
   \<or> find_set_from s i = bitset_size s \<and> (\<forall>j \<ge> i. \<not> bitset_get s j)"
proof (induction s i rule: find_set_from.induct)
  case (1 s i)
  show ?case
  proof (cases "i < bitset_size s \<and> \<not> bitset_get s i")
    case True
    then have "find_set_from s i = find_set_from s (i + 1)"
      by (subst find_set_from.simps) simp
    with True 1 show ?thesis
      by (metis Suc_eq_plus1 Suc_leD not_less_eq_eq le_antisym)
  next
    case False
    then show ?thesis
      by (subst (1 2 3 4) find_set_from.simps) (use get_in_range in fastforce)
  qed
qed

text \<open>The masked scan of a bit range agrees with testing every position.\<close>

lemma ex_bit_split: "(\<exists>i. P i) \<longleftrightarrow> (\<exists>n k. k < 8 \<and> P (n * 8 + k))" for P :: "nat \<Rightarrow> bool"
proof
  assume "\<exists>i. P i"
  then obtain i where "P i" ..
  then have "P (i div 8 * 8 + i mod 8)" by simp
  then show "\<exists>n k. k < 8 \<and> P (n * 8 + k)" by (metis mod_less_divisor zero_less_numeral)
qed auto

lemma bit_index_le:
  fixes q r n k :: nat
  assumes "r < 8" "k < 8"
  shows "q * 8 + r \<le> n * 8 + k \<longleftrightarrow> q < n \<or> q = n \<and> r \<le> k"
  using assms by (cases q n rule: linorder_cases) auto

lemma le_bit_split:
  fixes a n k :: nat
  assumes "k < 8"
  shows "a \<le> n * 8 + k \<longleftrightarrow> a div 8 < n \<or> a div 8 = n \<and> a mod 8 \<le> k"
    and "n * 8 + k \<le> a \<longleftrightarrow> n < a div 8 \<or> n = a div 8 \<and> k \<le> a mod 8"
  using bit_index_le [of "a mod 8" k "a div 8" n] bit_index_le [of k "a mod 8" n "a div 8"] assms
  by simp_all

lemma byte_masked_neq_0:
  "(b :: byte) AND m \<noteq> 0 \<longleftrightarrow> (\<exists>k < 8. bit b k \<and> bit m k)"
  by (simp add: byte_neq_0 bit_and_iff)

lemma list_ex_slice:
  assumes "l \<le> length xs"
  shows "list_ex P (drop (Suc f) (take l xs)) \<longleftrightarrow> (\<exists>n. f < n \<and> n < l \<and> P (xs ! n))"
proof
  assume "list_ex P (drop (Suc f) (take l xs))"
  then obtain m where "m < l - Suc f" "P (xs ! (Suc f + m))"
    using assms by (auto simp: list_ex_length)
  then show "\<exists>n. f < n \<and> n < l \<and> P (xs ! n)" by (intro exI [of _ "Suc f + m"]) auto
next
  assume "\<exists>n. f < n \<and> n < l \<and> P (xs ! n)"
  then obtain n where "f < n" "n < l" "P (xs ! n)" by blast
  then show "list_ex P (drop (Suc f) (take l xs))"
    using assms by (auto simp: list_ex_length intro!: exI [of _ "n - Suc f"])
qed

lemma range_split:
  fixes f l :: nat
  assumes "f < l"
  shows "(\<exists>n k. K k \<and> ((f < n \<or> f = n \<and> A k) \<and> (n < l \<or> n = l \<and> B k)) \<and> C n k) \<longleftrightarrow>
    (\<exists>k. K k \<and> C f k \<and> A k) \<or> (\<exists>n. f < n \<and> n < l \<and> (\<exists>k. K k \<and> C n k)) \<or> (\<exists>k. K k \<and> C l k \<and> B k)"
    (is "?L \<longleftrightarrow> ?R")
proof
  assume ?L
  then obtain n k where nk: "K k" "C n k" "f < n \<or> f = n \<and> A k" "n < l \<or> n = l \<and> B k" by blast
  then consider "f = n" "A k" | "f < n" "n < l" | "n = l" "B k" by blast
  then show ?R using nk by cases blast+
next
  assume ?R
  then show ?L using assms by (elim disjE exE conjE) blast+
qed
lemma any_in_iff:
  "bitset_any_in s a e \<longleftrightarrow> (\<exists>i. a \<le> i \<and> i < e \<and> bitset_get s i)"
proof -
  define L where "L = length (bit_bytes s)"
  define z where "z = min e (L * 8)"
  have range: "(\<exists>i. a \<le> i \<and> i < e \<and> bitset_get s i) \<longleftrightarrow> (\<exists>i. a \<le> i \<and> i < z \<and> bitset_get s i)"
    using get_in_range [of s] by (auto simp: z_def L_def bitset_size_def)
  show ?thesis
  proof (cases "z \<le> a")
    case True
    then show ?thesis by (subst range) (auto simp: bitset_any_in_def Let_def z_def L_def)
  next
    case False
    define f where "f = a div 8"
    define y where "y = z - 1"
    define l where "l = y div 8"
    define lo where "lo = push_bit (a mod 8) (0xFF :: byte)"
    define hi where "hi = drop_bit (7 - y mod 8) (0xFF :: byte)"
    have lo: "k < 8 \<Longrightarrow> bit lo k \<longleftrightarrow> a mod 8 \<le> k" for k
      by (simp add: lo_def byte_mask_bits)
    have hi: "bit hi k \<longleftrightarrow> k \<le> y mod 8" for k
      using mod_less_divisor [of 8 y] by (auto simp: hi_def byte_mask_bits)
    have l: "l < L" "f \<le> l"
      using False by (auto simp: l_def z_def f_def y_def intro!: div_le_mono)
    have "(\<exists>i. a \<le> i \<and> i < z \<and> bitset_get s i) \<longleftrightarrow>
        (\<exists>n k. k < 8 \<and> a \<le> n * 8 + k \<and> n * 8 + k \<le> y \<and> n < L \<and> bit (bit_bytes s ! n) k)"
    proof -
      have "i < z \<longleftrightarrow> i \<le> y" for i using False by (auto simp: y_def)
      then show ?thesis
        by (subst ex_bit_split) (simp add: get_bit_iff L_def cong: conj_cong)
    qed
    also have "\<dots> \<longleftrightarrow>
        (\<exists>n k. k < 8 \<and> ((f < n \<or> f = n \<and> bit lo k) \<and> (n < l \<or> n = l \<and> bit hi k)) \<and> bit (bit_bytes s ! n) k)"
      by (intro ex_cong1) (use l in \<open>auto simp: le_bit_split f_def [symmetric] l_def [symmetric] lo hi\<close>)
    also have "\<dots> \<longleftrightarrow>
      (if f = l then bit_bytes s ! f AND (lo AND hi) \<noteq> 0
       else bit_bytes s ! f AND lo \<noteq> 0
          \<or> (\<exists>n. f < n \<and> n < l \<and> bit_bytes s ! n \<noteq> 0)
          \<or> bit_bytes s ! l AND hi \<noteq> 0)"
    proof (cases "f = l")
      case False
      then have "f < l" using l by simp
      from range_split [OF this, of "\<lambda>k. k < 8" "bit lo" "bit hi" "\<lambda>n. bit (bit_bytes s ! n)"]
      show ?thesis
        unfolding if_not_P [OF False] byte_neq_0 bit_and_iff .
    qed (auto simp: byte_masked_neq_0 bit_and_iff)
    also have "\<dots> \<longleftrightarrow> bitset_any_in s a e"
    proof -
      have slice: "list_ex (\<lambda>b. b \<noteq> 0) (drop (f + 1) (take l (bit_bytes s))) \<longleftrightarrow>
          (\<exists>n. f < n \<and> n < l \<and> bit_bytes s ! n \<noteq> 0)"
        using l list_ex_slice [of l "bit_bytes s" "\<lambda>b. b \<noteq> 0" f] by (simp add: L_def)
      show ?thesis
        unfolding bitset_any_in_def Let_def L_def [symmetric] z_def [symmetric] y_def [symmetric]
          f_def [symmetric] l_def [symmetric] lo_def [symmetric] hi_def [symmetric]
          if_not_P [OF False] slice and.assoc ..
    qed
    finally show ?thesis using range by blast
  qed
qed

lemma all_set_get: "bitset_get (bitset_all_set n) i \<longleftrightarrow> i < n"
proof -
  define m where "m = div_ceil8 n"
  have bounds: "n \<le> m * 8" "m * 8 < n + 8" by (auto simp: m_def div_ceil8_def)
  have len: "length (bit_bytes (bitset_all_set n)) = m"
    by (simp add: bitset_all_set_def Let_def m_def)
  have byte: "bit (bit_bytes (bitset_all_set n) ! q) r \<longleftrightarrow> q * 8 + r < n" if "q < m" "r < 8" for q r
  proof (cases "q = m - 1")
    case True
    have m8: "m * 8 = q * 8 + 8" using that True by simp
    have ff: "bit (0xFF :: byte) r" using byte_mask_bits(1) [of r 0] that by simp
    have "bit_bytes (bitset_all_set n) ! q = (if n < m * 8 then 0xFF AND drop_bit (m * 8 - n) 0xFF else 0xFF)"
      using that True by (simp add: bitset_all_set_def Let_def m_def [symmetric])
    then show ?thesis
      using m8 bounds that ff byte_mask_bits(2) [of "m * 8 - n" r] by (auto simp: bit_and_iff)
  next
    case False
    with that bounds have "q * 8 + r < n" by auto
    with False that show ?thesis
      using byte_mask_bits(1) [of r 0]
      by (simp add: bitset_all_set_def Let_def m_def [symmetric] nth_list_update_neq)
  qed
  show ?thesis
  proof (cases "i div 8 < m")
    case True
    with byte [OF True, of "i mod 8"] len show ?thesis by (simp add: get_bit_iff)
  next
    case False
    with len bounds show ?thesis by (auto simp: get_bit_iff)
  qed
qed

section \<open>Lemmas: the wire form\<close>

fun swap8 :: "byte list \<Rightarrow> byte list" where
  "swap8 bs = (if length bs < 8 then bs else rev (take 8 bs) @ swap8 (drop 8 bs))"

declare swap8.simps [simp del]

lemma swap_words_step:
  "8 \<le> n \<Longrightarrow> swap_words n bs = rev (take 8 bs) @ swap_words (n - 8) (drop 8 bs)"
proof -
  assume "8 \<le> n"
  then obtain k where n: "n = 8 + k" using le_Suc_ex by blast
  have "[0..<Suc m] = 0 # map Suc [0..<m]" for m
    by (simp add: upt_conv_Cons map_Suc_upt)
  moreover have "(8 + k) div 8 = Suc (k div 8)" "(8 + k) mod 8 = k mod 8" by simp_all
  moreover have "drop (Suc w * 8) bs = drop (w * 8) (drop 8 bs)" for w by (simp add: add.commute)
  ultimately show ?thesis
    unfolding n swap_words_def Let_def by (simp add: comp_def del: upt_Suc drop_drop)
qed

lemma swap_words_swap8: "n \<le> length bs \<Longrightarrow> swap_words n bs = swap8 (take n bs)"
proof (induction n arbitrary: bs rule: less_induct)
  case (less n)
  show ?case
  proof (cases "n < 8")
    case True
    then show ?thesis
      using less.prems by (subst swap8.simps) (auto simp: swap_words_def)
  next
    case False
    then show ?thesis
      using less.prems less.IH [of "n - 8" "drop 8 bs"]
      by (subst swap8.simps) (simp add: swap_words_step take_drop min_absorb1)
  qed
qed

lemma swap8_append: "length xs = 8 \<Longrightarrow> swap8 (xs @ ys) = rev xs @ swap8 ys"
  by (subst swap8.simps) simp

lemma length_swap8 [simp]: "length (swap8 bs) = length bs"
proof (induction bs rule: swap8.induct)
  case (1 bs)
  then show ?case by (subst swap8.simps) auto
qed

lemma swap8_swap8: "swap8 (swap8 bs) = bs"
proof (induction bs rule: swap8.induct)
  case (1 bs)
  show ?case
  proof (cases "length bs < 8")
    case False
    then have "swap8 bs = rev (take 8 bs) @ swap8 (drop 8 bs)" by (subst swap8.simps) simp
    with False 1 show ?thesis by (simp add: swap8_append)
  qed (simp add: swap8.simps)
qed

lemma trim_len_le: "trim_len bs n \<le> n"
  by (induction n) auto

lemma trim_len_zero: "i < n \<Longrightarrow> trim_len bs n \<le> i \<Longrightarrow> bs ! i = 0"
  by (induction n) (auto simp: less_Suc_eq split: if_splits)

lemma trim_len_full: "n \<noteq> 0 \<longrightarrow> bs ! (n - 1) \<noteq> 0 \<Longrightarrow> trim_len bs n = n"
  by (cases n) auto

lemma bitset_decode_write:
  assumes "length (bit_bytes s) < 2 ^ 32"
  shows "bitset_decode ord (bitset_write_into ord s @ rest) =
    Inr (\<lparr> bit_bytes = take (trim_len (bit_bytes s) (length (bit_bytes s))) (bit_bytes s) \<rparr>, rest)"
proof -
  define n where "n = trim_len (bit_bytes s) (length (bit_bytes s))"
  have n: "n \<le> length (bit_bytes s)" by (simp add: n_def trim_len_le)
  then have un: "unat (of_nat n :: u32) = n" using assms by (intro unat_of_nat_u32) simp
  show ?thesis
  proof (cases ord)
    case Little
    with n un get_bytes_append [of "take n (bit_bytes s)" rest] show ?thesis
      by (simp add: bitset_decode_def bitset_write_into_def wire_simps n_def [symmetric])
  next
    case Big
    have "length (swap8 (take n (bit_bytes s))) = n" using n by simp
    with Big n un get_bytes_append [of "swap8 (take n (bit_bytes s))" rest] show ?thesis
      by (simp add: bitset_decode_def bitset_write_into_def wire_simps n_def [symmetric]
          swap_words_swap8 swap8_swap8)
  qed
qed

lemma get_trimmed:
  "bitset_get \<lparr> bit_bytes = take (trim_len (bit_bytes s) (length (bit_bytes s))) (bit_bytes s) \<rparr> i
   \<longleftrightarrow> bitset_get s i"
  using trim_len_zero [of "i div 8" "length (bit_bytes s)" "bit_bytes s"]
    trim_len_le [of "bit_bytes s" "length (bit_bytes s)"]
  by (auto simp: get_bit_iff not_less) (use not_less in fastforce)+

definition bitset_trimmed :: "bit_set \<Rightarrow> bool" where
  "bitset_trimmed s \<longleftrightarrow>
     length (bit_bytes s) < 2 ^ 32 \<and> (bit_bytes s = [] \<or> last (bit_bytes s) \<noteq> 0)"

lemma bitset_stream [stream_intros]: "stream_decoder (bitset_decode ord)"
  unfolding bitset_decode_def by (intro stream_intros)

interpretation bitset_wire: wire_format "bitset_write_into ord" "bitset_decode ord" bitset_trimmed for ord
proof (intro wire_format.intro codec.intro bitset_stream)
  show "bitset_decode ord (bitset_write_into ord s @ rest) = Inr (s, rest)" if "bitset_trimmed s"
    for s rest
  proof -
    have "trim_len (bit_bytes s) (length (bit_bytes s)) = length (bit_bytes s)"
      using that by (intro trim_len_full) (auto simp: bitset_trimmed_def last_conv_nth)
    then show ?thesis using that by (simp add: bitset_trimmed_def bitset_decode_write)
  qed
qed

end
