(* ===== verification/Pva_Field.thy ===== *)
theory Pva_Field
  imports Pva_BitSet
begin

text \<open>
  Scalar type codes, type descriptors and the depth-first bit numbering that
  monitor deltas use (\<^verbatim>\<open>epics-pva-rs/src/pvdata/{scalar,field}.rs\<close>), and
  the leaf expansion and union of changed sets of
  \<^verbatim>\<open>pvdata/monitor_squash.rs\<close>.  A structure caches the number of bits it
  spans; \<open>wf_desc\<close> says every cached count is right, and the lemmas show
  that paths resolve to nested, disjoint and injective bit spans, and that
  the leaf expansion marks exactly the leaves below a marked node.
\<close>

section \<open>Scalar types (scalar.rs)\<close>

datatype scalar_type =
    TBoolean | TByte | TShort | TInt | TLong | TUByte | TUShort | TUInt | TULong
  | TFloat | TDouble | TString

fun type_code :: "scalar_type \<Rightarrow> byte" where
  "type_code TBoolean = 0x00"
| "type_code TByte = 0x20"
| "type_code TShort = 0x21"
| "type_code TInt = 0x22"
| "type_code TLong = 0x23"
| "type_code TUByte = 0x24"
| "type_code TUShort = 0x25"
| "type_code TUInt = 0x26"
| "type_code TULong = 0x27"
| "type_code TFloat = 0x42"
| "type_code TDouble = 0x43"
| "type_code TString = 0x60"

definition from_type_code :: "byte \<Rightarrow> scalar_type option" where
  "from_type_code code = map_of
     [(0x00, TBoolean), (0x20, TByte), (0x21, TShort), (0x22, TInt), (0x23, TLong),
      (0x24, TUByte), (0x25, TUShort), (0x26, TUInt), (0x27, TULong),
      (0x42, TFloat), (0x43, TDouble), (0x60, TString)] code"

definition array_type_code :: "scalar_type \<Rightarrow> byte" where
  "array_type_code st = type_code st OR 0x08"

fun element_size :: "scalar_type \<Rightarrow> nat" where
  "element_size TBoolean = 1"
| "element_size TByte = 1"
| "element_size TUByte = 1"
| "element_size TShort = 2"
| "element_size TUShort = 2"
| "element_size TInt = 4"
| "element_size TUInt = 4"
| "element_size TFloat = 4"
| "element_size TLong = 8"
| "element_size TULong = 8"
| "element_size TDouble = 8"
| "element_size TString = 1"

definition from_array_type_code :: "byte \<Rightarrow> scalar_type option" where
  "from_array_type_code code =
     (if code AND 0x08 \<noteq> 0 then from_type_code (code AND NOT 0x08) else None)"

datatype scalar_value =
    VBoolean bool | VByte byte | VShort u16 | VInt u32 | VLong u64
  | VUByte byte | VUShort u16 | VUInt u32 | VULong u64
  | VFloat u32 | VDouble u64 | VString "byte list"

fun scalar_type_of :: "scalar_value \<Rightarrow> scalar_type" where
  "scalar_type_of (VBoolean _) = TBoolean"
| "scalar_type_of (VByte _) = TByte"
| "scalar_type_of (VShort _) = TShort"
| "scalar_type_of (VInt _) = TInt"
| "scalar_type_of (VLong _) = TLong"
| "scalar_type_of (VUByte _) = TUByte"
| "scalar_type_of (VUShort _) = TUShort"
| "scalar_type_of (VUInt _) = TUInt"
| "scalar_type_of (VULong _) = TULong"
| "scalar_type_of (VFloat _) = TFloat"
| "scalar_type_of (VDouble _) = TDouble"
| "scalar_type_of (VString _) = TString"

section \<open>Type descriptors (field.rs)\<close>

datatype field_desc =
    Scalar scalar_type
  | ScalarArray scalar_type
  | Structure "byte list" struct_fields
  | StructureArray "byte list" struct_fields
  | Union "byte list" "(byte list \<times> field_desc) list"
  | UnionArray "byte list" "(byte list \<times> field_desc) list"
  | Variant
  | VariantArray
and struct_fields = StructFields (sf_fields: "(byte list \<times> field_desc) list") (sf_bits: nat)

type_synonym named_fields = "(byte list \<times> field_desc) list"

fun total_bits :: "field_desc \<Rightarrow> nat" where
  "total_bits (Structure _ sf) = sf_bits sf"
| "total_bits _ = 1"

definition struct_fields_from :: "named_fields \<Rightarrow> struct_fields" where
  "struct_fields_from fs =
     StructFields fs (1 + sum_list (map (\<lambda>(_, c). total_bits c) fs))"

fun value_scalar_type_in :: "named_fields \<Rightarrow> scalar_type option" where
  "value_scalar_type_in [] = None"
| "value_scalar_type_in ((name, desc) # fs) =
     (if name = [0x76, 0x61, 0x6C, 0x75, 0x65]
      then (case desc of Scalar st \<Rightarrow> Some st | _ \<Rightarrow> value_scalar_type_in fs)
      else value_scalar_type_in fs)"

fun value_scalar_type :: "field_desc \<Rightarrow> scalar_type option" where
  "value_scalar_type (Structure _ sf) = value_scalar_type_in (sf_fields sf)"
| "value_scalar_type _ = None"

fun field_count :: "field_desc \<Rightarrow> nat" where
  "field_count (Structure _ sf) = length (sf_fields sf)"
| "field_count (StructureArray _ sf) = length (sf_fields sf)"
| "field_count (Union _ variants) = length variants"
| "field_count (UnionArray _ variants) = length variants"
| "field_count _ = 0"

fun find_bit_for_path :: "field_desc \<Rightarrow> nat \<Rightarrow> byte list list \<Rightarrow> (nat \<times> nat) option"
and find_bit_in_fields :: "named_fields \<Rightarrow> nat \<Rightarrow> byte list \<Rightarrow> byte list list \<Rightarrow> (nat \<times> nat) option" where
  "find_bit_for_path desc base [] = Some (base, base + total_bits desc)"
| "find_bit_for_path (Structure _ sf) base (head # tail) =
     find_bit_in_fields (sf_fields sf) (base + 1) head tail"
| "find_bit_for_path _ base (head # tail) = None"
| "find_bit_in_fields [] offset head tail = None"
| "find_bit_in_fields ((name, child) # fs) offset head tail =
     (if name = head then find_bit_for_path child offset tail
      else find_bit_in_fields fs (offset + total_bits child) head tail)"

text \<open>\<^verbatim>\<open>str::split('.')\<close>: at least one piece, pieces may be empty.\<close>

fun split_dot :: "byte list \<Rightarrow> byte list list" where
  "split_dot [] = [[]]"
| "split_dot (c # cs) =
     (if c = 0x2E then [] # split_dot cs
      else (case split_dot cs of [] \<Rightarrow> [[c]] | p # ps \<Rightarrow> (c # p) # ps))"

definition bit_for_path :: "field_desc \<Rightarrow> byte list \<Rightarrow> nat option" where
  "bit_for_path desc path =
     (if path = [] then Some 0
      else map_option fst (find_bit_for_path desc 0 (split_dot path)))"

definition bit_span_for_path :: "field_desc \<Rightarrow> byte list \<Rightarrow> (nat \<times> nat) option" where
  "bit_span_for_path desc path =
     (if path = [] then Some (0, total_bits desc)
      else find_bit_for_path desc 0 (split_dot path))"

text \<open>
  \<^verbatim>\<open>validate_field_name\<close>: \<open>None\<close> is the assertion failure.  A non-ASCII
  character is rejected, so the test on bytes and the test on characters agree.
\<close>

definition is_alpha_us :: "byte \<Rightarrow> bool" where
  "is_alpha_us c \<longleftrightarrow>
     0x41 \<le> c \<and> c \<le> 0x5A \<or> 0x61 \<le> c \<and> c \<le> 0x7A \<or> c = 0x5F"

definition is_alnum_us :: "byte \<Rightarrow> bool" where
  "is_alnum_us c \<longleftrightarrow> is_alpha_us c \<or> 0x30 \<le> c \<and> c \<le> 0x39"

definition validate_field_name :: "byte list \<Rightarrow> unit option" where
  "validate_field_name name =
     (case name of
        [] \<Rightarrow> Some ()
      | c # cs \<Rightarrow> if is_alpha_us c \<and> list_all is_alnum_us cs then Some () else None)"

datatype type_def_kind = KStructure | KStructureArray | KUnion | KUnionArray

record type_def =
  td_kind :: type_def_kind
  td_struct_id :: "byte list"
  td_members :: named_fields

definition type_def_new :: "type_def_kind \<Rightarrow> byte list \<Rightarrow> type_def" where
  "type_def_new kind struct_id =
     \<lparr> td_kind = kind, td_struct_id = struct_id, td_members = [] \<rparr>"

definition member_new :: "byte list \<Rightarrow> field_desc \<Rightarrow> (byte list \<times> field_desc) option" where
  "member_new name desc = map_option (\<lambda>_. (name, desc)) (validate_field_name name)"

definition type_def_member :: "type_def \<Rightarrow> byte list \<times> field_desc \<Rightarrow> type_def" where
  "type_def_member td m = td \<lparr> td_members := td_members td @ [m] \<rparr>"

definition type_def_build :: "type_def \<Rightarrow> field_desc" where
  "type_def_build td = (case td_kind td of
     KStructure \<Rightarrow> Structure (td_struct_id td) (struct_fields_from (td_members td))
   | KStructureArray \<Rightarrow> StructureArray (td_struct_id td) (struct_fields_from (td_members td))
   | KUnion \<Rightarrow> Union (td_struct_id td) (td_members td)
   | KUnionArray \<Rightarrow> UnionArray (td_struct_id td) (td_members td))"

section \<open>Leaf expansion of changed sets (monitor_squash.rs)\<close>

fun leaf_bits :: "field_desc \<Rightarrow> bit_set \<Rightarrow> nat \<Rightarrow> bool \<Rightarrow> bit_set \<Rightarrow> bit_set"
and leaf_bits_fields :: "named_fields \<Rightarrow> bit_set \<Rightarrow> nat \<Rightarrow> bool \<Rightarrow> bit_set \<Rightarrow> bit_set" where
  "leaf_bits desc src b whole out =
     (let whole' = whole \<or> bitset_get src b
      in case desc of
           Structure _ sf \<Rightarrow>
             (case sf of StructFields fs _ \<Rightarrow> leaf_bits_fields fs src (b + 1) whole' out)
         | _ \<Rightarrow> if whole' then bitset_set out b else out)"
| "leaf_bits_fields [] src child whole out = out"
| "leaf_bits_fields ((_, f) # fs) src child whole out =
     leaf_bits_fields fs src (child + total_bits f) whole (leaf_bits f src child whole out)"

definition union_into :: "bit_set \<Rightarrow> bit_set \<Rightarrow> bit_set" where
  "union_into a b = foldl bitset_set a (bitset_iter b)"

text \<open>The changed and overrun sets of a squashed monitor body.\<close>

definition squash_changed :: "field_desc \<Rightarrow> bit_set \<Rightarrow> bit_set \<Rightarrow> bit_set" where
  "squash_changed intro changed_a changed_b =
     union_into (leaf_bits intro changed_a 0 False bitset_new)
       (leaf_bits intro changed_b 0 False bitset_new)"

definition squash_overrun :: "bit_set \<Rightarrow> bit_set \<Rightarrow> bit_set" where
  "squash_overrun overrun_a overrun_b = union_into overrun_a overrun_b"

section \<open>Well-formedness\<close>

text \<open>Every cached bit count equals one plus the bits of the members.\<close>

fun wf_desc :: "field_desc \<Rightarrow> bool" and wf_fields :: "named_fields \<Rightarrow> bool" where
  "wf_desc (Structure _ (StructFields fs n)) =
     (n = 1 + sum_list (map (\<lambda>(_, c). total_bits c) fs) \<and> wf_fields fs)"
| "wf_desc (StructureArray _ (StructFields fs n)) =
     (n = 1 + sum_list (map (\<lambda>(_, c). total_bits c) fs) \<and> wf_fields fs)"
| "wf_desc (Union _ vs) = wf_fields vs"
| "wf_desc (UnionArray _ vs) = wf_fields vs"
| "wf_desc _ = True"
| "wf_fields [] = True"
| "wf_fields ((_, d) # fs) = (wf_desc d \<and> wf_fields fs)"

text \<open>The node of a descriptor at a path of member indices, with its bit.\<close>

fun descend :: "field_desc \<Rightarrow> nat \<Rightarrow> nat list \<Rightarrow> (field_desc \<times> nat) option"
and descend_fields :: "named_fields \<Rightarrow> nat \<Rightarrow> nat \<Rightarrow> nat list \<Rightarrow> (field_desc \<times> nat) option" where
  "descend desc b [] = Some (desc, b)"
| "descend (Structure _ (StructFields fs _)) b (i # p) = descend_fields fs (b + 1) i p"
| "descend _ b (i # p) = None"
| "descend_fields [] off i p = None"
| "descend_fields ((_, c) # fs) off 0 p = descend c off p"
| "descend_fields ((_, c) # fs) off (Suc i) p = descend_fields fs (off + total_bits c) i p"

fun is_structure :: "field_desc \<Rightarrow> bool" where
  "is_structure (Structure _ _) = True"
| "is_structure _ = False"

section \<open>Lemmas: codes\<close>

lemma from_type_code_type_code [simp]: "from_type_code (type_code st) = Some st"
  by (cases st) (simp_all add: from_type_code_def)

lemma from_type_code_Some: "from_type_code b = Some st \<longleftrightarrow> b = type_code st"
proof
  show "b = type_code st" if "from_type_code b = Some st"
    using that by (auto simp: from_type_code_def split: if_splits)
qed simp

lemma from_array_type_code_array [simp]: "from_array_type_code (array_type_code st) = Some st"
  by (cases st) (simp_all add: from_array_type_code_def array_type_code_def from_type_code_def)

section \<open>Lemmas: bit spans\<close>

lemma total_bits_pos: "wf_desc d \<Longrightarrow> 0 < total_bits d"
  by (cases d rule: wf_desc.cases) auto

lemma wf_struct_fields_from:
  "wf_fields fs \<Longrightarrow> wf_desc (Structure sid (struct_fields_from fs))"
  by (simp add: struct_fields_from_def)

lemma wf_fields_list_all: "wf_fields fs \<longleftrightarrow> (\<forall>(n, d) \<in> set fs. wf_desc d)"
  by (induction fs) auto

lemma type_def_build_wf: "wf_fields (td_members td) \<Longrightarrow> wf_desc (type_def_build td)"
  by (cases "td_kind td") (simp_all add: type_def_build_def struct_fields_from_def)

text \<open>A resolved path spans a non-empty interval inside its root's interval.\<close>

lemma find_bit_span:
  "wf_desc d \<Longrightarrow> find_bit_for_path d base p = Some (s, e) \<Longrightarrow>
     base \<le> s \<and> s < e \<and> e \<le> base + total_bits d \<and> (p \<noteq> [] \<longrightarrow> base < s)"
  "wf_fields fs \<Longrightarrow> find_bit_in_fields fs off h t = Some (s, e) \<Longrightarrow>
     off \<le> s \<and> s < e \<and> e \<le> off + sum_list (map (\<lambda>(_, c). total_bits c) fs)"
proof (induction d base p and fs off h t arbitrary: s e and s e
    rule: find_bit_for_path_find_bit_in_fields.induct)
  case (1 desc base)
  then show ?case using total_bits_pos by auto
next
  case (2 sid sf base h t)
  then show ?case by (cases sf) auto
next
  case (5 n c fs off h t)
  then show ?case using total_bits_pos [of c] by (auto split: if_splits)
qed auto

text \<open>Distinct paths resolve to distinct bits.\<close>

lemma find_bit_inject:
  "wf_desc d \<Longrightarrow> find_bit_for_path d base p = Some (s, e) \<Longrightarrow>
     find_bit_for_path d base q = Some (s, e') \<Longrightarrow> p = q"
  "wf_fields fs \<Longrightarrow> find_bit_in_fields fs off h t = Some (s, e) \<Longrightarrow>
     find_bit_in_fields fs off h' t' = Some (s, e') \<Longrightarrow> h = h' \<and> t = t'"
proof (induction d base p and fs off h t arbitrary: s e q e' and s e h' t' e'
    rule: find_bit_for_path_find_bit_in_fields.induct)
  case (1 desc base)
  then show ?case using find_bit_span(1) [of desc base q s e'] by auto
next
  case (2 sid sf base h t)
  from 2 have "base < s"
    using find_bit_span(1) [of "Structure sid sf" base "h # t" s e] by auto
  with 2 obtain h' t' where q: "q = h' # t'" by (cases q) auto
  with 2 show ?case by (cases sf) auto
next
  case (5 n c fs off h t)
  have disjoint: False
    if "find_bit_for_path c off u = Some (s, x)" "find_bit_in_fields fs (off + total_bits c) v w = Some (s, y)"
    for u v w x y
    using that 5(3) find_bit_span(1) [of c off u s x]
      find_bit_span(2) [of fs "off + total_bits c" v w s y] by simp
  have wf: "wf_desc c" "wf_fields fs" using 5(3) by simp_all
  consider "n = h" "n = h'" | "n = h" "n \<noteq> h'" | "n \<noteq> h" "n = h'" | "n \<noteq> h" "n \<noteq> h'" by blast
  then show ?case
  proof cases
    case 1
    then show ?thesis using 5(1) [OF _ wf(1)] 5(4,5) by simp
  next
    case 2
    then show ?thesis using disjoint [of t e h' t' e'] 5(4,5) by simp
  next
    case 3
    then show ?thesis using disjoint [of t' e' h t e] 5(4,5) by simp
  next
    case 4
    then show ?thesis using 5(2) [OF _ wf(2)] 5(4,5) by simp
  qed
qed auto

section \<open>Lemmas: leaf expansion\<close>

definition leaf_marked :: "field_desc \<Rightarrow> bit_set \<Rightarrow> nat \<Rightarrow> bool \<Rightarrow> nat \<Rightarrow> bool" where
  "leaf_marked d src b whole j \<longleftrightarrow>
     (\<exists>p d'. descend d b p = Some (d', j) \<and> \<not> is_structure d' \<and>
        (whole \<or> (\<exists>q i d''. prefix q p \<and> descend d b q = Some (d'', i) \<and> bitset_get src i)))"

definition leaf_marked_fields :: "named_fields \<Rightarrow> bit_set \<Rightarrow> nat \<Rightarrow> bool \<Rightarrow> nat \<Rightarrow> bool" where
  "leaf_marked_fields fs src off whole j \<longleftrightarrow>
     (\<exists>k p d'. descend_fields fs off k p = Some (d', j) \<and> \<not> is_structure d' \<and>
        (whole \<or> (\<exists>q i d''. prefix q p \<and> descend_fields fs off k q = Some (d'', i) \<and> bitset_get src i)))"

lemma descend_leaf: "\<not> is_structure d \<Longrightarrow> descend d b p = Some (d', j) \<longleftrightarrow> p = [] \<and> d' = d \<and> j = b"
  by (cases p; cases d) auto

lemma leaf_marked_leaf:
  "\<not> is_structure d \<Longrightarrow> leaf_marked d src b whole j \<longleftrightarrow> j = b \<and> (whole \<or> bitset_get src b)"
  by (auto simp: leaf_marked_def descend_leaf)

lemma leaf_marked_structure:
  "leaf_marked (Structure sid (StructFields fs n)) src b whole j \<longleftrightarrow>
   leaf_marked_fields fs src (b + 1) (whole \<or> bitset_get src b) j"
proof
  assume "leaf_marked (Structure sid (StructFields fs n)) src b whole j"
  then obtain p d' where p: "descend (Structure sid (StructFields fs n)) b p = Some (d', j)"
    "\<not> is_structure d'"
    "whole \<or> (\<exists>q i d''. prefix q p \<and> descend (Structure sid (StructFields fs n)) b q = Some (d'', i) \<and> bitset_get src i)"
    unfolding leaf_marked_def by blast
  then obtain k p' where "p = k # p'" by (cases p) auto
  with p show "leaf_marked_fields fs src (b + 1) (whole \<or> bitset_get src b) j"
    unfolding leaf_marked_fields_def
    by (intro exI [of _ k] exI [of _ p'] exI [of _ d']) (auto simp: prefix_Cons)
next
  assume "leaf_marked_fields fs src (b + 1) (whole \<or> bitset_get src b) j"
  then obtain k p d' where p: "descend_fields fs (b + 1) k p = Some (d', j)" "\<not> is_structure d'"
    "whole \<or> bitset_get src b \<or>
      (\<exists>q i d''. prefix q p \<and> descend_fields fs (b + 1) k q = Some (d'', i) \<and> bitset_get src i)"
    unfolding leaf_marked_fields_def by blast
  have "whole \<or> (\<exists>q i d''. prefix q (k # p) \<and>
      descend (Structure sid (StructFields fs n)) b q = Some (d'', i) \<and> bitset_get src i)"
    using p(3)
  proof (elim disjE exE)
    assume "bitset_get src b"
    then show ?thesis by (intro disjI2 exI [of _ "[]"]) simp
  next
    fix q i d''
    assume "prefix q p \<and> descend_fields fs (b + 1) k q = Some (d'', i) \<and> bitset_get src i"
    then show ?thesis by (intro disjI2 exI [of _ "k # q"]) auto
  qed simp
  with p show "leaf_marked (Structure sid (StructFields fs n)) src b whole j"
    unfolding leaf_marked_def by (intro exI [of _ "k # p"] exI [of _ d']) simp
qed

lemma leaf_marked_fields_Nil: "\<not> leaf_marked_fields [] src off whole j"
  by (simp add: leaf_marked_fields_def)

lemma ex_nat_split: "(\<exists>k. P k) \<longleftrightarrow> P 0 \<or> (\<exists>k. P (Suc k))" for P :: "nat \<Rightarrow> bool"
  by (metis not0_implies_Suc)

lemma leaf_marked_fields_Cons:
  "leaf_marked_fields ((x, f) # fs) src off whole j \<longleftrightarrow>
   leaf_marked f src off whole j \<or> leaf_marked_fields fs src (off + total_bits f) whole j"
  unfolding leaf_marked_fields_def leaf_marked_def
  by (subst ex_nat_split) simp

lemma leaf_bits_leaf:
  "\<not> is_structure d \<Longrightarrow>
   leaf_bits d src b whole out = (if whole \<or> bitset_get src b then bitset_set out b else out)"
  by (cases d) simp_all

lemma leaf_bits_structure:
  "leaf_bits (Structure sid (StructFields fs n)) src b whole out =
   leaf_bits_fields fs src (b + 1) (whole \<or> bitset_get src b) out"
  by simp

declare leaf_bits.simps [simp del]

lemma leaf_bits_get:
  "bitset_get (leaf_bits d src b whole out) j \<longleftrightarrow> bitset_get out j \<or> leaf_marked d src b whole j"
  "bitset_get (leaf_bits_fields fs src off whole out) j \<longleftrightarrow>
     bitset_get out j \<or> leaf_marked_fields fs src off whole j"
proof (induction d src b whole out and fs src off whole out
    rule: leaf_bits_leaf_bits_fields.induct)
  case (1 desc src b whole out)
  show ?case
  proof (cases "is_structure desc")
    case True
    then obtain sid fs n where "desc = Structure sid (StructFields fs n)"
      by (cases desc rule: is_structure.cases; metis is_structure.simps struct_fields.exhaust)
    with 1 show ?thesis
      by (simp add: leaf_bits_structure leaf_marked_structure)
  next
    case False
    then show ?thesis by (auto simp: leaf_bits_leaf leaf_marked_leaf bs.get_set)
  qed
qed (auto simp: leaf_marked_fields_Nil leaf_marked_fields_Cons)

lemma union_into_get: "bitset_get (union_into a b) j \<longleftrightarrow> bitset_get a j \<or> bitset_get b j"
  by (auto simp: union_into_def bs.get_foldl_set bitset_iter_set)

lemma squash_changed_get:
  "bitset_get (squash_changed d a b) j \<longleftrightarrow> leaf_marked d a 0 False j \<or> leaf_marked d b 0 False j"
  by (simp add: squash_changed_def union_into_get leaf_bits_get bs.get_new)

end
