(* ===== verification/Pva_TypeDesc.thy ===== *)
theory Pva_TypeDesc
  imports Pva_Field
begin

text \<open>
  Type descriptors on the wire (\<^verbatim>\<open>epics-pva-rs/src/pvdata/encode.rs\<close>): the
  inline encoder, the encoder that replaces repeated compound descriptors by
  references to slots of a per-connection cache (\<^verbatim>\<open>0xFD\<close> defines a slot,
  \<^verbatim>\<open>0xFE\<close> refers to one), and the one decoder that accepts both forms under
  limits on nesting and node count.  The decoder's cache is threaded through
  failures too, because a slot defined before the failure stays defined.
\<close>

section \<open>State threading\<close>

text \<open>\<open>and_then_st\<close> is the \<^verbatim>\<open>?\<close> operator where the callee also mutates a state.\<close>

fun and_then_st ::
  "('e + 'a) \<times> 's \<Rightarrow> ('a \<Rightarrow> 's \<Rightarrow> ('e + 'b) \<times> 's) \<Rightarrow> ('e + 'b) \<times> 's" where
  "and_then_st (Inl e, s) f = (Inl e, s)"
| "and_then_st (Inr x, s) f = f x s"

lemma and_then_st_cong [fundef_cong]:
  "r = r' \<Longrightarrow> (\<And>x s. r' = (Inr x, s) \<Longrightarrow> f x s = g x s) \<Longrightarrow> and_then_st r f = and_then_st r' g"
  by (cases r' rule: prod.exhaust; cases "fst r'") auto

section \<open>Tags\<close>

definition TAG_STRUCTURE :: byte where "TAG_STRUCTURE = 0x80"
definition TAG_UNION :: byte where "TAG_UNION = 0x81"
definition TAG_VARIANT :: byte where "TAG_VARIANT = 0x82"
definition TAG_BOUNDED_STRING :: byte where "TAG_BOUNDED_STRING = 0x83"
definition TAG_STRUCTURE_ARRAY :: byte where "TAG_STRUCTURE_ARRAY = 0x88"
definition TAG_UNION_ARRAY :: byte where "TAG_UNION_ARRAY = 0x89"
definition TAG_VARIANT_ARRAY :: byte where "TAG_VARIANT_ARRAY = 0x8A"
definition TAG_NULL :: byte where "TAG_NULL = 0xFF"

lemmas tag_defs =
  TAG_STRUCTURE_def TAG_UNION_def TAG_VARIANT_def TAG_BOUNDED_STRING_def
  TAG_STRUCTURE_ARRAY_def TAG_UNION_ARRAY_def TAG_VARIANT_ARRAY_def TAG_NULL_def

section \<open>Inline encoder\<close>

fun encode_type_desc :: "byte_order \<Rightarrow> field_desc \<Rightarrow> byte list"
and encode_structure_fields :: "byte_order \<Rightarrow> named_fields \<Rightarrow> byte list" where
  "encode_type_desc ord (Scalar st) = put_u8 (type_code st)"
| "encode_type_desc ord (ScalarArray st) = put_u8 (array_type_code st)"
| "encode_type_desc ord (Structure sid (StructFields fs _)) =
     put_u8 TAG_STRUCTURE @ encode_string_into sid ord @
     encode_size_into (of_nat (length fs)) ord @ encode_structure_fields ord fs"
| "encode_type_desc ord (StructureArray sid (StructFields fs _)) =
     put_u8 TAG_STRUCTURE_ARRAY @ put_u8 TAG_STRUCTURE @ encode_string_into sid ord @
     encode_size_into (of_nat (length fs)) ord @ encode_structure_fields ord fs"
| "encode_type_desc ord (Union sid vs) =
     put_u8 TAG_UNION @ encode_string_into sid ord @
     encode_size_into (of_nat (length vs)) ord @ encode_structure_fields ord vs"
| "encode_type_desc ord (UnionArray sid vs) =
     put_u8 TAG_UNION_ARRAY @ put_u8 TAG_UNION @ encode_string_into sid ord @
     encode_size_into (of_nat (length vs)) ord @ encode_structure_fields ord vs"
| "encode_type_desc ord Variant = put_u8 TAG_VARIANT"
| "encode_type_desc ord VariantArray = put_u8 TAG_VARIANT_ARRAY"
| "encode_structure_fields ord [] = []"
| "encode_structure_fields ord ((name, child) # fs) =
     encode_string_into name ord @ encode_type_desc ord child @ encode_structure_fields ord fs"

definition encode_field_desc :: "byte_order \<Rightarrow> byte list \<Rightarrow> field_desc \<Rightarrow> byte list" where
  "encode_field_desc ord name desc = encode_string_into name ord @ encode_type_desc ord desc"

section \<open>Cached encoder\<close>

record encode_type_cache =
  ec_next :: u16
  ec_map :: "field_desc \<rightharpoonup> u16"

definition encode_type_cache_new :: encode_type_cache where
  "encode_type_cache_new = \<lparr> ec_next = 0, ec_map = Map.empty \<rparr>"

fun cacheable :: "field_desc \<Rightarrow> bool" where
  "cacheable (Structure _ _) = True"
| "cacheable (StructureArray _ _) = True"
| "cacheable (Union _ _) = True"
| "cacheable (UnionArray _ _) = True"
| "cacheable _ = False"

text \<open>\<open>None\<close> is the panic on slot exhaustion.\<close>

function (sequential)
  encode_type_desc_cached ::
    "byte_order \<Rightarrow> field_desc \<Rightarrow> encode_type_cache \<Rightarrow> (byte list \<times> encode_type_cache) option"
and encode_type_desc_inline_cached ::
    "byte_order \<Rightarrow> field_desc \<Rightarrow> encode_type_cache \<Rightarrow> (byte list \<times> encode_type_cache) option"
and encode_structure_body_cached ::
    "byte_order \<Rightarrow> byte list \<Rightarrow> named_fields \<Rightarrow> encode_type_cache \<Rightarrow>
       (byte list \<times> encode_type_cache) option"
and encode_fields_cached ::
    "byte_order \<Rightarrow> named_fields \<Rightarrow> encode_type_cache \<Rightarrow> (byte list \<times> encode_type_cache) option"
where
  "encode_type_desc_cached ord desc cache =
     (if cacheable desc then
        (case ec_map cache desc of
           Some slot \<Rightarrow> Some (put_u8 0xFE @ put_u16 slot ord, cache)
         | None \<Rightarrow>
             let slot = ec_next cache in
             if slot = 0xFFFF then None
             else (case encode_type_desc_inline_cached ord desc
                     (cache \<lparr> ec_next := slot + 1, ec_map := (ec_map cache)(desc \<mapsto> slot) \<rparr>) of
                     None \<Rightarrow> None
                   | Some (out, cache') \<Rightarrow> Some (put_u8 0xFD @ put_u16 slot ord @ out, cache')))
      else encode_type_desc_inline_cached ord desc cache)"
| "encode_type_desc_inline_cached ord (Scalar st) cache = Some (put_u8 (type_code st), cache)"
| "encode_type_desc_inline_cached ord (ScalarArray st) cache =
     Some (put_u8 (array_type_code st), cache)"
| "encode_type_desc_inline_cached ord (Structure sid (StructFields fs _)) cache =
     (case encode_structure_body_cached ord sid fs cache of
        None \<Rightarrow> None | Some (out, cache') \<Rightarrow> Some (put_u8 TAG_STRUCTURE @ out, cache'))"
| "encode_type_desc_inline_cached ord (StructureArray sid (StructFields fs _)) cache =
     (case encode_structure_body_cached ord sid fs cache of
        None \<Rightarrow> None
      | Some (out, cache') \<Rightarrow> Some (put_u8 TAG_STRUCTURE_ARRAY @ put_u8 TAG_STRUCTURE @ out, cache'))"
| "encode_type_desc_inline_cached ord (Union sid vs) cache =
     (case encode_structure_body_cached ord sid vs cache of
        None \<Rightarrow> None | Some (out, cache') \<Rightarrow> Some (put_u8 TAG_UNION @ out, cache'))"
| "encode_type_desc_inline_cached ord (UnionArray sid vs) cache =
     (case encode_structure_body_cached ord sid vs cache of
        None \<Rightarrow> None
      | Some (out, cache') \<Rightarrow> Some (put_u8 TAG_UNION_ARRAY @ put_u8 TAG_UNION @ out, cache'))"
| "encode_type_desc_inline_cached ord Variant cache = Some (put_u8 TAG_VARIANT, cache)"
| "encode_type_desc_inline_cached ord VariantArray cache = Some (put_u8 TAG_VARIANT_ARRAY, cache)"
| "encode_structure_body_cached ord sid fs cache =
     (case encode_fields_cached ord fs cache of
        None \<Rightarrow> None
      | Some (out, cache') \<Rightarrow>
          Some (encode_string_into sid ord @ encode_size_into (of_nat (length fs)) ord @ out, cache'))"
| "encode_fields_cached ord [] cache = Some ([], cache)"
| "encode_fields_cached ord ((name, child) # fs) cache =
     (case encode_type_desc_cached ord child cache of
        None \<Rightarrow> None
      | Some (out, cache') \<Rightarrow>
          (case encode_fields_cached ord fs cache' of
             None \<Rightarrow> None
           | Some (out', cache'') \<Rightarrow>
               Some (encode_string_into name ord @ out @ out', cache'')))"
  by pat_completeness auto
termination
  by (relation "measure (\<lambda>x. case x of
      Inl (Inl (_, d, _)) \<Rightarrow> 3 * size d + 1
    | Inl (Inr (_, d, _)) \<Rightarrow> 3 * size d
    | Inr (Inl (_, _, fs, _)) \<Rightarrow> 3 * size_list (size_prod (\<lambda>x. 0) size) fs + 2
    | Inr (Inr (_, fs, _)) \<Rightarrow> 3 * size_list (size_prod (\<lambda>x. 0) size) fs + 1)") auto

definition encode_field_desc_cached ::
  "byte_order \<Rightarrow> byte list \<Rightarrow> field_desc \<Rightarrow> encode_type_cache \<Rightarrow>
     (byte list \<times> encode_type_cache) option" where
  "encode_field_desc_cached ord name desc cache =
     map_option (\<lambda>(out, cache'). (encode_string_into name ord @ out, cache'))
       (encode_type_desc_cached ord desc cache)"

section \<open>Metrics\<close>

text \<open>\<^verbatim>\<open>u32::saturating_add\<close>.\<close>

definition sat32_add :: "nat \<Rightarrow> nat \<Rightarrow> nat" where
  "sat32_add a b = min (2 ^ 32 - 1) (a + b)"

record tree_metrics =
  tm_height :: nat
  tm_nodes :: nat

definition LEAF :: tree_metrics where
  "LEAF = \<lparr> tm_height = 0, tm_nodes = 1 \<rparr>"

definition MAX_FIELD_DEPTH :: nat where "MAX_FIELD_DEPTH = 20"
definition MAX_FIELD_NODES :: nat where "MAX_FIELD_NODES = 65535"

text \<open>The reference count of nodes and edges, by recursion on the descriptor.\<close>

fun desc_nodes :: "field_desc \<Rightarrow> nat" and fields_nodes :: "named_fields \<Rightarrow> nat" where
  "desc_nodes (Structure _ (StructFields fs _)) = 1 + fields_nodes fs"
| "desc_nodes (StructureArray _ (StructFields fs _)) = 1 + fields_nodes fs"
| "desc_nodes (Union _ vs) = 1 + fields_nodes vs"
| "desc_nodes (UnionArray _ vs) = 1 + fields_nodes vs"
| "desc_nodes _ = 1"
| "fields_nodes [] = 0"
| "fields_nodes ((_, d) # fs) = desc_nodes d + fields_nodes fs"

fun desc_height :: "field_desc \<Rightarrow> nat" and fields_height :: "named_fields \<Rightarrow> nat" where
  "desc_height (Structure _ (StructFields fs _)) = fields_height fs"
| "desc_height (StructureArray _ (StructFields fs _)) = fields_height fs"
| "desc_height (Union _ vs) = fields_height vs"
| "desc_height (UnionArray _ vs) = fields_height vs"
| "desc_height _ = 0"
| "fields_height [] = 0"
| "fields_height ((_, d) # fs) = max (desc_height d + 1) (fields_height fs)"

text \<open>
  The source's loop over an explicit stack; the head of the list is the top
  of the \<^verbatim>\<open>Vec\<close>, so pushing the members in order reverses them.  A level is
  a \<^verbatim>\<open>u32\<close> and its increment is not saturating.
\<close>

definition next_level :: "nat \<Rightarrow> nat" where
  "next_level lvl = (lvl + 1) mod 2 ^ 32"

definition push_children :: "field_desc \<Rightarrow> nat \<Rightarrow> (field_desc \<times> nat) list" where
  "push_children d lvl =
     (case d of
        Structure _ sf \<Rightarrow> rev (map (\<lambda>(_, c). (c, next_level lvl)) (sf_fields sf))
      | StructureArray _ sf \<Rightarrow> rev (map (\<lambda>(_, c). (c, next_level lvl)) (sf_fields sf))
      | Union _ vs \<Rightarrow> rev (map (\<lambda>(_, c). (c, next_level lvl)) vs)
      | UnionArray _ vs \<Rightarrow> rev (map (\<lambda>(_, c). (c, next_level lvl)) vs)
      | _ \<Rightarrow> [])"

fun desc_children :: "field_desc \<Rightarrow> named_fields" where
  "desc_children (Structure _ (StructFields fs _)) = fs"
| "desc_children (StructureArray _ (StructFields fs _)) = fs"
| "desc_children (Union _ vs) = vs"
| "desc_children (UnionArray _ vs) = vs"
| "desc_children _ = []"

lemma push_children_eq: "push_children d lvl = rev (map (\<lambda>c. (snd c, next_level lvl)) (desc_children d))"
  by (cases d rule: desc_children.cases) (auto simp: push_children_def case_prod_beta)

lemma fields_nodes_sum: "fields_nodes fs = sum_list (map (\<lambda>c. desc_nodes (snd c)) fs)"
  by (induction fs) auto

lemma desc_nodes_children: "desc_nodes d = Suc (fields_nodes (desc_children d))"
  by (cases d rule: desc_children.cases) auto

lemma push_children_nodes:
  "sum_list (map (\<lambda>(c, _). desc_nodes c) (push_children d lvl)) < desc_nodes d"
proof -
  have "sum_list (map (\<lambda>(c, _). desc_nodes c) (push_children d lvl)) =
      sum_list (rev (map (\<lambda>c. desc_nodes (snd c)) (desc_children d)))"
    unfolding push_children_eq rev_map by (simp add: comp_def)
  then show ?thesis
    by (simp only: sum_list_rev fields_nodes_sum [symmetric] desc_nodes_children [of d] lessI)
qed

function measure_loop :: "(field_desc \<times> nat) list \<Rightarrow> nat \<Rightarrow> nat \<Rightarrow> tree_metrics" where
  "measure_loop [] nodes height = \<lparr> tm_height = height, tm_nodes = nodes \<rparr>"
| "measure_loop ((d, lvl) # stack) nodes height =
     measure_loop (push_children d lvl @ stack) (sat32_add nodes 1) (max height lvl)"
  by pat_completeness auto
termination
  by (relation "measure (\<lambda>(stack, _). sum_list (map (\<lambda>(c, _). desc_nodes c) stack))")
    (simp_all add: push_children_nodes)

definition measure_desc :: "field_desc \<Rightarrow> tree_metrics" where
  "measure_desc desc = measure_loop [(desc, 0)] 0 0"

definition check_field_metrics :: "tree_metrics \<Rightarrow> decode_error + unit" where
  "check_field_metrics m =
     (if tm_nodes m > MAX_FIELD_NODES then Inl TooManyNodes
      else if tm_height m > MAX_FIELD_DEPTH then Inl NestingAfterExpansion
      else Inr ())"

section \<open>Decoder\<close>

record cached_type =
  ct_desc :: field_desc
  ct_height :: nat
  ct_nodes :: nat

type_synonym type_cache = "u16 \<rightharpoonup> cached_type"

definition new_with_metrics :: "field_desc \<Rightarrow> tree_metrics \<Rightarrow> cached_type" where
  "new_with_metrics desc m =
     \<lparr> ct_desc = desc, ct_height = tm_height m, ct_nodes = tm_nodes m \<rparr>"

definition cached_type_new :: "field_desc \<Rightarrow> cached_type" where
  "cached_type_new desc = new_with_metrics desc (measure_desc desc)"

text \<open>\<^verbatim>\<open>HashMap::entry(k).or_insert_with\<close>: the first definition of a slot wins.\<close>

definition or_insert :: "type_cache \<Rightarrow> u16 \<Rightarrow> cached_type \<Rightarrow> type_cache" where
  "or_insert cache key slot = (case cache key of None \<Rightarrow> cache(key \<mapsto> slot) | Some _ \<Rightarrow> cache)"

datatype bounded_string_policy = Interop | StrictPvxs

definition fold_child :: "tree_metrics \<Rightarrow> tree_metrics \<Rightarrow> tree_metrics" where
  "fold_child m child =
     \<lparr> tm_height = max (tm_height m) (sat32_add (tm_height child) 1),
       tm_nodes = sat32_add (tm_nodes m) (tm_nodes child) \<rparr>"

text \<open>
  The mutually recursive decoder.  \<open>decode_fields_at\<close> is the loop
  \<^verbatim>\<open>for _ in 0..n\<close> of the structure and union bodies, with the metrics and
  the members accumulated so far.
\<close>

function
  decode_type_at ::
    "byte_order \<Rightarrow> bounded_string_policy \<Rightarrow> nat \<Rightarrow> type_cache \<Rightarrow> byte list \<Rightarrow>
       (decode_error + field_desc \<times> tree_metrics \<times> byte list) \<times> type_cache"
and decode_structure_body_at ::
    "byte_order \<Rightarrow> bounded_string_policy \<Rightarrow> nat \<Rightarrow> type_cache \<Rightarrow> byte list \<Rightarrow>
       (decode_error + field_desc \<times> tree_metrics \<times> byte list) \<times> type_cache"
and decode_union_body_at ::
    "byte_order \<Rightarrow> bounded_string_policy \<Rightarrow> nat \<Rightarrow> type_cache \<Rightarrow> byte list \<Rightarrow>
       (decode_error + field_desc \<times> tree_metrics \<times> byte list) \<times> type_cache"
and decode_fields_at ::
    "byte_order \<Rightarrow> bounded_string_policy \<Rightarrow> nat \<Rightarrow> nat \<Rightarrow> tree_metrics \<Rightarrow> named_fields \<Rightarrow>
       type_cache \<Rightarrow> byte list \<Rightarrow>
       (decode_error + named_fields \<times> tree_metrics \<times> byte list) \<times> type_cache"
where
  "decode_type_at ord policy depth cache bs =
     (if depth > MAX_FIELD_DEPTH then (Inl NestingTooDeep, cache) else
      and_then_st (get_u8 bs, cache) (\<lambda>(tag, bs) cache.
      if tag = 0xFD then
        and_then_st (get_u16 ord bs, cache) (\<lambda>(key, bs) cache.
        and_then_st (decode_type_at ord policy (depth + 1) cache bs) (\<lambda>(desc, m, bs) cache.
        (Inr (desc, m, bs), or_insert cache key (new_with_metrics desc m))))
      else if tag = 0xFE then
        and_then_st (get_u16 ord bs, cache) (\<lambda>(key, bs) cache.
        (case cache key of
           None \<Rightarrow> (Inl (TypecacheMiss key), cache)
         | Some slot \<Rightarrow>
             (Inr (ct_desc slot, \<lparr> tm_height = ct_height slot, tm_nodes = ct_nodes slot \<rparr>, bs),
              cache)))
      else if tag = TAG_STRUCTURE then decode_structure_body_at ord policy (depth + 1) cache bs
      else if tag = TAG_UNION then decode_union_body_at ord policy (depth + 1) cache bs
      else if tag = TAG_STRUCTURE_ARRAY then
        and_then_st (decode_type_at ord policy (depth + 1) cache bs) (\<lambda>(elem, m, bs) cache.
        (case elem of
           Structure sid sf \<Rightarrow> (Inr (StructureArray sid sf, m, bs), cache)
         | _ \<Rightarrow> (Inl ElementNotStructure, cache)))
      else if tag = TAG_UNION_ARRAY then
        and_then_st (decode_type_at ord policy (depth + 1) cache bs) (\<lambda>(elem, m, bs) cache.
        (case elem of
           Union sid vs \<Rightarrow> (Inr (UnionArray sid vs, m, bs), cache)
         | _ \<Rightarrow> (Inl ElementNotUnion, cache)))
      else if tag = TAG_VARIANT then (Inr (Variant, LEAF, bs), cache)
      else if tag = TAG_VARIANT_ARRAY then (Inr (VariantArray, LEAF, bs), cache)
      else if tag = TAG_BOUNDED_STRING then
        (case policy of
           Interop \<Rightarrow>
             and_then_st (decode_size_nonnull ''bounded string size'' ord bs, cache) (\<lambda>(n, bs) cache.
             (Inr (Scalar TString, LEAF, bs), cache))
         | StrictPvxs \<Rightarrow> (Inl BoundedStringRefused, cache))
      else if tag AND 0x08 \<noteq> 0 then
        (case from_array_type_code tag of
           None \<Rightarrow> (Inl (UnknownArrayTag tag), cache)
         | Some st \<Rightarrow> (Inr (ScalarArray st, LEAF, bs), cache))
      else
        (case from_type_code tag of
           None \<Rightarrow> (Inl (UnknownTypeTag tag), cache)
         | Some st \<Rightarrow> (Inr (Scalar st, LEAF, bs), cache))))"
| "decode_structure_body_at ord policy depth cache bs =
     and_then_st (decode_string ord bs, cache) (\<lambda>(sid, bs) cache.
     and_then_st (decode_size_nonnull ''structure field count'' ord bs, cache) (\<lambda>(n, bs) cache.
     and_then_st (decode_fields_at ord policy depth (unat n) \<lparr> tm_height = 0, tm_nodes = 1 \<rparr> [] cache bs)
       (\<lambda>(fs, m, bs) cache.
     (Inr (Structure (unwrap_or_empty sid) (struct_fields_from fs), m, bs), cache))))"
| "decode_union_body_at ord policy depth cache bs =
     and_then_st (decode_string ord bs, cache) (\<lambda>(sid, bs) cache.
     and_then_st (decode_size_nonnull ''union variant count'' ord bs, cache) (\<lambda>(n, bs) cache.
     and_then_st (decode_fields_at ord policy depth (unat n) \<lparr> tm_height = 0, tm_nodes = 1 \<rparr> [] cache bs)
       (\<lambda>(vs, m, bs) cache.
     (Inr (Union (unwrap_or_empty sid) vs, m, bs), cache))))"
| "decode_fields_at ord policy depth n metrics acc cache bs =
     (if n = 0 then (Inr (acc, metrics, bs), cache) else
      and_then_st (decode_string ord bs, cache) (\<lambda>(name, bs) cache.
      and_then_st (decode_type_at ord policy depth cache bs) (\<lambda>(desc, child, bs) cache.
      and_then_st (check_field_metrics (fold_child metrics child), cache) (\<lambda>_ cache.
      decode_fields_at ord policy depth (n - 1) (fold_child metrics child)
        (acc @ [(unwrap_or_empty name, desc)]) cache bs))))"
  by pat_completeness auto
termination
  by (relation "inv_image (less_than <*lex*> less_than <*lex*> less_than) (\<lambda>x. case x of
      Inl (Inl (_, _, d, _, _)) \<Rightarrow> (22 - d, 0, 0)
    | Inl (Inr (_, _, d, _, _)) \<Rightarrow> (22 - d, 2, 0)
    | Inr (Inl (_, _, d, _, _)) \<Rightarrow> (22 - d, 2, 0)
    | Inr (Inr (_, _, d, n, _, _, _, _)) \<Rightarrow> (22 - d, 1, n))")
    (auto simp: MAX_FIELD_DEPTH_def)

declare decode_type_at.simps [simp del] decode_structure_body_at.simps [simp del]
  decode_union_body_at.simps [simp del] decode_fields_at.simps [simp del]

section \<open>Entry points\<close>

definition decode_type_desc_cached_with_policy ::
  "bounded_string_policy \<Rightarrow> byte_order \<Rightarrow> type_cache \<Rightarrow> byte list \<Rightarrow>
     (decode_error + field_desc \<times> byte list) \<times> type_cache" where
  "decode_type_desc_cached_with_policy policy ord cache bs =
     and_then_st (decode_type_at ord policy 0 cache bs) (\<lambda>(d, m, bs) cache. (Inr (d, bs), cache))"

definition decode_type_desc_cached ::
  "byte_order \<Rightarrow> type_cache \<Rightarrow> byte list \<Rightarrow>
     (decode_error + field_desc \<times> byte list) \<times> type_cache" where
  "decode_type_desc_cached ord cache bs =
     and_then_st (decode_type_at ord Interop 0 cache bs) (\<lambda>(d, m, bs) cache. (Inr (d, bs), cache))"

definition decode_type_desc :: "byte_order \<Rightarrow> (decode_error, field_desc) decoder" where
  "decode_type_desc ord bs = fst (decode_type_desc_cached ord Map.empty bs)"

definition decode_type_desc_cached_opt ::
  "byte_order \<Rightarrow> type_cache \<Rightarrow> byte list \<Rightarrow>
     (decode_error + field_desc option \<times> byte list) \<times> type_cache" where
  "decode_type_desc_cached_opt ord cache bs =
     and_then_st (get_u8 bs, cache) (\<lambda>(tag, bs') cache.
     if tag = TAG_NULL then (Inr (None, bs'), cache)
     else and_then_st (decode_type_desc_cached ord cache bs) (\<lambda>(d, bs) cache.
       (Inr (Some d, bs), cache)))"

definition decode_field_desc_cached ::
  "byte_order \<Rightarrow> type_cache \<Rightarrow> byte list \<Rightarrow>
     (decode_error + (byte list \<times> field_desc) \<times> byte list) \<times> type_cache" where
  "decode_field_desc_cached ord cache bs =
     and_then_st (decode_string ord bs, cache) (\<lambda>(name, bs) cache.
     and_then_st (decode_type_desc_cached ord cache bs) (\<lambda>(d, bs) cache.
     (Inr ((unwrap_or_empty name, d), bs), cache)))"

definition decode_field_desc :: "byte_order \<Rightarrow> (decode_error, byte list \<times> field_desc) decoder" where
  "decode_field_desc ord bs = fst (decode_field_desc_cached ord Map.empty bs)"

end
