(* ===== verification/Pva_TypeDesc_Correct.thy ===== *)
theory Pva_TypeDesc_Correct
  imports Pva_TypeDesc
begin

text \<open>
  Correctness of the descriptor codec: the stack loop that measures a
  descriptor agrees with the recursive counts, every descriptor the decoder
  returns is within the nesting and node limits whatever the input and
  whatever (well-formed) cache, the inline encoding reads back, and the
  cached encoding reads back with the two ends' caches kept in step.
\<close>

section \<open>The measuring loop\<close>

lemma fields_height_le: "fields_height fs \<le> k \<longleftrightarrow> (\<forall>c \<in> set fs. desc_height (snd c) + 1 \<le> k)"
  by (induction fs) auto

lemma desc_height_children: "desc_height d = fields_height (desc_children d)"
  by (cases d rule: desc_children.cases) auto

lemma measure_loop_nodes:
  "n \<le> 2 ^ 32 - 1 \<Longrightarrow> tm_nodes (measure_loop stack n h) =
     min (2 ^ 32 - 1) (n + sum_list (map (\<lambda>(c, _). desc_nodes c) stack))"
proof (induction stack n h rule: measure_loop.induct)
  case (2 d lvl stack nodes height)
  have "sum_list (map (\<lambda>(c, _). desc_nodes c) (push_children d lvl)) =
      sum_list (rev (map (\<lambda>c. desc_nodes (snd c)) (desc_children d)))"
    unfolding push_children_eq rev_map by (simp add: comp_def)
  then have "desc_nodes d = Suc (sum_list (map (\<lambda>(c, _). desc_nodes c) (push_children d lvl)))"
    by (simp only: sum_list_rev fields_nodes_sum [symmetric] desc_nodes_children [of d])
  with 2 show ?case by (auto simp: sat32_add_def min_def)
qed simp

text \<open>As long as no level overflows, the height is the largest level of a node.\<close>

lemma push_children_level:
  assumes "lvl + desc_height d < 2 ^ 32"
  shows "push_children d lvl = rev (map (\<lambda>c. (snd c, lvl + 1)) (desc_children d))"
proof (cases "desc_children d")
  case Nil
  then show ?thesis by (simp add: push_children_eq)
next
  case (Cons c cs)
  then have "1 \<le> desc_height d" using desc_height_children [of d] fields_height_le [of "c # cs" "desc_height d"] by auto
  with assms show ?thesis by (simp add: push_children_eq next_level_def)
qed

lemma measure_loop_height:
  "\<forall>(d, lvl) \<in> set stack. lvl + desc_height d < 2 ^ 32 \<Longrightarrow>
   tm_height (measure_loop stack n h) \<le> k \<longleftrightarrow>
     h \<le> k \<and> (\<forall>(d, lvl) \<in> set stack. lvl + desc_height d \<le> k)"
proof (induction stack n h rule: measure_loop.induct)
  case (2 d lvl stack nodes height)
  have small: "lvl + desc_height d < 2 ^ 32" using "2.prems" by simp
  have eq: "(\<forall>(c, l) \<in> set (push_children d lvl). l + desc_height c \<le> m) \<longleftrightarrow>
      (\<forall>c \<in> set (desc_children d). lvl + (desc_height (snd c) + 1) \<le> m)" for m
    by (auto simp: push_children_level [OF small])
  have iff: "lvl \<le> m \<and> (\<forall>(c, l) \<in> set (push_children d lvl). l + desc_height c \<le> m) \<longleftrightarrow>
      lvl + desc_height d \<le> m" for m
  proof (cases "lvl \<le> m")
    case True
    then obtain j where j: "m = lvl + j" using le_Suc_ex by blast
    show ?thesis
      unfolding desc_height_children [of d] eq using True by (auto simp: j fields_height_le)
  qed simp
  have "\<forall>(c, l) \<in> set (push_children d lvl). l + desc_height c \<le> 2 ^ 32 - 1"
    using iff [of "2 ^ 32 - 1"] small by linarith
  then have "\<forall>(c, l) \<in> set (push_children d lvl @ stack). l + desc_height c < 2 ^ 32"
    using "2.prems" by fastforce
  from "2.IH" [OF this] iff [of k] show ?case by auto
qed simp

lemma measure_desc_eq:
  assumes "desc_height d < 2 ^ 32"
  shows "measure_desc d = \<lparr> tm_height = desc_height d, tm_nodes = min (2 ^ 32 - 1) (desc_nodes d) \<rparr>"
proof -
  have "tm_height (measure_desc d) \<le> k \<longleftrightarrow> desc_height d \<le> k" for k
    using assms measure_loop_height [of "[(d, 0)]" 0 0 k] by (simp add: measure_desc_def del: measure_loop.simps)
  from this [of "desc_height d"] this [of "tm_height (measure_desc d)"]
  have "tm_height (measure_desc d) = desc_height d" by simp
  moreover have "tm_nodes (measure_desc d) = min (2 ^ 32 - 1) (desc_nodes d)"
    unfolding measure_desc_def by (subst measure_loop_nodes) auto
  ultimately show ?thesis by simp
qed

section \<open>Results that keep a cache invariant\<close>

definition st_ok :: "('s \<Rightarrow> bool) \<Rightarrow> ('a \<Rightarrow> bool) \<Rightarrow> ('e + 'a) \<times> 's \<Rightarrow> bool" where
  "st_ok I Q r \<longleftrightarrow> I (snd r) \<and> (\<forall>x. fst r = Inr x \<longrightarrow> Q x)"

lemma st_ok_bind:
  "st_ok I Q r \<Longrightarrow> (\<And>x s. Q x \<Longrightarrow> I s \<Longrightarrow> st_ok I Q' (f x s)) \<Longrightarrow> st_ok I Q' (and_then_st r f)"
  by (cases r; cases "fst r") (auto simp: st_ok_def)

lemma st_ok_bind2:
  "st_ok I (\<lambda>(x, r). Q x r) r0 \<Longrightarrow> (\<And>x r s. Q x r \<Longrightarrow> I s \<Longrightarrow> st_ok I Q' (f x r s)) \<Longrightarrow>
   st_ok I Q' (and_then_st r0 (\<lambda>(x, r) s. f x r s))"
  by (erule st_ok_bind) auto

lemma st_ok_bind3:
  "st_ok I (\<lambda>(d, m, r). Q d m r) r0 \<Longrightarrow>
   (\<And>d m r s. Q d m r \<Longrightarrow> I s \<Longrightarrow> st_ok I Q' (f d m r s)) \<Longrightarrow>
   st_ok I Q' (and_then_st r0 (\<lambda>(d, m, r) s. f d m r s))"
  by (erule st_ok_bind) auto

lemma st_ok_mono: "st_ok I Q r \<Longrightarrow> (\<And>x. Q x \<Longrightarrow> Q' x) \<Longrightarrow> st_ok I Q' r"
  by (auto simp: st_ok_def)

lemma st_ok_Inl [simp]: "st_ok I Q (Inl e, s) \<longleftrightarrow> I s"
  by (simp add: st_ok_def)

lemma st_ok_Inr [simp]: "st_ok I Q (Inr x, s) \<longleftrightarrow> I s \<and> Q x"
  by (auto simp: st_ok_def)

lemma st_ok_stream: "stream_decoder dec \<Longrightarrow> I s \<Longrightarrow> st_ok I (\<lambda>(x, r). suffix r bs) (dec bs, s)"
  by (auto simp: st_ok_def stream_decoder.dec_suffix)

lemma st_ok_string: "I s \<Longrightarrow>
  st_ok I (\<lambda>(x, r). suffix r bs \<and> utf8_valid (unwrap_or_empty x)) (decode_string ord bs, s)"
  using string_stream [of ord]
  by (auto simp: st_ok_def stream_decoder.dec_suffix unwrap_or_empty_def decode_string_valid
      split: option.splits)

section \<open>What the decoder guarantees on any input\<close>

fun desc_utf8 :: "field_desc \<Rightarrow> bool" and fields_utf8 :: "named_fields \<Rightarrow> bool" where
  "desc_utf8 (Structure sid (StructFields fs _)) = (utf8_valid sid \<and> fields_utf8 fs)"
| "desc_utf8 (StructureArray sid (StructFields fs _)) = (utf8_valid sid \<and> fields_utf8 fs)"
| "desc_utf8 (Union sid vs) = (utf8_valid sid \<and> fields_utf8 vs)"
| "desc_utf8 (UnionArray sid vs) = (utf8_valid sid \<and> fields_utf8 vs)"
| "desc_utf8 _ = True"
| "fields_utf8 [] = True"
| "fields_utf8 ((n, d) # fs) = (utf8_valid n \<and> desc_utf8 d \<and> fields_utf8 fs)"

definition within_limits :: "nat \<Rightarrow> nat \<Rightarrow> bool" where
  "within_limits height nodes \<longleftrightarrow> height \<le> MAX_FIELD_DEPTH \<and> nodes \<le> MAX_FIELD_NODES"

definition desc_ok :: "field_desc \<Rightarrow> tree_metrics \<Rightarrow> bool" where
  "desc_ok d m \<longleftrightarrow>
     wf_desc d \<and> desc_utf8 d \<and> m = \<lparr> tm_height = desc_height d, tm_nodes = desc_nodes d \<rparr> \<and>
     within_limits (desc_height d) (desc_nodes d)"

definition fields_ok :: "named_fields \<Rightarrow> tree_metrics \<Rightarrow> bool" where
  "fields_ok fs m \<longleftrightarrow>
     wf_fields fs \<and> fields_utf8 fs \<and>
     m = \<lparr> tm_height = fields_height fs, tm_nodes = 1 + fields_nodes fs \<rparr> \<and>
     within_limits (fields_height fs) (1 + fields_nodes fs)"

definition cache_ok :: "type_cache \<Rightarrow> bool" where
  "cache_ok cache \<longleftrightarrow>
     (\<forall>key slot. cache key = Some slot \<longrightarrow>
        desc_ok (ct_desc slot) \<lparr> tm_height = ct_height slot, tm_nodes = ct_nodes slot \<rparr>)"

definition type_result_ok ::
  "byte list \<Rightarrow> (decode_error + field_desc \<times> tree_metrics \<times> byte list) \<times> type_cache \<Rightarrow> bool" where
  "type_result_ok bs = st_ok cache_ok (\<lambda>(d, m, r). desc_ok d m \<and> suffix r bs)"

lemma wf_fields_append: "wf_fields (xs @ ys) \<longleftrightarrow> wf_fields xs \<and> wf_fields ys"
  by (induction xs) auto

lemma fields_utf8_append: "fields_utf8 (xs @ ys) \<longleftrightarrow> fields_utf8 xs \<and> fields_utf8 ys"
  by (induction xs) auto

lemma fields_nodes_append: "fields_nodes (xs @ ys) = fields_nodes xs + fields_nodes ys"
  by (induction xs) auto

lemma fields_height_append: "fields_height (xs @ ys) = max (fields_height xs) (fields_height ys)"
  by (induction xs) auto

lemmas fields_append = wf_fields_append fields_utf8_append fields_nodes_append fields_height_append

lemma cache_ok_or_insert:
  "cache_ok cache \<Longrightarrow> desc_ok d m \<Longrightarrow> cache_ok (or_insert cache key (new_with_metrics d m))"
  by (auto simp: cache_ok_def or_insert_def new_with_metrics_def desc_ok_def split: option.splits)

lemma desc_ok_leaf: "desc_children d = [] \<Longrightarrow> \<not> cacheable d \<Longrightarrow> desc_ok d LEAF"
  by (cases d rule: desc_children.cases)
    (auto simp: desc_ok_def LEAF_def within_limits_def MAX_FIELD_NODES_def)

lemma fold_child_ok:
  assumes "fields_ok acc m" "desc_ok d child" "utf8_valid name"
    "check_field_metrics (fold_child m child) = Inr ()"
  shows "fields_ok (acc @ [(name, d)]) (fold_child m child)"
  using assms
  by (auto simp: fields_ok_def desc_ok_def fields_append fold_child_def sat32_add_def
      check_field_metrics_def within_limits_def MAX_FIELD_NODES_def MAX_FIELD_DEPTH_def
      split: if_splits)

lemma decode_fields_ok:
  assumes "\<And>cache bs. cache_ok cache \<Longrightarrow> type_result_ok bs (decode_type_at ord policy depth cache bs)"
    and "cache_ok cache" "fields_ok acc m"
  shows "st_ok cache_ok (\<lambda>(fs, m, r). fields_ok fs m \<and> suffix r bs)
    (decode_fields_at ord policy depth n m acc cache bs)"
  using assms(2-)
proof (induction n arbitrary: m acc cache bs)
  case 0
  then show ?case by (simp add: decode_fields_at.simps)
next
  case (Suc n)
  have "decode_fields_at ord policy depth (Suc n) m acc cache bs =
      and_then_st (decode_string ord bs, cache) (\<lambda>(name, bs) cache.
      and_then_st (decode_type_at ord policy depth cache bs) (\<lambda>(desc, child, bs) cache.
      and_then_st (check_field_metrics (fold_child m child), cache) (\<lambda>_ cache.
      decode_fields_at ord policy depth n (fold_child m child)
        (acc @ [(unwrap_or_empty name, desc)]) cache bs)))"
    by (subst decode_fields_at.simps) simp
  also have "st_ok cache_ok (\<lambda>(fs, m, r). fields_ok fs m \<and> suffix r bs) \<dots>"
  proof (rule st_ok_bind2 [OF st_ok_string [where I = cache_ok, OF Suc.prems(1)]],
      rule st_ok_bind3 [OF assms(1) [unfolded type_result_ok_def]], assumption)
    fix name r1 s1 d child r2 s2
    assume name: "suffix r1 bs \<and> utf8_valid (unwrap_or_empty name)"
      and child: "desc_ok d child \<and> suffix r2 r1" and s2: "cache_ok s2"
    then have r2: "suffix r2 bs" using suffix_order.trans by blast
    show "st_ok cache_ok (\<lambda>(fs, m, r). fields_ok fs m \<and> suffix r bs)
      (and_then_st (check_field_metrics (fold_child m child), s2) (\<lambda>_ cache.
        decode_fields_at ord policy depth n (fold_child m child)
          (acc @ [(unwrap_or_empty name, d)]) cache r2))"
    proof (cases "check_field_metrics (fold_child m child)")
      case (Inr u)
      then have "fields_ok (acc @ [(unwrap_or_empty name, d)]) (fold_child m child)"
        using fold_child_ok [OF Suc.prems(2)] name child by simp
      from Suc.IH [OF s2 this, of r2] show ?thesis
        unfolding Inr and_then_st.simps
        by (rule st_ok_mono) (use r2 suffix_order.trans in \<open>auto\<close>)
    qed (simp add: s2)
  qed
  finally show ?case .
qed

lemma fields_ok_Nil: "fields_ok [] \<lparr> tm_height = 0, tm_nodes = 1 \<rparr>"
  by (simp add: fields_ok_def within_limits_def MAX_FIELD_NODES_def)

lemma desc_ok_structure:
  "fields_ok fs m \<Longrightarrow> utf8_valid sid \<Longrightarrow> desc_ok (Structure sid (struct_fields_from fs)) m"
  by (simp add: fields_ok_def desc_ok_def struct_fields_from_def)

lemma desc_ok_union: "fields_ok vs m \<Longrightarrow> utf8_valid sid \<Longrightarrow> desc_ok (Union sid vs) m"
  by (simp add: fields_ok_def desc_ok_def)

lemma desc_ok_lift:
  "desc_ok (Structure sid sf) m \<Longrightarrow> desc_ok (StructureArray sid sf) m"
  "desc_ok (Union sid vs) m \<Longrightarrow> desc_ok (UnionArray sid vs) m"
  by (cases sf) (simp_all add: desc_ok_def)

lemma decode_body_ok:
  assumes "\<And>cache bs. cache_ok cache \<Longrightarrow> type_result_ok bs (decode_type_at ord policy depth cache bs)"
    and "cache_ok cache" "\<And>sid fs m. fields_ok fs m \<Longrightarrow> utf8_valid sid \<Longrightarrow> desc_ok (mk sid fs) m"
  shows "type_result_ok bs
    (and_then_st (decode_string ord bs, cache) (\<lambda>(sid, bs) cache.
     and_then_st (decode_size_nonnull what ord bs, cache) (\<lambda>(n, bs) cache.
     and_then_st (decode_fields_at ord policy depth (unat n) \<lparr> tm_height = 0, tm_nodes = 1 \<rparr> [] cache bs)
       (\<lambda>(fs, m, bs) cache. (Inr (mk (unwrap_or_empty sid) fs, m, bs), cache)))))"
  unfolding type_result_ok_def
proof (rule st_ok_bind2 [OF st_ok_string [where I = cache_ok, OF assms(2)]],
    rule st_ok_bind2 [OF st_ok_stream [where I = cache_ok, OF nonnull_size_stream]], assumption,
    rule st_ok_bind3 [OF decode_fields_ok [OF assms(1) _ fields_ok_Nil]], assumption+)
  fix sid r1 s1 n r2 s2 fs m r3 s3
  assume "suffix r1 bs \<and> utf8_valid (unwrap_or_empty sid)" "suffix r2 r1"
    "fields_ok fs m \<and> suffix r3 r2" "cache_ok s3"
  moreover from this have "suffix r3 bs" using suffix_order.trans by blast
  ultimately show "st_ok cache_ok (\<lambda>(d, m, r). desc_ok d m \<and> suffix r bs)
      (Inr (mk (unwrap_or_empty sid) fs, m, r3), s3)"
    using assms(3) by simp
qed

lemma decode_bodies_ok:
  assumes "\<And>cache bs. cache_ok cache \<Longrightarrow> type_result_ok bs (decode_type_at ord policy depth cache bs)"
    and "cache_ok cache"
  shows "type_result_ok bs (decode_structure_body_at ord policy depth cache bs)"
    and "type_result_ok bs (decode_union_body_at ord policy depth cache bs)"
  unfolding decode_structure_body_at.simps decode_union_body_at.simps
  by (rule decode_body_ok [where mk = "\<lambda>sid fs. Structure sid (struct_fields_from fs)", OF assms
        desc_ok_structure]; assumption)
    (rule decode_body_ok [where mk = Union, OF assms desc_ok_union]; assumption)

section \<open>The decoder tag by tag\<close>


lemma decode_define:
  assumes depth: "\<not> depth > MAX_FIELD_DEPTH"
  shows "decode_type_at ord policy depth cache (0xFD # bs) =
     and_then_st (get_u16 ord bs, cache) (\<lambda>(key, bs) cache.
     and_then_st (decode_type_at ord policy (depth + 1) cache bs) (\<lambda>(desc, m, bs) cache.
     (Inr (desc, m, bs), or_insert cache key (new_with_metrics desc m))))"
  using depth by (subst decode_type_at.simps) simp

lemma decode_reference:
  assumes depth: "\<not> depth > MAX_FIELD_DEPTH"
  shows "decode_type_at ord policy depth cache (0xFE # bs) =
     and_then_st (get_u16 ord bs, cache) (\<lambda>(key, bs) cache.
     (case cache key of
        None \<Rightarrow> (Inl (TypecacheMiss key), cache)
      | Some slot \<Rightarrow>
          (Inr (ct_desc slot, \<lparr> tm_height = ct_height slot, tm_nodes = ct_nodes slot \<rparr>, bs), cache)))"
  using depth by (subst decode_type_at.simps) simp

lemma decode_compound:
  assumes depth: "\<not> depth > MAX_FIELD_DEPTH"
  shows "decode_type_at ord policy depth cache (TAG_STRUCTURE # bs) =
     decode_structure_body_at ord policy (depth + 1) cache bs"
    and "decode_type_at ord policy depth cache (TAG_UNION # bs) =
     decode_union_body_at ord policy (depth + 1) cache bs"
  using depth by (subst decode_type_at.simps; simp add: tag_defs)+

lemma decode_compound_array:
  assumes depth: "\<not> depth > MAX_FIELD_DEPTH"
  shows "decode_type_at ord policy depth cache (TAG_STRUCTURE_ARRAY # bs) =
     and_then_st (decode_type_at ord policy (depth + 1) cache bs) (\<lambda>(elem, m, bs) cache.
     (case elem of
        Structure sid sf \<Rightarrow> (Inr (StructureArray sid sf, m, bs), cache)
      | _ \<Rightarrow> (Inl ElementNotStructure, cache)))"
    and "decode_type_at ord policy depth cache (TAG_UNION_ARRAY # bs) =
     and_then_st (decode_type_at ord policy (depth + 1) cache bs) (\<lambda>(elem, m, bs) cache.
     (case elem of
        Union sid vs \<Rightarrow> (Inr (UnionArray sid vs, m, bs), cache)
      | _ \<Rightarrow> (Inl ElementNotUnion, cache)))"
  using depth by (subst decode_type_at.simps; simp add: tag_defs)+

lemma decode_variant:
  assumes depth: "\<not> depth > MAX_FIELD_DEPTH"
  shows "decode_type_at ord policy depth cache (TAG_VARIANT # bs) = (Inr (Variant, LEAF, bs), cache)"
    and "decode_type_at ord policy depth cache (TAG_VARIANT_ARRAY # bs) =
     (Inr (VariantArray, LEAF, bs), cache)"
  using depth by (subst decode_type_at.simps; simp add: tag_defs)+

lemma decode_bounded_string:
  assumes depth: "\<not> depth > MAX_FIELD_DEPTH"
  shows "decode_type_at ord policy depth cache (TAG_BOUNDED_STRING # bs) =
     (case policy of
        Interop \<Rightarrow>
          and_then_st (decode_size_nonnull ''bounded string size'' ord bs, cache) (\<lambda>(n, bs) cache.
          (Inr (Scalar TString, LEAF, bs), cache))
      | StrictPvxs \<Rightarrow> (Inl BoundedStringRefused, cache))"
  using depth by (subst decode_type_at.simps) (simp add: tag_defs)

lemma decode_scalar_tags:
  assumes depth: "\<not> depth > MAX_FIELD_DEPTH"
    and "tag \<notin> {0xFD, 0xFE, TAG_STRUCTURE, TAG_UNION, TAG_STRUCTURE_ARRAY, TAG_UNION_ARRAY,
    TAG_VARIANT, TAG_VARIANT_ARRAY, TAG_BOUNDED_STRING}"
  shows "decode_type_at ord policy depth cache (tag # bs) =
     (if tag AND 0x08 \<noteq> 0 then
        (case from_array_type_code tag of
           None \<Rightarrow> (Inl (UnknownArrayTag tag), cache)
         | Some st \<Rightarrow> (Inr (ScalarArray st, LEAF, bs), cache))
      else
        (case from_type_code tag of
           None \<Rightarrow> (Inl (UnknownTypeTag tag), cache)
         | Some st \<Rightarrow> (Inr (Scalar st, LEAF, bs), cache)))"
  using assms by (subst decode_type_at.simps) simp

text \<open>
  Whatever the bytes and however the cache was filled, a returned descriptor
  is well formed, its metrics are its true height and node count, both within
  the limits, and the cache keeps only such descriptors.
\<close>

lemma decode_type_ok:
  "cache_ok cache \<Longrightarrow> type_result_ok bs (decode_type_at ord policy depth cache bs)"
proof (induction "22 - depth" arbitrary: depth cache bs rule: less_induct)
  case less
  show ?case
  proof (cases "depth > MAX_FIELD_DEPTH \<or> bs = []")
    case True
    then show ?thesis
      using less.prems by (subst decode_type_at.simps) (auto simp: type_result_ok_def)
  next
    case False
    then obtain tag bs' where bs: "bs = tag # bs'" by (cases bs) auto
    have depth: "\<not> depth > MAX_FIELD_DEPTH" using False by simp
    then have IH: "cache_ok cache \<Longrightarrow> type_result_ok bs (decode_type_at ord policy (depth + 1) cache bs)"
      for cache bs
      using less.hyps by (simp add: MAX_FIELD_DEPTH_def)
    note IH' = IH [unfolded type_result_ok_def]
    note u16_ok = st_ok_stream [where I = cache_ok, OF u16_wire.stream_decoder_axioms]
    consider "tag = 0xFD" | "tag = 0xFE" | "tag = TAG_STRUCTURE" | "tag = TAG_UNION"
      | "tag = TAG_STRUCTURE_ARRAY" | "tag = TAG_UNION_ARRAY" | "tag = TAG_VARIANT"
      | "tag = TAG_VARIANT_ARRAY" | "tag = TAG_BOUNDED_STRING"
      | "tag \<notin> {0xFD, 0xFE, TAG_STRUCTURE, TAG_UNION, TAG_STRUCTURE_ARRAY, TAG_UNION_ARRAY,
          TAG_VARIANT, TAG_VARIANT_ARRAY, TAG_BOUNDED_STRING}"
      by blast
    then show ?thesis
    proof cases
      case 1
      show ?thesis
        unfolding type_result_ok_def bs 1 decode_define [OF depth]
        by (rule st_ok_bind2 [OF u16_ok [OF less.prems]], rule st_ok_bind3 [OF IH'], assumption)
          (auto simp: cache_ok_or_insert suffix_Cons intro: suffix_order.trans)
    next
      case 2
      show ?thesis
        unfolding type_result_ok_def bs 2 decode_reference [OF depth]
        by (rule st_ok_bind2 [OF u16_ok [OF less.prems]])
          (auto simp: cache_ok_def suffix_Cons split: option.splits)
    next
      case 3
      with decode_bodies_ok(1) [OF IH less.prems, of bs'] show ?thesis
        by (auto simp: bs decode_compound [OF depth] type_result_ok_def st_ok_def suffix_Cons)
    next
      case 4
      with decode_bodies_ok(2) [OF IH less.prems, of bs'] show ?thesis
        by (auto simp: bs decode_compound [OF depth] type_result_ok_def st_ok_def suffix_Cons)
    next
      case 5
      show ?thesis
        unfolding type_result_ok_def bs 5 decode_compound_array [OF depth]
        by (rule st_ok_bind3 [OF IH' [OF less.prems]])
          (auto simp: suffix_Cons desc_ok_lift split: field_desc.splits)
    next
      case 6
      show ?thesis
        unfolding type_result_ok_def bs 6 decode_compound_array [OF depth]
        by (rule st_ok_bind3 [OF IH' [OF less.prems]])
          (auto simp: suffix_Cons desc_ok_lift split: field_desc.splits)
    next
      case 9
      show ?thesis
        unfolding type_result_ok_def bs 9 decode_bounded_string [OF depth]
        by (cases policy)
          (simp_all add: less.prems,
           rule st_ok_bind2 [OF st_ok_stream [where I = cache_ok, OF nonnull_size_stream less.prems]],
           auto simp: desc_ok_leaf suffix_Cons)
    next
      case 10
      from decode_scalar_tags [OF depth this, of ord policy cache bs'] less.prems show ?thesis
        by (auto simp: bs type_result_ok_def desc_ok_leaf suffix_Cons split: option.splits)
    qed (auto simp: bs decode_variant [OF depth] type_result_ok_def desc_ok_leaf suffix_Cons less.prems)
  qed
qed

section \<open>Round trip of the inline form\<close>

fun wire_desc :: "field_desc \<Rightarrow> bool" and wire_fields :: "named_fields \<Rightarrow> bool" where
  "wire_desc (Structure sid (StructFields fs n)) =
     (wire_string sid \<and> length fs < 2 ^ 32 \<and>
      n = 1 + sum_list (map (\<lambda>(_, c). total_bits c) fs) \<and> wire_fields fs)"
| "wire_desc (StructureArray sid (StructFields fs n)) =
     (wire_string sid \<and> length fs < 2 ^ 32 \<and>
      n = 1 + sum_list (map (\<lambda>(_, c). total_bits c) fs) \<and> wire_fields fs)"
| "wire_desc (Union sid vs) = (wire_string sid \<and> length vs < 2 ^ 32 \<and> wire_fields vs)"
| "wire_desc (UnionArray sid vs) = (wire_string sid \<and> length vs < 2 ^ 32 \<and> wire_fields vs)"
| "wire_desc _ = True"
| "wire_fields [] = True"
| "wire_fields ((n, d) # fs) = (wire_string n \<and> wire_desc d \<and> wire_fields fs)"

text \<open>The recursion depth the decoder spends on a descriptor in inline form.\<close>

fun inline_depth :: "field_desc \<Rightarrow> nat" and inline_fields_depth :: "named_fields \<Rightarrow> nat" where
  "inline_depth (Structure _ (StructFields fs _)) = inline_fields_depth fs"
| "inline_depth (StructureArray _ (StructFields fs _)) = 1 + inline_fields_depth fs"
| "inline_depth (Union _ vs) = inline_fields_depth vs"
| "inline_depth (UnionArray _ vs) = 1 + inline_fields_depth vs"
| "inline_depth _ = 0"
| "inline_fields_depth [] = 0"
| "inline_fields_depth ((_, d) # fs) = max (1 + inline_depth d) (inline_fields_depth fs)"

definition metrics_of :: "field_desc \<Rightarrow> tree_metrics" where
  "metrics_of d = \<lparr> tm_height = desc_height d, tm_nodes = desc_nodes d \<rparr>"

definition fields_metrics :: "named_fields \<Rightarrow> tree_metrics" where
  "fields_metrics fs = \<lparr> tm_height = fields_height fs, tm_nodes = 1 + fields_nodes fs \<rparr>"

lemma height_le_inline_depth:
  "desc_height d \<le> inline_depth d" "fields_height fs \<le> inline_fields_depth fs"
  by (induction d and fs rule: desc_height_fields_height.induct) auto

lemma scalar_tag_plain:
  "type_code st \<notin> {0xFD, 0xFE, TAG_STRUCTURE, TAG_UNION, TAG_STRUCTURE_ARRAY, TAG_UNION_ARRAY,
    TAG_VARIANT, TAG_VARIANT_ARRAY, TAG_BOUNDED_STRING}" "type_code st AND 0x08 = 0"
  "array_type_code st \<notin> {0xFD, 0xFE, TAG_STRUCTURE, TAG_UNION, TAG_STRUCTURE_ARRAY,
    TAG_UNION_ARRAY, TAG_VARIANT, TAG_VARIANT_ARRAY, TAG_BOUNDED_STRING}"
  "array_type_code st AND 0x08 \<noteq> 0"
  by (cases st; simp add: array_type_code_def tag_defs)+

lemma decode_scalar:
  "\<not> depth > MAX_FIELD_DEPTH \<Longrightarrow>
   decode_type_at ord policy depth cache (type_code st # bs) = (Inr (Scalar st, LEAF, bs), cache)"
  "\<not> depth > MAX_FIELD_DEPTH \<Longrightarrow>
   decode_type_at ord policy depth cache (array_type_code st # bs) =
     (Inr (ScalarArray st, LEAF, bs), cache)"
  by (simp_all add: decode_scalar_tags scalar_tag_plain del: insert_iff)

lemma metrics_leaf [simp]:
  "metrics_of (Scalar st) = LEAF" "metrics_of (ScalarArray st) = LEAF"
  "metrics_of Variant = LEAF" "metrics_of VariantArray = LEAF"
  by (simp_all add: metrics_of_def LEAF_def)

lemma metrics_compound [simp]:
  "metrics_of (Structure sid (StructFields fs n)) = fields_metrics fs"
  "metrics_of (StructureArray sid (StructFields fs n)) = fields_metrics fs"
  "metrics_of (Union sid fs) = fields_metrics fs"
  "metrics_of (UnionArray sid fs) = fields_metrics fs"
  by (simp_all add: metrics_of_def fields_metrics_def)

lemma fields_metrics_Nil: "fields_metrics [] = \<lparr> tm_height = 0, tm_nodes = 1 \<rparr>"
  by (simp add: fields_metrics_def)

lemma fold_child_metrics:
  assumes "within_limits (fields_height (acc @ [(n, d)])) (1 + fields_nodes (acc @ [(n, d)]))"
  shows "fold_child (fields_metrics acc) (metrics_of d) = fields_metrics (acc @ [(n, d)])"
    and "check_field_metrics (fields_metrics (acc @ [(n, d)])) = Inr ()"
  using assms
  by (auto simp: fold_child_def fields_metrics_def metrics_of_def fields_append sat32_add_def
      within_limits_def MAX_FIELD_DEPTH_def MAX_FIELD_NODES_def check_field_metrics_def)

lemma within_limits_mono:
  "within_limits (fields_height (xs @ ys)) (1 + fields_nodes (xs @ ys)) \<Longrightarrow>
   within_limits (fields_height xs) (1 + fields_nodes xs)"
  by (auto simp: within_limits_def fields_append)

text \<open>One step of the member loop, on the encoding of one member.\<close>

lemma decode_fields_step:
  assumes "wire_string name"
    and "decode_type_at ord policy depth cache (out @ rest) = (Inr (d, metrics_of d, rest), cache')"
    and "within_limits (fields_height (acc @ [(name, d)])) (1 + fields_nodes (acc @ [(name, d)]))"
  shows "decode_fields_at ord policy depth (Suc n) (fields_metrics acc) acc cache
      (encode_string_into name ord @ out @ rest) =
    decode_fields_at ord policy depth n (fields_metrics (acc @ [(name, d)])) (acc @ [(name, d)])
      cache' rest"
  using assms fold_child_metrics [OF assms(3)]
  by (subst decode_fields_at.simps) (simp add: decode_string_encode unwrap_or_empty_def)

text \<open>The body of a compound, given the member loop.\<close>

lemma decode_bodies_encode:
  assumes "wire_string sid" "length fs < 2 ^ 32"
    and "decode_fields_at ord policy depth (length fs) (fields_metrics []) [] cache bs =
      (Inr (fs, m, rest), cache')"
  shows "decode_structure_body_at ord policy depth cache
      (encode_string_into sid ord @ encode_size_into (of_nat (length fs)) ord @ bs) =
      (Inr (Structure sid (struct_fields_from fs), m, rest), cache')"
    and "decode_union_body_at ord policy depth cache
      (encode_string_into sid ord @ encode_size_into (of_nat (length fs)) ord @ bs) =
      (Inr (Union sid fs, m, rest), cache')"
  using assms unat_of_nat_u32 [OF assms(2)]
  by (simp_all add: decode_structure_body_at.simps decode_union_body_at.simps decode_string_encode
      decode_size_nonnull_encode unwrap_or_empty_def fields_metrics_Nil)

lemma limits_from_depth:
  "fields_height fs \<le> MAX_FIELD_DEPTH \<Longrightarrow> Suc (fields_nodes fs) \<le> MAX_FIELD_NODES \<Longrightarrow>
   within_limits (fields_height ([] @ fs)) (1 + fields_nodes ([] @ fs))"
  by (simp add: within_limits_def)

lemma decode_encode_type_desc:
  "wire_desc d \<Longrightarrow> depth + inline_depth d \<le> MAX_FIELD_DEPTH \<Longrightarrow> desc_nodes d \<le> MAX_FIELD_NODES \<Longrightarrow>
     decode_type_at ord policy depth cache (encode_type_desc ord d @ rest) =
       (Inr (d, metrics_of d, rest), cache)"
  "wire_fields fs \<Longrightarrow> depth + inline_fields_depth fs \<le> Suc MAX_FIELD_DEPTH \<Longrightarrow>
     within_limits (fields_height (acc @ fs)) (1 + fields_nodes (acc @ fs)) \<Longrightarrow>
     decode_fields_at ord policy depth (length fs) (fields_metrics acc) acc cache
       (encode_structure_fields ord fs @ rest) =
       (Inr (acc @ fs, fields_metrics (acc @ fs), rest), cache)"
proof (induction ord d and ord fs arbitrary: depth cache rest and depth acc cache rest
    rule: encode_type_desc_encode_structure_fields.induct)
  case (10 ord name child fs)
  have lim: "within_limits (fields_height (acc @ [(name, child)])) (1 + fields_nodes (acc @ [(name, child)]))"
    using 10 within_limits_mono [of "acc @ [(name, child)]" fs] by simp
  then have "desc_nodes child \<le> MAX_FIELD_NODES"
    by (simp add: within_limits_def fields_append)
  with 10 have "decode_type_at ord policy depth cache
      (encode_type_desc ord child @ encode_structure_fields ord fs @ rest) =
      (Inr (child, metrics_of child, encode_structure_fields ord fs @ rest), cache)" by simp
  with decode_fields_step [OF _ this lim, where n = "length fs"] 10 show ?case by simp
next
  case (3 ord sid fs n)
  have "fields_height fs \<le> MAX_FIELD_DEPTH"
    using height_le_inline_depth(2) [of fs] 3 by simp
  note lim = limits_from_depth [OF this]
  have "decode_fields_at ord policy (depth + 1) (length fs) (fields_metrics []) [] cache
      (encode_structure_fields ord fs @ rest) = (Inr (fs, fields_metrics fs, rest), cache)"
    using 3 lim 3(1) [of "depth + 1" "[]" cache rest] by simp
  from decode_bodies_encode(1) [OF _ _ this, of sid] 3 show ?case
    by (simp add: put_u8_def decode_compound struct_fields_from_def)
next
  case (4 ord sid fs n)
  have "fields_height fs \<le> MAX_FIELD_DEPTH"
    using height_le_inline_depth(2) [of fs] 4 by simp
  note lim = limits_from_depth [OF this]
  have "decode_fields_at ord policy (depth + 1 + 1) (length fs) (fields_metrics []) [] cache
      (encode_structure_fields ord fs @ rest) = (Inr (fs, fields_metrics fs, rest), cache)"
    using 4 lim 4(1) [of "depth + 1 + 1" "[]" cache rest] by simp
  from decode_bodies_encode(1) [OF _ _ this, of sid] 4 show ?case
    by (simp add: put_u8_def decode_compound decode_compound_array struct_fields_from_def)
next
  case (5 ord sid vs)
  have "fields_height vs \<le> MAX_FIELD_DEPTH"
    using height_le_inline_depth(2) [of vs] 5 by simp
  note lim = limits_from_depth [OF this]
  have "decode_fields_at ord policy (depth + 1) (length vs) (fields_metrics []) [] cache
      (encode_structure_fields ord vs @ rest) = (Inr (vs, fields_metrics vs, rest), cache)"
    using 5 lim 5(1) [of "depth + 1" "[]" cache rest] by simp
  from decode_bodies_encode(2) [OF _ _ this, of sid] 5 show ?case
    by (simp add: put_u8_def decode_compound)
next
  case (6 ord sid vs)
  have "fields_height vs \<le> MAX_FIELD_DEPTH"
    using height_le_inline_depth(2) [of vs] 6 by simp
  note lim = limits_from_depth [OF this]
  have "decode_fields_at ord policy (depth + 1 + 1) (length vs) (fields_metrics []) [] cache
      (encode_structure_fields ord vs @ rest) = (Inr (vs, fields_metrics vs, rest), cache)"
    using 6 lim 6(1) [of "depth + 1 + 1" "[]" cache rest] by simp
  from decode_bodies_encode(2) [OF _ _ this, of sid] 6 show ?case
    by (simp add: put_u8_def decode_compound decode_compound_array)
next
  case (9 ord)
  then show ?case by (subst decode_fields_at.simps) simp
qed (auto simp: put_u8_def decode_scalar decode_variant)

section \<open>Round trip of the cached form\<close>

text \<open>
  The recursion depth the decoder spends on the cached form: every compound
  that is defined inline costs one more level for its \<^verbatim>\<open>0xFD\<close> prefix.
\<close>

fun body_depth :: "field_desc \<Rightarrow> nat" and cached_fields_depth :: "named_fields \<Rightarrow> nat" where
  "body_depth (Structure _ (StructFields fs _)) = cached_fields_depth fs"
| "body_depth (StructureArray _ (StructFields fs _)) = 1 + cached_fields_depth fs"
| "body_depth (Union _ vs) = cached_fields_depth vs"
| "body_depth (UnionArray _ vs) = 1 + cached_fields_depth vs"
| "body_depth _ = 0"
| "cached_fields_depth [] = 0"
| "cached_fields_depth ((_, d) # fs) =
     max (1 + ((if cacheable d then 1 else 0) + body_depth d)) (cached_fields_depth fs)"

definition cached_depth :: "field_desc \<Rightarrow> nat" where
  "cached_depth d = (if cacheable d then 1 else 0) + body_depth d"

text \<open>
  The encoder's and the decoder's caches agree: every slot the encoder has
  handed out is below its counter and, unless the descriptor is still being
  written (\<open>Op\<close>), bound to that descriptor in the decoder.
\<close>

definition sync :: "encode_type_cache \<Rightarrow> type_cache \<Rightarrow> field_desc set \<Rightarrow> bool" where
  "sync E D Op \<longleftrightarrow>
     (\<forall>d s. ec_map E d = Some s \<longrightarrow> s < ec_next E \<and>
        (if d \<in> Op then D s = None else D s = Some (new_with_metrics d (metrics_of d)))) \<and>
     (\<forall>s. D s \<noteq> None \<longrightarrow> s < ec_next E) \<and>
     (\<forall>d d' s. ec_map E d = Some s \<and> ec_map E d' = Some s \<longrightarrow> d = d')"

lemma sync_new: "sync encode_type_cache_new Map.empty {}"
  by (simp add: sync_def encode_type_cache_new_def)

lemma u16_less_Suc: "(s :: u16) < n \<Longrightarrow> n \<noteq> 0xFFFF \<Longrightarrow> s < n + 1"
  and u16_self_less_Suc: "(n :: u16) \<noteq> 0xFFFF \<Longrightarrow> n < n + 1"
proof -
  have *: "n < n + 1" if "n \<noteq> 0xFFFF" for n :: u16
  proof -
    have "unat n < 2 ^ 16" using unsigned_less [of n] by simp
    moreover have "unat n \<noteq> 65535" using that by (simp add: word_unat_eq_iff)
    ultimately show ?thesis by (simp add: word_less_nat_alt unat_word_ariths)
  qed
  show "(s :: u16) < n \<Longrightarrow> n \<noteq> 0xFFFF \<Longrightarrow> s < n + 1" using * [of n] by (auto intro: less_trans)
  show "(n :: u16) \<noteq> 0xFFFF \<Longrightarrow> n < n + 1" by (rule *)
qed

lemma sync_open:
  assumes "sync E D Op" "ec_map E d = None" "ec_next E \<noteq> 0xFFFF"
  shows "sync (E \<lparr> ec_next := ec_next E + 1, ec_map := (ec_map E)(d \<mapsto> ec_next E) \<rparr>) D (insert d Op)"
  using assms u16_less_Suc [OF _ assms(3)] u16_self_less_Suc [OF assms(3)]
  unfolding sync_def by (auto split: if_splits)

lemma sync_close:
  assumes "sync E D (insert d Op)" "d \<notin> Op" "ec_map E d = Some slot"
  shows "sync E (or_insert D slot (new_with_metrics d (metrics_of d))) Op"
  using assms unfolding sync_def or_insert_def
  by (auto split: option.splits if_splits) (metis option.inject)+

text \<open>What the cached round trip of one descriptor means, for every state of the two caches.\<close>

definition cached_rt :: "byte_order \<Rightarrow> bounded_string_policy \<Rightarrow> field_desc \<Rightarrow> bool" where
  "cached_rt ord policy d \<longleftrightarrow>
     (\<forall>E out E' D Op depth rest.
        encode_type_desc_cached ord d E = Some (out, E') \<longrightarrow> sync E D Op \<longrightarrow>
        (\<forall>x \<in> Op. size d < size x) \<longrightarrow> depth + cached_depth d \<le> MAX_FIELD_DEPTH \<longrightarrow>
        (\<exists>D'. decode_type_at ord policy depth D (out @ rest) = (Inr (d, metrics_of d, rest), D') \<and>
           sync E' D' Op \<and> ec_map E \<subseteq>\<^sub>m ec_map E'))"

lemma cached_rtD:
  assumes "cached_rt ord policy d" "encode_type_desc_cached ord d E = Some (out, E')" "sync E D Op"
    "\<forall>x \<in> Op. size d < size x" "depth + cached_depth d \<le> MAX_FIELD_DEPTH"
  obtains D' where "decode_type_at ord policy depth D (out @ rest) = (Inr (d, metrics_of d, rest), D')"
    "sync E' D' Op" "ec_map E \<subseteq>\<^sub>m ec_map E'"
  using assms unfolding cached_rt_def by blast

lemma cached_fields_rt:
  assumes "\<And>c. c \<in> set fs \<Longrightarrow> cached_rt ord policy (snd c)"
    and "encode_fields_cached ord fs E = Some (out, E')" "sync E D Op" "wire_fields fs"
    and "\<forall>x \<in> Op. \<forall>c \<in> set fs. size (snd c) < size x"
    and "depth + cached_fields_depth fs \<le> Suc MAX_FIELD_DEPTH"
    and "within_limits (fields_height (acc @ fs)) (1 + fields_nodes (acc @ fs))"
  shows "\<exists>D'. decode_fields_at ord policy depth (length fs) (fields_metrics acc) acc D (out @ rest) =
      (Inr (acc @ fs, fields_metrics (acc @ fs), rest), D') \<and> sync E' D' Op \<and> ec_map E \<subseteq>\<^sub>m ec_map E'"
  using assms
proof (induction fs arbitrary: E D out acc)
  case Nil
  then show ?case by (subst decode_fields_at.simps) auto
next
  case (Cons c fs)
  obtain name d where c: "c = (name, d)" by (cases c)
  from Cons.prems(2) obtain out1 E1 out2 where
    enc: "encode_type_desc_cached ord d E = Some (out1, E1)"
    "encode_fields_cached ord fs E1 = Some (out2, E')"
    "out = encode_string_into name ord @ out1 @ out2"
    by (auto simp: c split: option.splits)
  have "cached_rt ord policy d" "\<forall>x \<in> Op. size d < size x" "depth + cached_depth d \<le> MAX_FIELD_DEPTH"
    using Cons.prems(1) [of c] Cons.prems by (auto simp: c cached_depth_def)
  then obtain D1 where D1:
    "decode_type_at ord policy depth D (out1 @ out2 @ rest) = (Inr (d, metrics_of d, out2 @ rest), D1)"
    "sync E1 D1 Op" "ec_map E \<subseteq>\<^sub>m ec_map E1"
    using cached_rtD [OF _ enc(1) Cons.prems(3), where rest = "out2 @ rest"] by metis
  have lim: "within_limits (fields_height (acc @ [(name, d)])) (1 + fields_nodes (acc @ [(name, d)]))"
    using Cons.prems(7) within_limits_mono [of "acc @ [(name, d)]" fs] by (simp add: c)
  have "\<exists>D'. decode_fields_at ord policy depth (length fs) (fields_metrics (acc @ [(name, d)]))
      (acc @ [(name, d)]) D1 (out2 @ rest) =
      (Inr ((acc @ [(name, d)]) @ fs, fields_metrics ((acc @ [(name, d)]) @ fs), rest), D') \<and>
      sync E' D' Op \<and> ec_map E1 \<subseteq>\<^sub>m ec_map E'"
    by (rule Cons.IH [OF _ enc(2) D1(2)]) (use Cons.prems c in auto)
  moreover have "wire_string name" using Cons.prems(4) by (simp add: c)
  ultimately show ?case
    using decode_fields_step [OF _ D1(1) lim, where n = "length fs"] D1(3) enc(3)
    by (auto simp: c intro: map_le_trans)
qed

lemma size_child: "c \<in> set (desc_children d) \<Longrightarrow> size (snd c) < size d"
proof -
  have *: "c \<in> set fs \<Longrightarrow> size (snd c) \<le> size_list (size_prod (\<lambda>_. 0) size) fs" for fs :: named_fields
    by (cases c, rule size_list_estimation') auto
  assume "c \<in> set (desc_children d)"
  then show ?thesis
    by (cases d rule: desc_children.cases) (auto dest!: *)
qed

lemma height_le_body_depth:
  "desc_height d \<le> body_depth d" "fields_height fs \<le> cached_fields_depth fs"
  by (induction d and fs rule: desc_height_fields_height.induct) auto

text \<open>The inline body after a fresh definition, under any enclosing open descriptors.\<close>

lemma cached_body_rt:
  assumes rt: "\<And>c. c \<in> set (desc_children d) \<Longrightarrow> cached_rt ord policy (snd c)"
    and enc: "encode_type_desc_inline_cached ord d E = Some (out, E')" and "sync E D Op"
    and "wire_desc d" "\<forall>x \<in> Op. size d \<le> size x" "depth + body_depth d \<le> MAX_FIELD_DEPTH"
    and "desc_nodes d \<le> MAX_FIELD_NODES"
  shows "\<exists>D'. decode_type_at ord policy depth D (out @ rest) = (Inr (d, metrics_of d, rest), D') \<and>
     sync E' D' Op \<and> ec_map E \<subseteq>\<^sub>m ec_map E'"
proof -
  define fs where "fs = desc_children d"
  have sizes: "\<forall>x \<in> Op. \<forall>c \<in> set fs. size (snd c) < size x"
    using assms(5) size_child [of _ d] by (fastforce simp: fs_def)
  have height: "fields_height fs \<le> MAX_FIELD_DEPTH"
    using height_le_body_depth(1) [of d] assms(6) by (simp add: fs_def desc_height_children)
  have lim: "within_limits (fields_height ([] @ fs)) (1 + fields_nodes ([] @ fs))"
    using limits_from_depth [OF height] assms(7) desc_nodes_children [of d] by (simp add: fs_def)
  have fields: "\<exists>D'. decode_fields_at ord policy k (length fs) (fields_metrics []) [] D (out' @ rest) =
      (Inr (fs, fields_metrics fs, rest), D') \<and> sync E' D' Op \<and> ec_map E \<subseteq>\<^sub>m ec_map E'"
    if "encode_fields_cached ord fs E = Some (out', E')" "wire_fields fs"
      "k + cached_fields_depth fs \<le> Suc MAX_FIELD_DEPTH" for k out'
    using cached_fields_rt [OF rt that(1) assms(3) that(2) sizes that(3) lim] by (simp add: fs_def)
  show ?thesis
  proof (cases d rule: desc_children.cases)
    case (1 sid gs n)
    then have gs: "fs = gs" by (simp add: fs_def)
    with enc 1 obtain out' where out': "encode_fields_cached ord fs E = Some (out', E')"
      "out = [TAG_STRUCTURE] @ encode_string_into sid ord @ encode_size_into (of_nat (length fs)) ord @ out'"
      by (auto simp: put_u8_def split: option.splits)
    then obtain D' where D': "decode_fields_at ord policy (depth + 1) (length fs) (fields_metrics []) [] D
        (out' @ rest) = (Inr (fs, fields_metrics fs, rest), D')" "sync E' D' Op" "ec_map E \<subseteq>\<^sub>m ec_map E'"
      using fields [of out' "depth + 1"] assms(4,6) 1 gs by auto
    from decode_bodies_encode(1) [OF _ _ D'(1), of sid] show ?thesis
      using assms(4,6) 1 gs out'(2) D'(2,3)
      by (simp add: decode_compound struct_fields_from_def)
    next
    case (2 sid gs n)
    then have gs: "fs = gs" by (simp add: fs_def)
    with enc 2 obtain out' where out': "encode_fields_cached ord fs E = Some (out', E')"
      "out = [TAG_STRUCTURE_ARRAY, TAG_STRUCTURE] @ encode_string_into sid ord @ encode_size_into (of_nat (length fs)) ord @ out'"
      by (auto simp: put_u8_def split: option.splits)
    then obtain D' where D': "decode_fields_at ord policy (depth + 1 + 1) (length fs) (fields_metrics []) [] D
        (out' @ rest) = (Inr (fs, fields_metrics fs, rest), D')" "sync E' D' Op" "ec_map E \<subseteq>\<^sub>m ec_map E'"
      using fields [of out' "depth + 1 + 1"] assms(4,6) 2 gs by auto
    from decode_bodies_encode(1) [OF _ _ D'(1), of sid] show ?thesis
      using assms(4,6) 2 gs out'(2) D'(2,3)
      by (simp add: decode_compound decode_compound_array struct_fields_from_def)
    next
    case (3 sid gs)
    then have gs: "fs = gs" by (simp add: fs_def)
    with enc 3 obtain out' where out': "encode_fields_cached ord fs E = Some (out', E')"
      "out = [TAG_UNION] @ encode_string_into sid ord @ encode_size_into (of_nat (length fs)) ord @ out'"
      by (auto simp: put_u8_def split: option.splits)
    then obtain D' where D': "decode_fields_at ord policy (depth + 1) (length fs) (fields_metrics []) [] D
        (out' @ rest) = (Inr (fs, fields_metrics fs, rest), D')" "sync E' D' Op" "ec_map E \<subseteq>\<^sub>m ec_map E'"
      using fields [of out' "depth + 1"] assms(4,6) 3 gs by auto
    from decode_bodies_encode(2) [OF _ _ D'(1), of sid] show ?thesis
      using assms(4,6) 3 gs out'(2) D'(2,3)
      by (simp add: decode_compound struct_fields_from_def)
    next
    case (4 sid gs)
    then have gs: "fs = gs" by (simp add: fs_def)
    with enc 4 obtain out' where out': "encode_fields_cached ord fs E = Some (out', E')"
      "out = [TAG_UNION_ARRAY, TAG_UNION] @ encode_string_into sid ord @ encode_size_into (of_nat (length fs)) ord @ out'"
      by (auto simp: put_u8_def split: option.splits)
    then obtain D' where D': "decode_fields_at ord policy (depth + 1 + 1) (length fs) (fields_metrics []) [] D
        (out' @ rest) = (Inr (fs, fields_metrics fs, rest), D')" "sync E' D' Op" "ec_map E \<subseteq>\<^sub>m ec_map E'"
      using fields [of out' "depth + 1 + 1"] assms(4,6) 4 gs by auto
    from decode_bodies_encode(2) [OF _ _ D'(1), of sid] show ?thesis
      using assms(4,6) 4 gs out'(2) D'(2,3)
      by (simp add: decode_compound decode_compound_array struct_fields_from_def)
  qed (use assms in \<open>auto simp: put_u8_def decode_scalar decode_variant\<close>)
qed

lemma put_u8_append: "put_u8 b @ xs = b # xs"
  by (simp add: put_u8_def)

lemma wire_fields_member: "wire_fields fs \<Longrightarrow> c \<in> set fs \<Longrightarrow> wire_desc (snd c)"
  by (induction fs) auto

lemma cached_rt_all:
  "wire_desc d \<Longrightarrow> desc_nodes d \<le> MAX_FIELD_NODES \<Longrightarrow> cached_rt ord policy d"
proof (induction "size d" arbitrary: d rule: less_induct)
  case less
  have children: "cached_rt ord policy (snd c)" if "c \<in> set (desc_children d)" for c
  proof (rule less.hyps [OF size_child [OF that]])
    have "wire_fields (desc_children d)"
      using less.prems(1) by (cases d rule: desc_children.cases) auto
    with that show "wire_desc (snd c)" by (rule wire_fields_member [rotated])
    have "desc_nodes (snd c) \<le> fields_nodes (desc_children d)"
      using that unfolding fields_nodes_sum by (intro member_le_sum_list) auto
    then show "desc_nodes (snd c) \<le> MAX_FIELD_NODES"
      using less.prems(2) desc_nodes_children [of d] by simp
  qed
  show ?case
    unfolding cached_rt_def
  proof (intro allI impI)
    fix E out E' D Op depth rest
    assume enc: "encode_type_desc_cached ord d E = Some (out, E')" and sync: "sync E D Op"
      and op: "\<forall>x \<in> Op. size d < size x" and depth: "depth + cached_depth d \<le> MAX_FIELD_DEPTH"
    show "\<exists>D'. decode_type_at ord policy depth D (out @ rest) = (Inr (d, metrics_of d, rest), D') \<and>
        sync E' D' Op \<and> ec_map E \<subseteq>\<^sub>m ec_map E'"
    proof (cases "cacheable d")
      case False
      then have inl: "encode_type_desc_inline_cached ord d E = Some (out, E')" using enc by simp
      show ?thesis
        by (rule cached_body_rt [OF children inl sync less.prems(1) _ _ less.prems(2)])
          (use op depth False in \<open>auto simp: cached_depth_def intro: less_imp_le\<close>)
    next
      case True
      have notop: "d \<notin> Op" using op by auto
      have ok: "\<not> depth > MAX_FIELD_DEPTH" using depth by simp
      show ?thesis
      proof (cases "ec_map E d")
        case (Some slot)
        with enc True have out: "out = put_u8 0xFE @ put_u16 slot ord" "E' = E"
          by simp_all
        have "D slot = Some (new_with_metrics d (metrics_of d))"
          using sync Some notop by (auto simp: sync_def)
        then show ?thesis
          using sync out
          by (simp add: put_u8_append decode_reference [OF ok] get_put new_with_metrics_def metrics_of_def)
      next
        case None
        let ?E1 = "E \<lparr> ec_next := ec_next E + 1, ec_map := (ec_map E)(d \<mapsto> ec_next E) \<rparr>"
        from enc True None obtain out1 where next_ok: "ec_next E \<noteq> 0xFFFF"
          and inl: "encode_type_desc_inline_cached ord d ?E1 = Some (out1, E')"
          and out: "out = put_u8 0xFD @ put_u16 (ec_next E) ord @ out1"
          by (auto simp: Let_def split: option.splits if_splits)
        have op': "\<forall>x \<in> insert d Op. size d \<le> size x" using op by (auto intro: less_imp_le)
        have depth': "depth + 1 + body_depth d \<le> MAX_FIELD_DEPTH"
          using depth True by (simp add: cached_depth_def)
        obtain D1 where D1: "decode_type_at ord policy (depth + 1) D (out1 @ rest) =
            (Inr (d, metrics_of d, rest), D1)" "sync E' D1 (insert d Op)" "ec_map ?E1 \<subseteq>\<^sub>m ec_map E'"
          using cached_body_rt [OF children inl sync_open [OF sync None next_ok] less.prems(1) op'
              depth' less.prems(2), of rest] by blast
        have slot: "ec_map E' d = Some (ec_next E)"
          using D1(3) by (auto simp: map_le_def)
        have "ec_map E \<subseteq>\<^sub>m ec_map ?E1" using None by (auto simp: map_le_def)
        then have "ec_map E \<subseteq>\<^sub>m ec_map E'" using D1(3) by (rule map_le_trans)
        with sync_close [OF D1(2) notop slot] show ?thesis
          by (simp add: out put_u8_append decode_define [OF ok] get_put D1(1) [simplified])
      qed
    qed
  qed
qed

section \<open>A connection's descriptors\<close>

text \<open>
  A sequence of descriptors sent over one connection, each with the cache the
  previous ones left behind on its side.
\<close>

primrec encode_descs ::
  "byte_order \<Rightarrow> field_desc list \<Rightarrow> encode_type_cache \<Rightarrow> (byte list \<times> encode_type_cache) option" where
  "encode_descs ord [] E = Some ([], E)"
| "encode_descs ord (d # ds) E =
     (case encode_type_desc_cached ord d E of
        None \<Rightarrow> None
      | Some (out, E') \<Rightarrow>
          map_option (\<lambda>(out', E''). (out @ out', E'')) (encode_descs ord ds E'))"

primrec decode_descs ::
  "byte_order \<Rightarrow> nat \<Rightarrow> type_cache \<Rightarrow> byte list \<Rightarrow>
     (decode_error + field_desc list \<times> byte list) \<times> type_cache" where
  "decode_descs ord 0 D bs = (Inr ([], bs), D)"
| "decode_descs ord (Suc n) D bs =
     and_then_st (decode_type_desc_cached ord D bs) (\<lambda>(d, bs) D.
     and_then_st (decode_descs ord n D bs) (\<lambda>(ds, bs) D. (Inr (d # ds, bs), D)))"

definition desc_bounded :: "field_desc \<Rightarrow> bool" where
  "desc_bounded d \<longleftrightarrow>
     wf_desc d \<and> desc_utf8 d \<and> desc_height d \<le> MAX_FIELD_DEPTH \<and> desc_nodes d \<le> MAX_FIELD_NODES"

lemma decode_descs_ok:
  "cache_ok D \<Longrightarrow>
   st_ok cache_ok (\<lambda>(ds, r). list_all desc_bounded ds \<and> length ds = n \<and> suffix r bs)
     (decode_descs ord n D bs)"
proof (induction n arbitrary: D bs)
  case 0
  then show ?case by (simp add: st_ok_def)
next
  case (Suc n)
  have top: "st_ok cache_ok (\<lambda>(d, r). desc_bounded d \<and> suffix r bs) (decode_type_desc_cached ord D bs)"
    unfolding decode_type_desc_cached_def
    by (rule st_ok_bind [OF decode_type_ok [OF Suc.prems, unfolded type_result_ok_def]])
      (auto simp: st_ok_def desc_bounded_def desc_ok_def within_limits_def)
  show ?case
    unfolding decode_descs.simps
  proof (rule st_ok_bind [OF top], clarify)
    fix d r D' assume d: "desc_bounded d" "suffix r bs" "cache_ok D'"
    show "st_ok cache_ok (\<lambda>(ds, r). list_all desc_bounded ds \<and> length ds = Suc n \<and> suffix r bs)
       (and_then_st (decode_descs ord n D' r) (\<lambda>(ds, bs) D. (Inr (d # ds, bs), D)))"
      by (rule st_ok_bind [OF Suc.IH [OF d(3)]])
        (use d in \<open>auto simp: st_ok_def intro: suffix_order.trans\<close>)
  qed
qed

definition sendable :: "field_desc \<Rightarrow> bool" where
  "sendable d \<longleftrightarrow> wire_desc d \<and> desc_nodes d \<le> MAX_FIELD_NODES \<and> cached_depth d \<le> MAX_FIELD_DEPTH"

lemma decode_cached_top:
  assumes "sendable d" "encode_type_desc_cached ord d E = Some (out, E')" "sync E D {}"
  shows "\<exists>D'. decode_type_desc_cached ord D (out @ rest) = (Inr (d, rest), D') \<and> sync E' D' {}"
proof -
  have rt: "cached_rt ord Interop d" "0 + cached_depth d \<le> MAX_FIELD_DEPTH"
    using assms(1) cached_rt_all by (simp_all add: sendable_def)
  obtain D' where "decode_type_at ord Interop 0 D (out @ rest) = (Inr (d, metrics_of d, rest), D')"
    "sync E' D' {}"
    by (rule cached_rtD [OF rt(1) assms(2,3) _ rt(2)]) auto
  then show ?thesis by (simp add: decode_type_desc_cached_def)
qed

lemma decode_encode_descs:
  assumes "list_all sendable ds" "encode_descs ord ds E = Some (out, E')" "sync E D {}"
  shows "\<exists>D'. decode_descs ord (length ds) D (out @ rest) = (Inr (ds, rest), D') \<and> sync E' D' {}"
  using assms
proof (induction ds arbitrary: E D out)
  case (Cons d ds)
  from Cons.prems(2) obtain out1 E1 out2 where enc:
    "encode_type_desc_cached ord d E = Some (out1, E1)" "encode_descs ord ds E1 = Some (out2, E')"
    "out = out1 @ out2" by (auto split: option.splits)
  from Cons.prems(1) have "sendable d" by simp
  from decode_cached_top [OF this enc(1) Cons.prems(3), of "out2 @ rest"] obtain D1 where
    D1: "decode_type_desc_cached ord D (out1 @ out2 @ rest) = (Inr (d, out2 @ rest), D1)" "sync E1 D1 {}"
    by blast
  from Cons.IH [OF _ enc(2) D1(2)] Cons.prems(1) D1(1) enc(3) show ?case by auto
qed simp

text \<open>A chain of structures, each with one member.\<close>

primrec nest :: "nat \<Rightarrow> field_desc" where
  "nest 0 = Scalar TInt"
| "nest (Suc n) = Structure [] (struct_fields_from [([], nest n)])"

lemma nest_height [simp]: "desc_height (nest n) = n"
  by (induction n) (simp_all add: struct_fields_from_def)

lemma nest_inject [simp]: "nest m = nest n \<longleftrightarrow> m = n"
  using nest_height by metis

lemma nest_wire: "wire_desc (nest n)" "desc_nodes (nest n) = Suc n" "inline_depth (nest n) = n"
  by (induction n) (simp_all add: struct_fields_from_def wire_string_def)

lemma nest_cached_Suc:
  assumes "ec_map E (nest (Suc n)) = None"
  shows "encode_type_desc_cached ord (nest (Suc n)) E =
    (if ec_next E = 0xFFFF then None
     else map_option (\<lambda>(out, E'). (0xFD # put_u16 (ec_next E) ord @ TAG_STRUCTURE #
         encode_string_into [] ord @ encode_size_into 1 ord @ encode_string_into [] ord @ out, E'))
       (encode_type_desc_cached ord (nest n)
         (E \<lparr> ec_next := ec_next E + 1, ec_map := (ec_map E)(nest (Suc n) \<mapsto> ec_next E) \<rparr>)))"
proof -
  have c: "cacheable (nest (Suc n))" by simp
  have i: "encode_type_desc_inline_cached ord (nest (Suc n)) E1 =
      map_option (\<lambda>(out, E'). (TAG_STRUCTURE # encode_string_into [] ord @ encode_size_into 1 ord @
        encode_string_into [] ord @ out, E')) (encode_type_desc_cached ord (nest n) E1)" for E1
    by (simp add: struct_fields_from_def put_u8_def split: option.splits
        del: encode_type_desc_cached.simps)
  show ?thesis
    unfolding encode_type_desc_cached.simps [of ord "nest (Suc n)"] if_P [OF c] assms option.case Let_def i
    by (simp add: put_u8_def option.case_eq_if map_option_case case_prod_beta
        del: nest.simps encode_type_desc_cached.simps)
qed

lemma nest_cached_refused:
  assumes "encode_type_desc_cached ord (nest n) E = Some (out, E')"
    and "\<forall>j. 0 < j \<and> j \<le> n \<longrightarrow> ec_map E (nest j) = None" and "MAX_FIELD_DEPTH < depth + 2 * n"
  shows "fst (decode_type_at ord policy depth D (out @ rest)) = Inl NestingTooDeep"
  using assms
proof (induction n arbitrary: E out depth D)
  case 0
  then show ?case by (subst decode_type_at.simps) simp
next
  case (Suc n)
  have miss: "ec_map E (nest (Suc n)) = None" using Suc.prems(2) by blast
  let ?E1 = "E \<lparr> ec_next := ec_next E + 1, ec_map := (ec_map E)(nest (Suc n) \<mapsto> ec_next E) \<rparr>"
  from Suc.prems(1) obtain out1 where enc: "encode_type_desc_cached ord (nest n) ?E1 = Some (out1, E')"
    and out: "out = 0xFD # put_u16 (ec_next E) ord @ TAG_STRUCTURE #
      encode_string_into [] ord @ encode_size_into 1 ord @ encode_string_into [] ord @ out1"
    unfolding nest_cached_Suc [OF miss] by (auto split: if_splits)
  have IH: "fst (decode_type_at ord policy (depth + 1 + 1) D (out1 @ rest)) = Inl NestingTooDeep" for D
    using Suc.IH [OF enc, of "depth + 1 + 1" D] Suc.prems(2,3) by (simp del: nest.simps)
  then obtain D' where IH': "decode_type_at ord policy (depth + 1 + 1) D (out1 @ rest) = (Inl NestingTooDeep, D')"
    by (metis prod.collapse)
  have empty: "wire_string []" by (simp add: wire_string_def)
  consider "depth > MAX_FIELD_DEPTH" | "\<not> depth > MAX_FIELD_DEPTH" "depth + 1 > MAX_FIELD_DEPTH"
    | "\<not> depth > MAX_FIELD_DEPTH" "\<not> depth + 1 > MAX_FIELD_DEPTH" by blast
  then show ?case
  proof cases
    case 1
    then show ?thesis by (subst decode_type_at.simps) simp
  next
    case 2
    then have "decode_type_at ord policy (depth + 1) D bs = (Inl NestingTooDeep, D)" for bs
      by (subst decode_type_at.simps) simp
    with 2 show ?thesis by (simp add: out decode_define get_put)
  next
    case 3
    then show ?thesis
      using IH'
      by (simp add: out decode_define get_put decode_compound decode_structure_body_at.simps
          decode_string_encode [OF empty] decode_size_nonnull_encode decode_fields_at.simps)
  qed
qed

lemma nest_cached_total:
  "unat (ec_next E) + n < 65535 \<Longrightarrow> \<forall>j. 0 < j \<and> j \<le> n \<longrightarrow> ec_map E (nest j) = None \<Longrightarrow>
   \<exists>out E'. encode_type_desc_cached ord (nest n) E = Some (out, E')"
proof (induction n arbitrary: E)
  case (Suc n)
  have miss: "ec_map E (nest (Suc n)) = None" using Suc.prems(2) by blast
  have "ec_next E \<noteq> 0xFFFF" using Suc.prems(1) by auto
  moreover have "unat (ec_next E + 1) = unat (ec_next E) + 1"
    using Suc.prems(1) by (simp add: unat_word_ariths)
  ultimately show ?case
    using Suc.IH [of "E \<lparr> ec_next := ec_next E + 1, ec_map := (ec_map E)(nest (Suc n) \<mapsto> ec_next E) \<rparr>"]
      Suc.prems
    by (auto simp: nest_cached_Suc [OF miss] simp del: encode_type_desc_cached.simps nest.simps)
qed simp

end
