(* ===== verification/Pva_Scalar.thy ===== *)
theory Pva_Scalar
  imports Pva_Field
begin

text \<open>
  Scalar values and scalar arrays on the wire
  (\<^verbatim>\<open>epics-pva-rs/src/pvdata/encode.rs\<close>).  Arrays have a fast path that
  copies the host's memory when the wire order is the host's; the host order
  is a parameter, and the lemmas show that it never shows on the wire.
\<close>

section \<open>Scalar values\<close>

fun encode_scalar_value :: "byte_order \<Rightarrow> scalar_value \<Rightarrow> byte list" where
  "encode_scalar_value ord (VBoolean b) = put_u8 (if b then 1 else 0)"
| "encode_scalar_value ord (VByte x) = put_i8 x"
| "encode_scalar_value ord (VUByte x) = put_u8 x"
| "encode_scalar_value ord (VShort x) = put_i16 x ord"
| "encode_scalar_value ord (VUShort x) = put_u16 x ord"
| "encode_scalar_value ord (VInt x) = put_i32 x ord"
| "encode_scalar_value ord (VUInt x) = put_u32 x ord"
| "encode_scalar_value ord (VLong x) = put_i64 x ord"
| "encode_scalar_value ord (VULong x) = put_u64 x ord"
| "encode_scalar_value ord (VFloat x) = put_f32 x ord"
| "encode_scalar_value ord (VDouble x) = put_f64 x ord"
| "encode_scalar_value ord (VString s) = encode_string_bytes_into s ord"

text \<open>\<open>and_then (dec bs) (\<lambda>(x, r). Inr (f x, r))\<close>, the constructor applied to what was read.\<close>

definition map_dec :: "('a \<Rightarrow> 'b) \<Rightarrow> ('e, 'a) decoder \<Rightarrow> ('e, 'b) decoder" where
  "map_dec f dec bs = and_then (dec bs) (\<lambda>(x, r). Inr (f x, r))"

fun decode_scalar_value :: "scalar_type \<Rightarrow> byte_order \<Rightarrow> (decode_error, scalar_value) decoder" where
  "decode_scalar_value TBoolean ord bs = map_dec (\<lambda>b. VBoolean (b \<noteq> 0)) get_u8 bs"
| "decode_scalar_value TByte ord bs = map_dec VByte get_i8 bs"
| "decode_scalar_value TUByte ord bs = map_dec VUByte get_u8 bs"
| "decode_scalar_value TShort ord bs = map_dec VShort (get_i16 ord) bs"
| "decode_scalar_value TUShort ord bs = map_dec VUShort (get_u16 ord) bs"
| "decode_scalar_value TInt ord bs = map_dec VInt (get_i32 ord) bs"
| "decode_scalar_value TUInt ord bs = map_dec VUInt (get_u32 ord) bs"
| "decode_scalar_value TLong ord bs = map_dec VLong (get_i64 ord) bs"
| "decode_scalar_value TULong ord bs = map_dec VULong (get_u64 ord) bs"
| "decode_scalar_value TFloat ord bs = map_dec VFloat (get_f32 ord) bs"
| "decode_scalar_value TDouble ord bs = map_dec VDouble (get_f64 ord) bs"
| "decode_scalar_value TString ord bs =
     map_dec (\<lambda>s. VString (unwrap_or_empty s)) (decode_string_value ord) bs"

section \<open>Scalar arrays\<close>

datatype typed_array =
    ABoolean "bool list" | AByte "byte list" | AUByte "byte list"
  | AShort "u16 list" | AUShort "u16 list" | AInt "u32 list" | AUInt "u32 list"
  | ALong "u64 list" | AULong "u64 list" | AFloat "u32 list" | ADouble "u64 list"
  | AString "byte list list"

text \<open>The memory image of a primitive on a host, and its image in a given byte order.\<close>

definition native_bytes :: "bool \<Rightarrow> nat \<Rightarrow> 'a::len word \<Rightarrow> byte list" where
  "native_bytes host_be n x = (if host_be then be_bytes n x else le_bytes n x)"

definition of_native_bytes :: "bool \<Rightarrow> byte list \<Rightarrow> 'a::len word" where
  "of_native_bytes host_be bs = (if host_be then of_be_bytes bs else of_le_bytes bs)"

definition swap_out :: "bool \<Rightarrow> nat \<Rightarrow> 'a::len word \<Rightarrow> byte list" where
  "swap_out wire_be n x = (if wire_be then be_bytes n x else le_bytes n x)"

definition swap_in :: "bool \<Rightarrow> byte list \<Rightarrow> 'a::len word" where
  "swap_in wire_be bs = (if wire_be then of_be_bytes bs else of_le_bytes bs)"

definition emit_pod ::
  "bool \<Rightarrow> nat \<Rightarrow> 'a::len word list \<Rightarrow> bool \<Rightarrow> ('a word \<Rightarrow> byte list) \<Rightarrow> byte list" where
  "emit_pod host_be n a same_endian swap =
     (if same_endian then concat (map (native_bytes host_be n) a) else concat (map swap a))"

definition encode_typed_scalar_array :: "bool \<Rightarrow> byte_order \<Rightarrow> typed_array \<Rightarrow> byte list" where
  "encode_typed_scalar_array host_be ord arr =
     (let wire_be = (ord = Big);
          same_endian = (host_be = wire_be)
      in case arr of
           ABoolean a \<Rightarrow> concat (map (\<lambda>b. put_u8 (if b then 1 else 0)) a)
         | AByte a \<Rightarrow> a
         | AUByte a \<Rightarrow> a
         | AShort a \<Rightarrow> emit_pod host_be 2 a same_endian (swap_out wire_be 2)
         | AUShort a \<Rightarrow> emit_pod host_be 2 a same_endian (swap_out wire_be 2)
         | AInt a \<Rightarrow> emit_pod host_be 4 a same_endian (swap_out wire_be 4)
         | AUInt a \<Rightarrow> emit_pod host_be 4 a same_endian (swap_out wire_be 4)
         | ALong a \<Rightarrow> emit_pod host_be 8 a same_endian (swap_out wire_be 8)
         | AULong a \<Rightarrow> emit_pod host_be 8 a same_endian (swap_out wire_be 8)
         | AFloat a \<Rightarrow> emit_pod host_be 4 a same_endian (swap_out wire_be 4)
         | ADouble a \<Rightarrow> emit_pod host_be 8 a same_endian (swap_out wire_be 8)
         | AString a \<Rightarrow> concat (map (\<lambda>s. encode_string_bytes_into s ord) a))"

text \<open>\<^verbatim>\<open>as_chunks\<close>: the first \<open>k\<close> pieces of \<open>n\<close> bytes.\<close>

primrec chunks :: "nat \<Rightarrow> nat \<Rightarrow> byte list \<Rightarrow> byte list list" where
  "chunks n 0 bs = []"
| "chunks n (Suc k) bs = take n bs # chunks n k (drop n bs)"

definition read_pod_array ::
  "bool \<Rightarrow> nat \<Rightarrow> nat \<Rightarrow> bool \<Rightarrow> (byte list \<Rightarrow> 'a::len word) \<Rightarrow> (decode_error, 'a word list) decoder" where
  "read_pod_array host_be sz n same_endian swap bs =
     (let nbytes = n * sz in
      if nbytes > usize_max then Inl ArraySizeOverflow
      else if nbytes > remaining bs then Inl (ArrayTooLong n nbytes (remaining bs))
      else and_then (get_bytes nbytes bs) (\<lambda>(raw, r).
        Inr (if same_endian then map (of_native_bytes host_be) (chunks sz n raw)
             else map swap (chunks sz n raw), r)))"

definition decode_typed_scalar_array ::
  "bool \<Rightarrow> scalar_type \<Rightarrow> nat \<Rightarrow> byte_order \<Rightarrow> (decode_error, typed_array option) decoder" where
  "decode_typed_scalar_array host_be st n ord bs =
     (let wire_be = (ord = Big);
          same_endian = (host_be = wire_be)
      in map_dec Some (case st of
           TBoolean \<Rightarrow> map_dec (\<lambda>raw. ABoolean (map (\<lambda>b. b \<noteq> 0) raw)) (get_bytes n)
         | TByte \<Rightarrow> map_dec AByte (get_bytes n)
         | TUByte \<Rightarrow> map_dec AUByte (get_bytes n)
         | TShort \<Rightarrow> map_dec AShort (read_pod_array host_be 2 n same_endian (swap_in wire_be))
         | TUShort \<Rightarrow> map_dec AUShort (read_pod_array host_be 2 n same_endian (swap_in wire_be))
         | TInt \<Rightarrow> map_dec AInt (read_pod_array host_be 4 n same_endian (swap_in wire_be))
         | TUInt \<Rightarrow> map_dec AUInt (read_pod_array host_be 4 n same_endian (swap_in wire_be))
         | TLong \<Rightarrow> map_dec ALong (read_pod_array host_be 8 n same_endian (swap_in wire_be))
         | TULong \<Rightarrow> map_dec AULong (read_pod_array host_be 8 n same_endian (swap_in wire_be))
         | TFloat \<Rightarrow> map_dec AFloat (read_pod_array host_be 4 n same_endian (swap_in wire_be))
         | TDouble \<Rightarrow> map_dec ADouble (read_pod_array host_be 8 n same_endian (swap_in wire_be))
         | TString \<Rightarrow> map_dec (\<lambda>ss. AString (map unwrap_or_empty ss)) (decode_n (decode_string_value ord) n)) bs)"

section \<open>Lemmas\<close>

fun array_values :: "typed_array \<Rightarrow> scalar_value list" where
  "array_values (ABoolean a) = map VBoolean a"
| "array_values (AByte a) = map VByte a"
| "array_values (AUByte a) = map VUByte a"
| "array_values (AShort a) = map VShort a"
| "array_values (AUShort a) = map VUShort a"
| "array_values (AInt a) = map VInt a"
| "array_values (AUInt a) = map VUInt a"
| "array_values (ALong a) = map VLong a"
| "array_values (AULong a) = map VULong a"
| "array_values (AFloat a) = map VFloat a"
| "array_values (ADouble a) = map VDouble a"
| "array_values (AString a) = map VString a"

fun array_type :: "typed_array \<Rightarrow> scalar_type" where
  "array_type (ABoolean _) = TBoolean"
| "array_type (AByte _) = TByte"
| "array_type (AUByte _) = TUByte"
| "array_type (AShort _) = TShort"
| "array_type (AUShort _) = TUShort"
| "array_type (AInt _) = TInt"
| "array_type (AUInt _) = TUInt"
| "array_type (ALong _) = TLong"
| "array_type (AULong _) = TULong"
| "array_type (AFloat _) = TFloat"
| "array_type (ADouble _) = TDouble"
| "array_type (AString _) = TString"

fun wire_value :: "scalar_value \<Rightarrow> bool" where
  "wire_value (VString s) = (length s < 2 ^ 32)"
| "wire_value _ = True"

lemma map_dec_Inr: "dec bs = Inr (x, r) \<Longrightarrow> map_dec f dec bs = Inr (f x, r)"
  by (simp add: map_dec_def)

lemma stream_map_dec [stream_intros]: "stream_decoder dec \<Longrightarrow> stream_decoder (map_dec f dec)"
  unfolding map_dec_def by (intro stream_intros)

lemma string_value_stream [stream_intros]: "stream_decoder (decode_string_value ord)"
  unfolding decode_string_value_def by (intro stream_intros)

lemma decode_string_value_encode:
  "length s < 2 ^ 32 \<Longrightarrow>
   decode_string_value ord (encode_string_bytes_into s ord @ rest) = Inr (Some s, rest)"
  by (simp add: decode_string_value_def wire_simps)

lemma scalar_value_stream [stream_intros]: "stream_decoder (decode_scalar_value st ord)"
  by (cases st; simp only: decode_scalar_value.simps [abs_def]; intro stream_intros)

lemma decode_encode_scalar:
  "wire_value v \<Longrightarrow>
   decode_scalar_value (scalar_type_of v) ord (encode_scalar_value ord v @ rest) = Inr (v, rest)"
  by (cases v) (simp_all add: map_dec_def wire_simps decode_string_value_encode unwrap_or_empty_def)

lemma emit_pod_eq: "emit_pod hb n a (hb = wb) (swap_out wb n) = concat (map (swap_out wb n) a)"
  by (auto simp: emit_pod_def native_bytes_def swap_out_def intro!: arg_cong [of _ _ concat])

lemma swap_out_put:
  "swap_out (ord = Big) 2 = (\<lambda>h. put_u16 h ord)" "swap_out (ord = Big) 4 = (\<lambda>w. put_u32 w ord)"
  "swap_out (ord = Big) 8 = (\<lambda>d. put_u64 d ord)"
  by (cases ord; simp add: fun_eq_iff swap_out_def put_defs)+

lemma signed_put:
  "put_i8 b = put_u8 b" "put_i16 h ord = put_u16 h ord" "put_i32 w ord = put_u32 w ord"
  "put_i64 d ord = put_u64 d ord" "put_f32 w ord = put_u32 w ord" "put_f64 d ord = put_u64 d ord"
  by (simp_all add: put_defs)

lemma encode_array_elementwise:
  "encode_typed_scalar_array hb ord arr = concat (map (encode_scalar_value ord) (array_values arr))"
proof -
  have single: "a = concat (map put_u8 a)" for a by (induction a) (auto simp: put_u8_def)
  show ?thesis
    by (cases arr)
      (simp_all add: encode_typed_scalar_array_def Let_def emit_pod_eq swap_out_put signed_put comp_def
        single [symmetric])
qed

lemma chunks_concat:
  "(\<And>x. length (f x) = n) \<Longrightarrow> chunks n (length a) (concat (map f a)) = map f a"
  by (induction a) auto

lemma swap_in_out: "LENGTH('a) = 8 * n \<Longrightarrow> swap_in wb (swap_out wb n (x :: 'a::len word)) = x"
  by (simp add: swap_in_def swap_out_def of_bytes_roundtrip)

lemma read_pod_array_eq:
  "read_pod_array hb n k (hb = wb) (swap_in wb) bs =
   (read_pod_array hb n k False (swap_in wb) bs :: decode_error + 'a::len word list \<times> byte list)"
proof -
  have "of_native_bytes hb = (swap_in wb :: byte list \<Rightarrow> 'a::len word)" if "hb = wb"
    using that by (auto simp: of_native_bytes_def swap_in_def)
  then show ?thesis by (cases "hb = wb") (simp_all add: read_pod_array_def Let_def)
qed

lemma length_swap_out [simp]: "length (swap_out wb n x) = n"
  by (simp add: swap_out_def)

lemma read_pod_emit:
  fixes a :: "'a::len word list"
  assumes "LENGTH('a) = 8 * n" "length a * n \<le> usize_max"
  shows "read_pod_array hb n (length a) (hb = wb) (swap_in wb) (concat (map (swap_out wb n) a) @ rest)
    = Inr (a, rest)"
proof -
  have len: "length (concat (map (swap_out wb n) a)) = length a * n"
    by (induction a) auto
  have "map (swap_in wb) (map (swap_out wb n) a) = a"
    using swap_in_out [OF assms(1)] by (induction a) auto
  then show ?thesis
    unfolding read_pod_array_eq
    using assms(2) get_bytes_append [of "concat (map (swap_out wb n) a)" rest]
      chunks_concat [of "swap_out wb n" n a]
    by (simp add: read_pod_array_def Let_def remaining_def len del: map_map)
qed

lemma decode_n_strings:
  "list_all (\<lambda>s. length s < 2 ^ 32) ss \<Longrightarrow>
   decode_n (decode_string_value ord) (length ss)
     (concat (map (\<lambda>s. encode_string_bytes_into s ord) ss) @ rest) = Inr (map Some ss, rest)"
  by (induction ss) (simp_all add: decode_string_value_encode)

lemma decode_encode_array:
  assumes "list_all wire_value (array_values arr)" "length (array_values arr) * 8 \<le> usize_max"
  shows "decode_typed_scalar_array hb (array_type arr) (length (array_values arr)) ord
      (encode_typed_scalar_array hb ord arr @ rest) = Inr (Some arr, rest)"
proof -
  have single: "concat (map (\<lambda>b. put_u8 (if b then 1 else 0)) a) = map (\<lambda>b. if b then 1 else 0) a" for a
    by (induction a) (auto simp: put_u8_def)
  have bool: "map (\<lambda>b. b \<noteq> 0) (map (\<lambda>b. if b then 1 else 0 :: byte) a) = a" for a
    by (induction a) auto
  note pod = emit_pod_eq read_pod_emit [where n = 2] read_pod_emit [where n = 4] read_pod_emit [where n = 8]
  show ?thesis
  proof (cases arr)
    case (ABoolean a)
    then show ?thesis
      using get_bytes_append [of "map (\<lambda>b. if b then 1 else 0 :: byte) a" rest] bool [of a]
      by (simp add: decode_typed_scalar_array_def encode_typed_scalar_array_def map_dec_def single
          del: map_map)
  next
    case (AString a)
    then show ?thesis
      using assms(1) decode_n_strings [of a ord rest]
      by (simp add: decode_typed_scalar_array_def encode_typed_scalar_array_def map_dec_def
          comp_def unwrap_or_empty_def list.pred_map)
  qed (use assms in \<open>simp_all add: decode_typed_scalar_array_def encode_typed_scalar_array_def Let_def
      map_dec_def pod get_bytes_append\<close>)
qed

end
