(* ===== verification/Pva_Value.thy ===== *)
theory Pva_Value
  imports Pva_TypeDesc_Correct Pva_Scalar
begin

text \<open>
  Values and their full wire form
  (\<^verbatim>\<open>epics-pva-rs/src/pvdata/{structure,value,convert,cpp_cast,encode}.rs\<close>).
  The encoder is driven by the descriptor: a value of another shape is
  coerced, defaulted or matched against a union member, so that the bytes are
  always those of the descriptor's type.  The decoder follows the descriptor
  under the nesting limit and threads the connection's type cache through the
  descriptors that values of type \<^verbatim>\<open>any\<close> carry.  Conversions that round
  or print floating-point numbers or parse text are the fields of
  \<open>conv_ops\<close>, an argument of the model.
\<close>

section \<open>Values (structure.rs)\<close>

datatype pv_field =
    PScalar scalar_value
  | PScalarArray "scalar_value list"
  | PScalarArrayTyped typed_array
  | PStructure pv_structure
  | PStructureArray "pv_structure option list"
  | PUnion int "byte list" pv_field
  | PUnionArray "union_item option list"
  | PVariant variant_value
  | PVariantArray "variant_value option list"
  | PNull
and pv_structure =
    PvStructure (ps_struct_id: "byte list") (ps_fields: "(byte list \<times> pv_field) list")
and union_item = UnionItem (ui_selector: int) (ui_name: "byte list") (ui_value: pv_field)
and variant_value = VariantValue (vv_desc: "field_desc option") (vv_value: pv_field)

type_synonym named_values = "(byte list \<times> pv_field) list"

definition get_field :: "pv_structure \<Rightarrow> byte list \<Rightarrow> pv_field option" where
  "get_field s name = map_option snd (find (\<lambda>(n, _). n = name) (ps_fields s))"

definition member_at :: "pv_structure \<Rightarrow> nat \<Rightarrow> byte list \<Rightarrow> pv_field option" where
  "member_at s i name =
     (if i < length (ps_fields s) \<and> fst (ps_fields s ! i) = name
      then Some (snd (ps_fields s ! i)) else get_field s name)"

text \<open>The values directly inside a value.\<close>

fun subvalues :: "pv_field \<Rightarrow> pv_field list" where
  "subvalues (PStructure s) = map snd (ps_fields s)"
| "subvalues (PStructureArray xs) =
     concat (map (\<lambda>x. case x of None \<Rightarrow> [] | Some s \<Rightarrow> map snd (ps_fields s)) xs)"
| "subvalues (PUnion _ _ v) = [v]"
| "subvalues (PUnionArray xs) =
     concat (map (\<lambda>x. case x of None \<Rightarrow> [] | Some it \<Rightarrow> [ui_value it]) xs)"
| "subvalues (PVariant vv) = [vv_value vv]"
| "subvalues (PVariantArray xs) =
     concat (map (\<lambda>x. case x of None \<Rightarrow> [] | Some vv \<Rightarrow> [vv_value vv]) xs)"
| "subvalues _ = []"

lemma size_member: "x \<in> set fs \<Longrightarrow> size (snd x) < size_list (size_prod (\<lambda>x. 0) size) fs"
  for fs :: named_values
  by (induction fs) auto

lemma size_present: "Some x \<in> set xs \<Longrightarrow> f x < size_list (size_option f) xs"
  by (induction xs) auto

lemma size_structure: "x \<in> set (ps_fields s) \<Longrightarrow> size (snd x) < size s"
  by (cases s) (auto dest: size_member)

lemma size_subvalue: "x \<in> set (subvalues v) \<Longrightarrow> size x < size v"
proof (cases v)
  case (PStructureArray xs)
  assume "x \<in> set (subvalues v)"
  then obtain s y where "Some s \<in> set xs" "y \<in> set (ps_fields s)" "x = snd y"
    by (auto simp: PStructureArray split: option.splits)
  then show ?thesis
    using size_present [of s xs size] size_structure [of y s] by (simp add: PStructureArray)
next
  case (PUnionArray xs)
  assume "x \<in> set (subvalues v)"
  then obtain it where "Some it \<in> set xs" "x = ui_value it"
    by (auto simp: PUnionArray split: option.splits)
  then show ?thesis
    using size_present [of it xs size] by (cases it) (simp add: PUnionArray)
next
  case (PVariantArray xs)
  assume "x \<in> set (subvalues v)"
  then obtain vv where "Some vv \<in> set xs" "x = vv_value vv"
    by (auto simp: PVariantArray split: option.splits)
  then show ?thesis
    using size_present [of vv xs size] by (cases vv) (simp add: PVariantArray)
next
  case (PStructure s)
  assume "x \<in> set (subvalues v)"
  then show ?thesis by (auto simp: PStructure dest: size_structure)
next
  case (PVariant vv)
  assume "x \<in> set (subvalues v)"
  then show ?thesis by (cases vv) (simp add: PVariant)
qed auto

lemma subvalue_size:
  "x \<in> snd ` set (ps_fields s) \<Longrightarrow> size x < size (PStructure s)"
  "Some s \<in> set items \<Longrightarrow> x \<in> snd ` set (ps_fields s) \<Longrightarrow> size x < size (PStructureArray items)"
  "size x < size (PUnion sel nm x)"
  "Some it \<in> set its \<Longrightarrow> size (ui_value it) < size (PUnionArray its)"
  "size (vv_value vv) < size (PVariant vv)"
  "Some vv \<in> set vvs \<Longrightarrow> size (vv_value vv) < size (PVariantArray vvs)"
  by (rule size_subvalue, force)+

section \<open>Scalar coercion (value.rs, convert.rs, cpp_cast.rs)\<close>

text \<open>
  A double as the integer casts see it: not a number, an infinity, or a
  finite number truncated towards zero.
\<close>

datatype f64_class = F64Nan | F64Inf bool | F64Trunc int

definition f64_classify :: "u64 \<Rightarrow> f64_class" where
  "f64_classify x =
     (let neg = bit x 63;
          e = unat (drop_bit 52 x AND 0x7FF);
          f = unat (take_bit 52 x)
      in if e = 2047 then (if f = 0 then F64Inf neg else F64Nan)
         else
           let m = (if e = 0 then f else f + 2 ^ 52);
               s = max e 1;
               mag = (if s \<ge> 1075 then m * 2 ^ (s - 1075) else m div 2 ^ (1075 - s))
           in F64Trunc (if neg then - int mag else int mag))"

text \<open>
  The range test on the double and the test on its integer part agree: no
  double lies strictly between \<open>- 2 ^ 63 - 1\<close> and \<open>- 2 ^ 63\<close>.
\<close>

definition trunc_to_i64 :: "int \<Rightarrow> u64" where
  "trunc_to_i64 t = (if - (2 ^ 63) \<le> t \<and> t < 2 ^ 63 then word_of_int t else 0x8000000000000000)"

definition double_to_i64 :: "u64 \<Rightarrow> u64" where
  "double_to_i64 x = (case f64_classify x of F64Trunc t \<Rightarrow> trunc_to_i64 t | _ \<Rightarrow> 0x8000000000000000)"

definition double_to_u64 :: "u64 \<Rightarrow> u64" where
  "double_to_u64 x =
     (case f64_classify x of
        F64Nan \<Rightarrow> 0x8000000000000000
      | F64Inf neg \<Rightarrow> if neg then 0x8000000000000000 else 0x8000000000000000 XOR push_bit 63 1
      | F64Trunc t \<Rightarrow>
          if t < 2 ^ 63 then trunc_to_i64 t else trunc_to_i64 (t - 2 ^ 63) XOR push_bit 63 1)"

record conv_ops =
  cv_f32_to_f64 :: "u32 \<Rightarrow> u64"
  cv_f64_to_f32 :: "u64 \<Rightarrow> u32"
  cv_i64_to_f64 :: "u64 \<Rightarrow> u64"
  cv_u64_to_f64 :: "u64 \<Rightarrow> u64"
  cv_render_real :: "u64 \<Rightarrow> byte list"
  cv_parse_to_i64 :: "byte list \<Rightarrow> u64 option"
  cv_parse_to_u64 :: "byte list \<Rightarrow> u64 option"
  cv_parse_to_f64 :: "byte list \<Rightarrow> u64 option"

definition true_text :: "byte list" where "true_text = [0x74, 0x72, 0x75, 0x65]"
definition false_text :: "byte list" where "false_text = [0x66, 0x61, 0x6C, 0x73, 0x65]"

fun scalar_from_str :: "conv_ops \<Rightarrow> scalar_type \<Rightarrow> byte list \<Rightarrow> scalar_value option" where
  "scalar_from_str cv TBoolean s =
     (if s = true_text then Some (VBoolean True)
      else if s = false_text then Some (VBoolean False) else None)"
| "scalar_from_str cv TByte s = map_option (\<lambda>x. VByte (ucast x)) (cv_parse_to_i64 cv s)"
| "scalar_from_str cv TShort s = map_option (\<lambda>x. VShort (ucast x)) (cv_parse_to_i64 cv s)"
| "scalar_from_str cv TInt s = map_option (\<lambda>x. VInt (ucast x)) (cv_parse_to_i64 cv s)"
| "scalar_from_str cv TLong s = map_option VLong (cv_parse_to_i64 cv s)"
| "scalar_from_str cv TUByte s = map_option (\<lambda>x. VUByte (ucast x)) (cv_parse_to_u64 cv s)"
| "scalar_from_str cv TUShort s = map_option (\<lambda>x. VUShort (ucast x)) (cv_parse_to_u64 cv s)"
| "scalar_from_str cv TUInt s = map_option (\<lambda>x. VUInt (ucast x)) (cv_parse_to_u64 cv s)"
| "scalar_from_str cv TULong s = map_option VULong (cv_parse_to_u64 cv s)"
| "scalar_from_str cv TFloat s = map_option (\<lambda>x. VFloat (cv_f64_to_f32 cv x)) (cv_parse_to_f64 cv s)"
| "scalar_from_str cv TDouble s = map_option VDouble (cv_parse_to_f64 cv s)"
| "scalar_from_str cv TString s = Some (VString s)"

datatype scalar_copy = CopyIn | CopyOut

text \<open>The four readings of a scalar; a string has been parsed before they are taken.\<close>

fun as_i64 :: "conv_ops \<Rightarrow> scalar_value \<Rightarrow> u64 option" where
  "as_i64 cv (VString _) = None"
| "as_i64 cv (VBoolean b) = Some (if b then 1 else 0)"
| "as_i64 cv (VByte x) = Some (scast x)"
| "as_i64 cv (VShort x) = Some (scast x)"
| "as_i64 cv (VInt x) = Some (scast x)"
| "as_i64 cv (VLong x) = Some x"
| "as_i64 cv (VUByte x) = Some (ucast x)"
| "as_i64 cv (VUShort x) = Some (ucast x)"
| "as_i64 cv (VUInt x) = Some (ucast x)"
| "as_i64 cv (VULong x) = Some x"
| "as_i64 cv (VFloat x) = Some (double_to_i64 (cv_f32_to_f64 cv x))"
| "as_i64 cv (VDouble x) = Some (double_to_i64 x)"

fun as_u64 :: "conv_ops \<Rightarrow> scalar_value \<Rightarrow> u64 option" where
  "as_u64 cv (VFloat x) = Some (double_to_u64 (cv_f32_to_f64 cv x))"
| "as_u64 cv (VDouble x) = Some (double_to_u64 x)"
| "as_u64 cv v = as_i64 cv v"

fun as_f64 :: "conv_ops \<Rightarrow> scalar_value \<Rightarrow> u64 option" where
  "as_f64 cv (VFloat x) = Some (cv_f32_to_f64 cv x)"
| "as_f64 cv (VDouble x) = Some x"
| "as_f64 cv (VULong x) = Some (cv_u64_to_f64 cv x)"
| "as_f64 cv v = map_option (cv_i64_to_f64 cv) (as_i64 cv v)"

definition int_text :: "int \<Rightarrow> byte list" where
  "int_text i = (if i < 0 then 0x2D # dec_digits (nat (- i)) else dec_digits (nat i))"

fun as_text :: "conv_ops \<Rightarrow> scalar_value \<Rightarrow> byte list" where
  "as_text cv (VBoolean b) = (if b then true_text else false_text)"
| "as_text cv (VByte x) = int_text (sint x)"
| "as_text cv (VShort x) = int_text (sint x)"
| "as_text cv (VInt x) = int_text (sint x)"
| "as_text cv (VLong x) = int_text (sint x)"
| "as_text cv (VUByte x) = int_text (uint x)"
| "as_text cv (VUShort x) = int_text (uint x)"
| "as_text cv (VUInt x) = int_text (uint x)"
| "as_text cv (VULong x) = int_text (uint x)"
| "as_text cv (VFloat x) = cv_render_real cv (cv_f32_to_f64 cv x)"
| "as_text cv (VDouble x) = cv_render_real cv x"
| "as_text cv (VString s) = utf8_lossy s"

definition as_bool :: "conv_ops \<Rightarrow> scalar_copy \<Rightarrow> scalar_value \<Rightarrow> bool option" where
  "as_bool cv side sv =
     (case sv of
        VFloat x \<Rightarrow> if side = CopyIn then None else Some (x AND 0x7FFFFFFF \<noteq> 0)
      | VDouble x \<Rightarrow> if side = CopyIn then None else Some (x AND 0x7FFFFFFFFFFFFFFF \<noteq> 0)
      | _ \<Rightarrow> map_option (\<lambda>i. i \<noteq> 0) (as_i64 cv sv))"

definition coerce_scalar_copy ::
  "conv_ops \<Rightarrow> scalar_copy \<Rightarrow> scalar_value \<Rightarrow> scalar_type \<Rightarrow> scalar_value option" where
  "coerce_scalar_copy cv side sv target =
     (case sv of
        VString s \<Rightarrow> scalar_from_str cv target (utf8_lossy s)
      | _ \<Rightarrow> (case target of
          TBoolean \<Rightarrow> map_option VBoolean (as_bool cv side sv)
        | TByte \<Rightarrow> map_option (\<lambda>x. VByte (ucast x)) (as_i64 cv sv)
        | TShort \<Rightarrow> map_option (\<lambda>x. VShort (ucast x)) (as_i64 cv sv)
        | TInt \<Rightarrow> map_option (\<lambda>x. VInt (ucast x)) (as_i64 cv sv)
        | TLong \<Rightarrow> map_option VLong (as_i64 cv sv)
        | TUByte \<Rightarrow> map_option (\<lambda>x. VUByte (ucast x)) (as_u64 cv sv)
        | TUShort \<Rightarrow> map_option (\<lambda>x. VUShort (ucast x)) (as_u64 cv sv)
        | TUInt \<Rightarrow> map_option (\<lambda>x. VUInt (ucast x)) (as_u64 cv sv)
        | TULong \<Rightarrow> map_option VULong (as_u64 cv sv)
        | TFloat \<Rightarrow> map_option (\<lambda>x. VFloat (cv_f64_to_f32 cv x)) (as_f64 cv sv)
        | TDouble \<Rightarrow> map_option VDouble (as_f64 cv sv)
        | TString \<Rightarrow> Some (VString (as_text cv sv))))"

fun zero_scalar :: "scalar_type \<Rightarrow> scalar_value" where
  "zero_scalar TBoolean = VBoolean False"
| "zero_scalar TByte = VByte 0"
| "zero_scalar TShort = VShort 0"
| "zero_scalar TInt = VInt 0"
| "zero_scalar TLong = VLong 0"
| "zero_scalar TUByte = VUByte 0"
| "zero_scalar TUShort = VUShort 0"
| "zero_scalar TUInt = VUInt 0"
| "zero_scalar TULong = VULong 0"
| "zero_scalar TFloat = VFloat 0"
| "zero_scalar TDouble = VDouble 0"
| "zero_scalar TString = VString []"

definition coerce_scalar :: "conv_ops \<Rightarrow> scalar_value \<Rightarrow> scalar_type \<Rightarrow> scalar_value" where
  "coerce_scalar cv v st =
     (if scalar_type_of v = st then v
      else (case coerce_scalar_copy cv CopyOut v st of
              None \<Rightarrow> zero_scalar st | Some w \<Rightarrow> w))"

section \<open>Defaults and recovered descriptors\<close>

fun default_value_for :: "field_desc \<Rightarrow> pv_field"
and default_members :: "named_fields \<Rightarrow> named_values" where
  "default_value_for (Scalar st) = PScalar (zero_scalar st)"
| "default_value_for (ScalarArray _) = PScalarArray []"
| "default_value_for (Structure sid (StructFields fs _)) = PStructure (PvStructure sid (default_members fs))"
| "default_value_for (StructureArray _ _) = PStructureArray []"
| "default_value_for (Union _ _) = PUnion (- 1) [] PNull"
| "default_value_for (UnionArray _ _) = PUnionArray []"
| "default_value_for Variant = PVariant (VariantValue None PNull)"
| "default_value_for VariantArray = PVariantArray []"
| "default_members [] = []"
| "default_members ((name, child) # fs) = (name, default_value_for child) # default_members fs"

text \<open>\<^verbatim>\<open>iter().flatten().next()\<close>.\<close>

fun first_present :: "'a option list \<Rightarrow> 'a option" where
  "first_present [] = None"
| "first_present (None # xs) = first_present xs"
| "first_present (Some x # xs) = Some x"

lemma first_present_in: "first_present xs = Some x \<Longrightarrow> Some x \<in> set xs"
  by (induction xs rule: first_present.induct) auto

function (sequential) wire_descriptor :: "pv_field \<Rightarrow> field_desc option"
and wire_member_descriptors :: "named_values \<Rightarrow> named_fields option" where
  "wire_descriptor (PScalar v) = Some (Scalar (scalar_type_of v))"
| "wire_descriptor (PScalarArray arr) =
     (case arr of [] \<Rightarrow> None | v # _ \<Rightarrow> Some (ScalarArray (scalar_type_of v)))"
| "wire_descriptor (PScalarArrayTyped arr) = Some (ScalarArray (array_type arr))"
| "wire_descriptor (PStructure s) =
     map_option (\<lambda>fs. Structure (ps_struct_id s) (struct_fields_from fs))
       (wire_member_descriptors (ps_fields s))"
| "wire_descriptor (PStructureArray arr) =
     (case first_present arr of
        None \<Rightarrow> None
      | Some s \<Rightarrow>
          map_option (\<lambda>fs. StructureArray (ps_struct_id s) (struct_fields_from fs))
            (wire_member_descriptors (ps_fields s)))"
| "wire_descriptor (PUnion _ _ _) = None"
| "wire_descriptor (PUnionArray _) = None"
| "wire_descriptor (PVariant v) = (case vv_desc v of Some _ \<Rightarrow> Some Variant | None \<Rightarrow> None)"
| "wire_descriptor (PVariantArray _) = Some VariantArray"
| "wire_descriptor PNull = None"
| "wire_member_descriptors [] = Some []"
| "wire_member_descriptors ((n, f) # fs) =
     (case wire_descriptor f of
        None \<Rightarrow> None
      | Some d \<Rightarrow> map_option (\<lambda>ds. (n, d) # ds) (wire_member_descriptors fs))"
  by pat_completeness auto
termination
proof (relation "measure (\<lambda>x. case x of
    Inl v \<Rightarrow> size v | Inr fs \<Rightarrow> size_list (size_prod (\<lambda>x. 0) size) fs)")
  fix s
  show "(Inr (ps_fields s), Inl (PStructure s)) \<in> measure (\<lambda>x. case x of
      Inl v \<Rightarrow> size v | Inr fs \<Rightarrow> size_list (size_prod (\<lambda>x. 0) size) fs)"
    by (cases s) simp
next
  fix arr and s :: pv_structure assume "first_present arr = Some s"
  then have "size s < size_list (size_option size) arr"
    by (intro size_present first_present_in)
  then show "(Inr (ps_fields s), Inl (PStructureArray arr)) \<in> measure (\<lambda>x. case x of
      Inl v \<Rightarrow> size v | Inr fs \<Rightarrow> size_list (size_prod (\<lambda>x. 0) size) fs)"
    by (cases s) simp
qed auto

definition value_fits_desc :: "pv_field \<Rightarrow> field_desc \<Rightarrow> bool" where
  "value_fits_desc value desc =
     (case desc of
        Scalar st \<Rightarrow> (case value of PScalar v \<Rightarrow> scalar_type_of v = st | _ \<Rightarrow> False)
      | ScalarArray st \<Rightarrow>
          (case value of
             PScalarArray items \<Rightarrow> list_all (\<lambda>v. scalar_type_of v = st) items
           | PScalarArrayTyped arr \<Rightarrow> array_type arr = st
           | _ \<Rightarrow> False)
      | Structure _ _ \<Rightarrow> (case value of PStructure _ \<Rightarrow> True | _ \<Rightarrow> False)
      | StructureArray _ _ \<Rightarrow> (case value of PStructureArray _ \<Rightarrow> True | _ \<Rightarrow> False)
      | Union _ _ \<Rightarrow> (case value of PUnion _ _ _ \<Rightarrow> True | _ \<Rightarrow> False)
      | UnionArray _ _ \<Rightarrow> (case value of PUnionArray _ \<Rightarrow> True | _ \<Rightarrow> False)
      | Variant \<Rightarrow> (case value of PVariant _ \<Rightarrow> True | _ \<Rightarrow> False)
      | VariantArray \<Rightarrow> (case value of PVariantArray _ \<Rightarrow> True | _ \<Rightarrow> False))"

text \<open>The index a union selector names, if any.\<close>

definition union_index :: "int \<Rightarrow> named_fields \<Rightarrow> nat option" where
  "union_index selector vs =
     (if 0 \<le> selector \<and> nat selector < length vs then Some (nat selector) else None)"

text \<open>\<^verbatim>\<open>iter().position\<close>.\<close>

fun position :: "('a \<Rightarrow> bool) \<Rightarrow> 'a list \<Rightarrow> nat option" where
  "position P [] = None"
| "position P (x # xs) = (if P x then Some 0 else map_option Suc (position P xs))"

lemma position_Some: "position P xs = Some i \<Longrightarrow> i < length xs \<and> P (xs ! i)"
  by (induction xs arbitrary: i) (auto split: if_splits)

section \<open>Encoder\<close>

text \<open>The loop over the descriptor's members, each with the value the structure holds for it.\<close>

definition encode_members_with ::
  "(pv_field \<Rightarrow> field_desc \<Rightarrow> byte list) \<Rightarrow> pv_structure \<Rightarrow> named_fields \<Rightarrow> byte list" where
  "encode_members_with enc s fs = concat (map (\<lambda>(i, name, child).
     case member_at s i name of
       Some v \<Rightarrow> enc v child
     | None \<Rightarrow> enc (default_value_for child) child) (List.enumerate 0 fs))"

lemma encode_members_cong [fundef_cong]:
  assumes "s = s'" "fs = fs'"
    and "\<And>i name child v. i < length fs' \<Longrightarrow> fs' ! i = (name, child) \<Longrightarrow>
      member_at s' i name = Some v \<or> v = default_value_for child \<and> member_at s' i name = None \<Longrightarrow>
      enc v child = enc' v child"
  shows "encode_members_with enc s fs = encode_members_with enc' s' fs'"
  unfolding encode_members_with_def assms(1,2)
  by (rule arg_cong [of _ _ concat], rule map_cong [OF refl])
    (auto simp: in_set_enumerate_eq intro!: assms(3) split: option.splits)

fun own_anys :: "pv_field \<Rightarrow> nat" where
  "own_anys (PVariant vv) = (if vv_desc vv = None then 0 else 1)"
| "own_anys (PVariantArray xs) =
     length (filter (\<lambda>x. case x of None \<Rightarrow> False | Some vv \<Rightarrow> vv_desc vv \<noteq> None) xs)"
| "own_anys _ = 0"

text \<open>The number of values of type \<^verbatim>\<open>any\<close> with a descriptor, anywhere in a value.\<close>

function any_count :: "pv_field \<Rightarrow> nat" where
  "any_count v = own_anys v + sum_list (map any_count (subvalues v))"
  by pat_completeness auto
termination
  by (relation "measure size") (simp_all add: size_subvalue)

declare any_count.simps [simp del]

lemma any_count_subvalue: "x \<in> set (subvalues v) \<Longrightarrow> own_anys v + any_count x \<le> any_count v"
  using member_le_sum_list [of "any_count x" "map any_count (subvalues v)"]
  by (subst (2) any_count.simps) simp

lemma any_count_leaf: "subvalues v = [] \<Longrightarrow> own_anys v = 0 \<Longrightarrow> any_count v = 0"
  by (simp add: any_count.simps)

lemma any_count_default: "any_count (default_value_for d) = 0"
  "x \<in> set (default_members fs) \<Longrightarrow> any_count (snd x) = 0"
  by (induction d and fs arbitrary: and x rule: default_value_for_default_members.induct)
    (auto simp: any_count_leaf any_count.simps [of "PStructure s" for s]
      any_count.simps [of "PUnion i n PNull" for i n] any_count.simps [of "PVariant vv" for vv])

lemma length_default_members [simp]: "length (default_members fs) = length fs"
  by (induction fs rule: list.induct) auto

lemma nth_default_members:
  "i < length fs \<Longrightarrow> default_members fs ! i = (fst (fs ! i), default_value_for (snd (fs ! i)))"
  by (induction fs arbitrary: i) (auto simp: nth_Cons' split: prod.splits)

lemma member_at_default:
  "i < length fs \<Longrightarrow> fs ! i = (name, child) \<Longrightarrow>
   member_at (PvStructure sid (default_members fs)) i name = Some (default_value_for child)"
  by (simp add: member_at_def nth_default_members)

lemma member_at_in: "member_at s i name = Some v \<Longrightarrow> v \<in> set (map snd (ps_fields s))"
proof -
  have "v \<in> set (map snd (ps_fields s))" if "get_field s name = Some v"
    using that by (auto simp: get_field_def find_Some_iff) (metis nth_mem snd_conv rev_image_eqI)
  moreover assume "member_at s i name = Some v"
  ultimately show ?thesis by (auto simp: member_at_def split: if_splits)
qed

lemma wire_descriptor_Variant: "wire_descriptor v = Some Variant \<Longrightarrow> \<exists>vv. v = PVariant vv"
  by (cases v) (auto split: option.splits list.splits)

definition enc_rank :: "pv_field \<Rightarrow> field_desc \<Rightarrow> nat" where
  "enc_rank v d =
     (if v = default_value_for d then 0
      else size v + (if d = Variant \<and> (\<forall>vv. v \<noteq> PVariant vv) then 2 else 1))"

lemma enc_rank_default [simp]: "enc_rank (default_value_for d) d = 0"
  by (simp add: enc_rank_def)

lemma enc_rank_subvalue:
  "x \<in> set (subvalues v) \<Longrightarrow> v \<noteq> default_value_for d \<Longrightarrow> enc_rank x c \<le> enc_rank v d"
  using size_subvalue [of x v] by (simp add: enc_rank_def)

text \<open>
  \<open>encode_pv_field\<close> holds the arms where the value has the descriptor's
  shape, \<open>encode_pv_field_generic\<close> the remaining pairs.
\<close>

function
  encode_pv_field :: "conv_ops \<Rightarrow> bool \<Rightarrow> byte_order \<Rightarrow> pv_field \<Rightarrow> field_desc \<Rightarrow> byte list"
and encode_pv_field_generic :: "conv_ops \<Rightarrow> bool \<Rightarrow> byte_order \<Rightarrow> pv_field \<Rightarrow> field_desc \<Rightarrow> byte list"
where
  "encode_pv_field cv hb ord value desc =
     (case desc of
        Scalar st \<Rightarrow>
          (case value of
             PScalar sv \<Rightarrow>
               if scalar_type_of sv = st then encode_scalar_value ord sv
               else encode_scalar_value ord (coerce_scalar cv sv st)
           | _ \<Rightarrow> encode_pv_field_generic cv hb ord value desc)
      | ScalarArray st \<Rightarrow>
          (case value of
             PScalarArrayTyped arr \<Rightarrow>
               if array_type arr = st then
                 encode_size_into (of_nat (length (array_values arr))) ord @
                 encode_typed_scalar_array hb ord arr
               else encode_pv_field_generic cv hb ord value desc
           | PScalarArray items \<Rightarrow>
               if list_all (\<lambda>v. scalar_type_of v = st) items then
                 encode_size_into (of_nat (length items)) ord @
                 concat (map (encode_scalar_value ord) items)
               else encode_pv_field_generic cv hb ord value desc
           | _ \<Rightarrow> encode_pv_field_generic cv hb ord value desc)
      | Structure sid sf \<Rightarrow>
          (case value of
             PStructure s \<Rightarrow> encode_members_with (encode_pv_field cv hb ord) s (sf_fields sf)
           | _ \<Rightarrow> encode_pv_field_generic cv hb ord value desc)
      | StructureArray sid sf \<Rightarrow>
          (case value of
             PStructureArray items \<Rightarrow>
               encode_size_into (of_nat (length items)) ord @
               concat (map (\<lambda>x. case x of
                   None \<Rightarrow> put_u8 0x00
                 | Some s \<Rightarrow>
                     put_u8 0x01 @ encode_members_with (encode_pv_field cv hb ord) s (sf_fields sf)) items)
           | _ \<Rightarrow> encode_pv_field_generic cv hb ord value desc)
      | Union sid vs \<Rightarrow>
          (case value of
             PUnion selector nm v \<Rightarrow>
               (case union_index selector vs of
                  Some idx \<Rightarrow>
                    encode_size_into (of_nat idx) ord @ encode_pv_field cv hb ord v (snd (vs ! idx))
                | None \<Rightarrow> put_u8 0xFF)
           | _ \<Rightarrow> encode_pv_field_generic cv hb ord value desc)
      | UnionArray sid vs \<Rightarrow>
          (case value of
             PUnionArray items \<Rightarrow>
               encode_size_into (of_nat (length items)) ord @
               concat (map (\<lambda>x. case x of
                   None \<Rightarrow> put_u8 0x00
                 | Some it \<Rightarrow>
                     (case union_index (ui_selector it) vs of
                        Some idx \<Rightarrow>
                          put_u8 0x01 @ encode_size_into (of_nat idx) ord @
                          encode_pv_field cv hb ord (ui_value it) (snd (vs ! idx))
                      | None \<Rightarrow> put_u8 0x00)) items)
           | _ \<Rightarrow> encode_pv_field_generic cv hb ord value desc)
      | Variant \<Rightarrow>
          (case value of
             PVariant v \<Rightarrow>
               (case vv_desc v of
                  None \<Rightarrow> put_u8 0xFF
                | Some d \<Rightarrow> encode_type_desc ord d @ encode_pv_field cv hb ord (vv_value v) d)
           | _ \<Rightarrow> encode_pv_field_generic cv hb ord value desc)
      | VariantArray \<Rightarrow>
          (case value of
             PVariantArray items \<Rightarrow>
               encode_size_into (of_nat (length items)) ord @
               concat (map (\<lambda>x. case x of
                   None \<Rightarrow> put_u8 0x00
                 | Some it \<Rightarrow>
                     (case vv_desc it of
                        Some d \<Rightarrow>
                          put_u8 0x01 @ encode_type_desc ord d @ encode_pv_field cv hb ord (vv_value it) d
                      | None \<Rightarrow> put_u8 0x00)) items)
           | _ \<Rightarrow> encode_pv_field_generic cv hb ord value desc))"
| "encode_pv_field_generic cv hb ord value desc =
     (case desc of
        Scalar st \<Rightarrow>
          encode_scalar_value ord
            (case value of PScalar v \<Rightarrow> coerce_scalar cv v st | _ \<Rightarrow> zero_scalar st)
      | ScalarArray st \<Rightarrow>
          (case value of
             PScalarArray items \<Rightarrow>
               encode_size_into (of_nat (length items)) ord @
               concat (map (\<lambda>v. encode_scalar_value ord (coerce_scalar cv v st)) items)
           | PScalarArrayTyped arr \<Rightarrow>
               (let items = array_values arr in
                encode_size_into (of_nat (length items)) ord @
                concat (map (\<lambda>v. encode_scalar_value ord (coerce_scalar cv v st)) items))
           | _ \<Rightarrow> encode_size_into 0 ord)
      | Structure sid sf \<Rightarrow>
          concat (map (\<lambda>(name, child). encode_pv_field cv hb ord (default_value_for child) child)
            (sf_fields sf))
      | StructureArray sid sf \<Rightarrow> encode_size_into 0 ord
      | Union sid vs \<Rightarrow>
          (case value of
             PNull \<Rightarrow> put_u8 0xFF
           | _ \<Rightarrow>
               (case position (\<lambda>c. value_fits_desc value (snd c)) vs of
                  Some idx \<Rightarrow>
                    encode_size_into (of_nat idx) ord @ encode_pv_field cv hb ord value (snd (vs ! idx))
                | None \<Rightarrow> put_u8 0xFF))
      | UnionArray sid vs \<Rightarrow> encode_size_into 0 ord
      | Variant \<Rightarrow>
          (case value of
             PNull \<Rightarrow> put_u8 0xFF
           | _ \<Rightarrow>
               (case wire_descriptor value of
                  Some d \<Rightarrow> encode_type_desc ord d @ encode_pv_field cv hb ord value d
                | None \<Rightarrow> put_u8 0xFF))
      | VariantArray \<Rightarrow> encode_size_into 0 ord)"
  by pat_completeness auto

definition enc_measure ::
  "(conv_ops \<times> bool \<times> byte_order \<times> pv_field \<times> field_desc) +
   (conv_ops \<times> bool \<times> byte_order \<times> pv_field \<times> field_desc) \<Rightarrow> nat \<times> nat \<times> nat \<times> nat" where
  "enc_measure x = (case x of
     Inl (cv, hb, ord, v, d) \<Rightarrow>
       (any_count v, enc_rank v d, size d, if d = Variant \<and> (\<exists>vv. v = PVariant vv) then 0 else 2)
   | Inr (cv, hb, ord, v, d) \<Rightarrow> (any_count v, enc_rank v d, size d, 1))"

definition enc_order where
  "enc_order = inv_image (less_than <*lex*> less_than <*lex*> less_than <*lex*> less_than) enc_measure"

lemma wf_enc_order: "wf enc_order"
  unfolding enc_order_def by (intro wf_inv_image wf_lex_prod wf_less_than)

lemma enc_orderI:
  "any_count v' \<le> any_count v \<Longrightarrow> enc_rank v' d' \<le> enc_rank v d \<Longrightarrow> size d' < size d \<Longrightarrow>
     (Inl (cv, hb, ord, v', d'), Inl (cv, hb, ord, v, d)) \<in> enc_order"
  "any_count v' \<le> any_count v \<Longrightarrow> enc_rank v' d' \<le> enc_rank v d \<Longrightarrow> size d' < size d \<Longrightarrow>
     (Inl (cv, hb, ord, v', d'), Inr (cv, hb, ord, v, d)) \<in> enc_order"
  "any_count v' < any_count v \<Longrightarrow> (Inl (cv, hb, ord, v', d'), Inl (cv, hb, ord, v, d)) \<in> enc_order"
  "d \<noteq> Variant \<or> (\<forall>vv. v \<noteq> PVariant vv) \<Longrightarrow>
     (Inr (cv, hb, ord, v, d), Inl (cv, hb, ord, v, d)) \<in> enc_order"
  "enc_rank v d' < enc_rank v d \<Longrightarrow> (Inl (cv, hb, ord, v, d'), Inr (cv, hb, ord, v, d)) \<in> enc_order"
  by (auto simp: enc_order_def enc_measure_def)

lemma enc_order_member:
  assumes "i < length (sf_fields sf)" "sf_fields sf ! i = (name, child)"
    "member_at s i name = Some v \<or> v = default_value_for child \<and> member_at s i name = None"
  shows "(Inl (cv, hb, ord, v, child), Inl (cv, hb, ord, PStructure s, Structure sid sf)) \<in> enc_order"
    "Some s \<in> set items \<Longrightarrow>
     (Inl (cv, hb, ord, v, child), Inl (cv, hb, ord, PStructureArray items, StructureArray sid sf)) \<in> enc_order"
proof -
  obtain fs n where sf: "sf = StructFields fs n" by (cases sf)
  have size: "size child < size (Structure sid sf)" "size child < size (StructureArray sid sf)"
    using assms(1,2) nth_mem [of i fs] size_child [of "fs ! i" "Structure sid sf"] by (auto simp: sf)
  have sub: "v \<in> set (subvalues (PStructure s)) \<or> v = default_value_for child"
    using assms(3) member_at_in by auto
  have rank: "enc_rank v child \<le> enc_rank (PStructure s) (Structure sid sf)"
  proof (cases "PStructure s = default_value_for (Structure sid sf)")
    case True
    then have "v = default_value_for child"
      using assms by (auto simp: sf member_at_default)
    then show ?thesis by simp
  next
    case False
    then show ?thesis using sub enc_rank_subvalue [of v "PStructure s"] by auto
  qed
  have "any_count v \<le> any_count (PStructure s)"
    using sub any_count_subvalue [of v "PStructure s"] by (auto simp: any_count_default)
  with rank size(1)
  show "(Inl (cv, hb, ord, v, child), Inl (cv, hb, ord, PStructure s, Structure sid sf)) \<in> enc_order"
    by (intro enc_orderI)
  assume item: "Some s \<in> set items"
  then have sub: "v \<in> set (subvalues (PStructureArray items)) \<or> v = default_value_for child"
    using sub by force
  have "PStructureArray items \<noteq> default_value_for (StructureArray sid sf)"
    using item by auto
  then have "enc_rank v child \<le> enc_rank (PStructureArray items) (StructureArray sid sf)"
    using sub enc_rank_subvalue [of v "PStructureArray items"] enc_rank_default [of child] by (metis le0)
  moreover have "any_count v \<le> any_count (PStructureArray items)"
    using sub any_count_subvalue [of v "PStructureArray items"] by (auto simp: any_count_default)
  ultimately show
    "(Inl (cv, hb, ord, v, child), Inl (cv, hb, ord, PStructureArray items, StructureArray sid sf)) \<in> enc_order"
    using size(2) by (intro enc_orderI)
qed

lemma size_union_member:
  "i < length vs \<Longrightarrow> size (snd (vs ! i)) < size (Union sid vs)"
  "i < length vs \<Longrightarrow> size (snd (vs ! i)) < size (UnionArray sid vs)"
  using size_child [of "vs ! i" "Union sid vs"] by simp_all

lemma enc_order_union:
  "union_index sel vs = Some i \<Longrightarrow>
     (Inl (cv, hb, ord, v, snd (vs ! i)), Inl (cv, hb, ord, PUnion sel nm v, Union sid vs)) \<in> enc_order"
  "Some it \<in> set items \<Longrightarrow> union_index (ui_selector it) vs = Some i \<Longrightarrow>
     (Inl (cv, hb, ord, ui_value it, snd (vs ! i)), Inl (cv, hb, ord, PUnionArray items, UnionArray sid vs))
       \<in> enc_order"
  "position (\<lambda>c. value_fits_desc v (snd c)) vs = Some i \<Longrightarrow>
     (Inl (cv, hb, ord, v, snd (vs ! i)), Inr (cv, hb, ord, v, Union sid vs)) \<in> enc_order"
proof -
  assume "union_index sel vs = Some i"
  then have i: "i < length vs" "0 \<le> sel" by (auto simp: union_index_def split: if_splits)
  then have "enc_rank v (snd (vs ! i)) \<le> enc_rank (PUnion sel nm v) (Union sid vs)"
    using enc_rank_subvalue [of v "PUnion sel nm v" "Union sid vs"] by simp
  with i show "(Inl (cv, hb, ord, v, snd (vs ! i)), Inl (cv, hb, ord, PUnion sel nm v, Union sid vs)) \<in> enc_order"
    using any_count_subvalue [of v "PUnion sel nm v"] by (intro enc_orderI size_union_member) auto
next
  assume it: "Some it \<in> set items" and "union_index (ui_selector it) vs = Some i"
  then have i: "i < length vs" by (auto simp: union_index_def split: if_splits)
  have sub: "ui_value it \<in> set (subvalues (PUnionArray items))" using it by force
  moreover have "items \<noteq> []" using it by auto
  ultimately have "enc_rank (ui_value it) (snd (vs ! i)) \<le> enc_rank (PUnionArray items) (UnionArray sid vs)"
    by (intro enc_rank_subvalue) auto
  with i sub show "(Inl (cv, hb, ord, ui_value it, snd (vs ! i)),
      Inl (cv, hb, ord, PUnionArray items, UnionArray sid vs)) \<in> enc_order"
    using any_count_subvalue [of "ui_value it" "PUnionArray items"]
    by (intro enc_orderI size_union_member) auto
next
  assume "position (\<lambda>c. value_fits_desc v (snd c)) vs = Some i"
  then have i: "i < length vs" and fits: "value_fits_desc v (snd (vs ! i))"
    using position_Some by fastforce+
  have "enc_rank v (snd (vs ! i)) \<le> enc_rank v (Union sid vs)"
    using fits by (auto simp: enc_rank_def value_fits_desc_def split: field_desc.splits pv_field.splits)
  with i show "(Inl (cv, hb, ord, v, snd (vs ! i)), Inr (cv, hb, ord, v, Union sid vs)) \<in> enc_order"
    by (intro enc_orderI size_union_member) auto
qed

lemma enc_order_any:
  "vv_desc vv = Some d \<Longrightarrow>
     (Inl (cv, hb, ord, vv_value vv, d), Inl (cv, hb, ord, PVariant vv, Variant)) \<in> enc_order"
  "Some vv \<in> set items \<Longrightarrow> vv_desc vv = Some d \<Longrightarrow>
     (Inl (cv, hb, ord, vv_value vv, d), Inl (cv, hb, ord, PVariantArray items, VariantArray)) \<in> enc_order"
  "wire_descriptor v = Some d \<Longrightarrow> (Inl (cv, hb, ord, v, d), Inr (cv, hb, ord, v, Variant)) \<in> enc_order"
proof -
  assume "vv_desc vv = Some d"
  then show "(Inl (cv, hb, ord, vv_value vv, d), Inl (cv, hb, ord, PVariant vv, Variant)) \<in> enc_order"
    using any_count_subvalue [of "vv_value vv" "PVariant vv"] by (intro enc_orderI) simp
next
  assume vv: "Some vv \<in> set items" "vv_desc vv = Some d"
  then have "Some vv \<in> set (filter (\<lambda>x. case x of None \<Rightarrow> False | Some vv \<Rightarrow> vv_desc vv \<noteq> None) items)"
    by simp
  then have "0 < own_anys (PVariantArray items)"
    unfolding own_anys.simps by (rule length_pos_if_in_set)
  moreover have "vv_value vv \<in> set (subvalues (PVariantArray items))" using vv by force
  ultimately show
    "(Inl (cv, hb, ord, vv_value vv, d), Inl (cv, hb, ord, PVariantArray items, VariantArray)) \<in> enc_order"
    using any_count_subvalue [of "vv_value vv" "PVariantArray items"]
    by (intro enc_orderI(3)) (simp del: own_anys.simps subvalues.simps)
next
  assume wd: "wire_descriptor v = Some d"
  show "(Inl (cv, hb, ord, v, d), Inr (cv, hb, ord, v, Variant)) \<in> enc_order"
  proof (cases "\<exists>vv. v = PVariant vv")
    case True
    then have "d = Variant" using wd by (auto split: option.splits)
    with True show ?thesis by (auto simp: enc_order_def enc_measure_def)
  next
    case False
    then have "v \<noteq> default_value_for Variant" "d \<noteq> Variant"
      using wd wire_descriptor_Variant by auto
    with False show ?thesis by (intro enc_orderI) (auto simp: enc_rank_def)
  qed
qed

lemma enc_order_default:
  assumes "(name, child) \<in> set (sf_fields sf)"
  shows "(Inl (cv, hb, ord, default_value_for child, child), Inr (cv, hb, ord, v, Structure sid sf)) \<in> enc_order"
  using assms size_child [of "(name, child)" "Structure sid sf"]
  by (cases sf) (auto simp: any_count_default intro!: enc_orderI)

termination encode_pv_field
  by (relation enc_order)
    (auto simp: wf_enc_order intro: enc_orderI enc_order_member enc_order_union enc_order_any
      enc_order_default)

declare encode_pv_field.simps [simp del] encode_pv_field_generic.simps [simp del]

section \<open>Decoder\<close>

text \<open>
  \<open>decode_value_at\<close> is \<^verbatim>\<open>decode_pv_field_at_depth\<close>; the other functions are
  its loops over the members of a structure and over the elements of the
  three compound arrays, with what has been read so far.
\<close>

function
  decode_value_at ::
    "bool \<Rightarrow> byte_order \<Rightarrow> nat \<Rightarrow> field_desc \<Rightarrow> type_cache \<Rightarrow> byte list \<Rightarrow>
       (decode_error + pv_field \<times> byte list) \<times> type_cache"
and decode_members_at ::
    "bool \<Rightarrow> byte_order \<Rightarrow> nat \<Rightarrow> named_fields \<Rightarrow> named_values \<Rightarrow> type_cache \<Rightarrow> byte list \<Rightarrow>
       (decode_error + named_values \<times> byte list) \<times> type_cache"
and decode_structs_at ::
    "bool \<Rightarrow> byte_order \<Rightarrow> nat \<Rightarrow> field_desc \<Rightarrow> nat \<Rightarrow> pv_structure option list \<Rightarrow> type_cache \<Rightarrow>
       byte list \<Rightarrow> (decode_error + pv_structure option list \<times> byte list) \<times> type_cache"
and decode_unions_at ::
    "bool \<Rightarrow> byte_order \<Rightarrow> nat \<Rightarrow> named_fields \<Rightarrow> nat \<Rightarrow> union_item option list \<Rightarrow> type_cache \<Rightarrow>
       byte list \<Rightarrow> (decode_error + union_item option list \<times> byte list) \<times> type_cache"
and decode_anys_at ::
    "bool \<Rightarrow> byte_order \<Rightarrow> nat \<Rightarrow> nat \<Rightarrow> variant_value option list \<Rightarrow> type_cache \<Rightarrow>
       byte list \<Rightarrow> (decode_error + variant_value option list \<times> byte list) \<times> type_cache"
where
  "decode_value_at hb ord depth desc cache bs =
     (if depth > MAX_FIELD_DEPTH then (Inl ValueNestingTooDeep, cache) else
      case desc of
        Scalar st \<Rightarrow>
          and_then_st (decode_scalar_value st ord bs, cache) (\<lambda>(v, bs) cache. (Inr (PScalar v, bs), cache))
      | ScalarArray st \<Rightarrow>
          and_then_st (decode_size_nonnull ''scalar array length'' ord bs, cache) (\<lambda>(n, bs) cache.
          and_then_st (decode_typed_scalar_array hb st (unat n) ord bs, cache) (\<lambda>(typed, bs) cache.
          case typed of
            Some arr \<Rightarrow> (Inr (PScalarArrayTyped arr, bs), cache)
          | None \<Rightarrow>
              and_then_st (decode_n (decode_scalar_value st ord) (unat n) bs, cache) (\<lambda>(items, bs) cache.
              (Inr (PScalarArray items, bs), cache))))
      | Structure sid sf \<Rightarrow>
          and_then_st (decode_members_at hb ord (depth + 1) (sf_fields sf) [] cache bs) (\<lambda>(ms, bs) cache.
          (Inr (PStructure (PvStructure sid ms), bs), cache))
      | StructureArray sid sf \<Rightarrow>
          and_then_st (decode_size_nonnull ''structure array length'' ord bs, cache) (\<lambda>(n, bs) cache.
          and_then_st (decode_structs_at hb ord (depth + 1) (Structure sid sf) (unat n) [] cache bs)
            (\<lambda>(items, bs) cache. (Inr (PStructureArray items, bs), cache)))
      | Union sid vs \<Rightarrow>
          and_then_st (decode_size ord bs, cache) (\<lambda>(size, bs) cache.
          case size of
            None \<Rightarrow> (Inr (PUnion (- 1) [] PNull, bs), cache)
          | Some sel \<Rightarrow>
              (case union_index (sint sel) vs of
                 None \<Rightarrow> (Inl (SelectorOutOfRange sel), cache)
               | Some i \<Rightarrow>
                   and_then_st (decode_value_at hb ord (depth + 1) (snd (vs ! i)) cache bs) (\<lambda>(v, bs) cache.
                   (Inr (PUnion (sint sel) (fst (vs ! i)) v, bs), cache))))
      | UnionArray sid vs \<Rightarrow>
          and_then_st (decode_size_nonnull ''union array length'' ord bs, cache) (\<lambda>(n, bs) cache.
          and_then_st (decode_unions_at hb ord (depth + 1) vs (unat n) [] cache bs)
            (\<lambda>(items, bs) cache. (Inr (PUnionArray items, bs), cache)))
      | Variant \<Rightarrow>
          and_then_st (get_u8 bs, cache) (\<lambda>(peek, bs') cache.
          if peek = 0xFF then (Inr (PVariant (VariantValue None PNull), bs'), cache)
          else
            and_then_st (decode_type_desc_cached ord cache bs) (\<lambda>(inner, bs) cache.
            and_then_st (decode_value_at hb ord (depth + 1) inner cache bs) (\<lambda>(v, bs) cache.
            (Inr (PVariant (VariantValue (Some inner) v), bs), cache))))
      | VariantArray \<Rightarrow>
          and_then_st (decode_size_nonnull ''variant array length'' ord bs, cache) (\<lambda>(n, bs) cache.
          and_then_st (decode_anys_at hb ord (depth + 1) (unat n) [] cache bs)
            (\<lambda>(items, bs) cache. (Inr (PVariantArray items, bs), cache))))"
| "decode_members_at hb ord depth fs acc cache bs =
     (case fs of
        [] \<Rightarrow> (Inr (acc, bs), cache)
      | (name, child) # fs' \<Rightarrow>
          and_then_st (decode_value_at hb ord depth child cache bs) (\<lambda>(v, bs) cache.
          decode_members_at hb ord depth fs' (acc @ [(name, v)]) cache bs))"
| "decode_structs_at hb ord depth element n acc cache bs =
     (if n = 0 then (Inr (acc, bs), cache) else
      and_then_st (get_u8 bs, cache) (\<lambda>(presence, bs) cache.
      if presence = 0x00 then decode_structs_at hb ord depth element (n - 1) (acc @ [None]) cache bs
      else if presence = 0x01 then
        and_then_st (decode_value_at hb ord depth element cache bs) (\<lambda>(v, bs) cache.
        decode_structs_at hb ord depth element (n - 1)
          (case v of PStructure s \<Rightarrow> acc @ [Some s] | _ \<Rightarrow> acc) cache bs)
      else (Inl (BadPresence presence), cache)))"
| "decode_unions_at hb ord depth vs n acc cache bs =
     (if n = 0 then (Inr (acc, bs), cache) else
      and_then_st (get_u8 bs, cache) (\<lambda>(presence, bs) cache.
      if presence = 0x00 then decode_unions_at hb ord depth vs (n - 1) (acc @ [None]) cache bs
      else if presence = 0x01 then
        and_then_st (decode_size ord bs, cache) (\<lambda>(size, bs) cache.
        case size of
          None \<Rightarrow> decode_unions_at hb ord depth vs (n - 1) (acc @ [None]) cache bs
        | Some sel \<Rightarrow>
            (case union_index (sint sel) vs of
               None \<Rightarrow> (Inl (SelectorOutOfRange sel), cache)
             | Some i \<Rightarrow>
                 and_then_st (decode_value_at hb ord depth (snd (vs ! i)) cache bs) (\<lambda>(v, bs) cache.
                 decode_unions_at hb ord depth vs (n - 1)
                   (acc @ [Some (UnionItem (sint sel) (fst (vs ! i)) v)]) cache bs)))
      else (Inl (BadPresence presence), cache)))"
| "decode_anys_at hb ord depth n acc cache bs =
     (if n = 0 then (Inr (acc, bs), cache) else
      and_then_st (get_u8 bs, cache) (\<lambda>(presence, bs) cache.
      if presence = 0x00 then decode_anys_at hb ord depth (n - 1) (acc @ [None]) cache bs
      else if presence = 0x01 then
        and_then_st (get_u8 bs, cache) (\<lambda>(peek, bs') cache.
        if peek = 0xFF then decode_anys_at hb ord depth (n - 1) (acc @ [None]) cache bs'
        else
          and_then_st (decode_type_desc_cached ord cache bs) (\<lambda>(inner, bs) cache.
          and_then_st (decode_value_at hb ord depth inner cache bs) (\<lambda>(v, bs) cache.
          decode_anys_at hb ord depth (n - 1) (acc @ [Some (VariantValue (Some inner) v)]) cache bs)))
      else (Inl (BadPresence presence), cache)))"
  by pat_completeness auto
termination
  by (relation "inv_image (less_than <*lex*> less_than <*lex*> less_than) (\<lambda>x. case x of
      Inl (Inl (_, _, d, _, _, _)) \<Rightarrow> (22 - d, 0, 0)
    | Inl (Inr (_, _, d, fs, _, _, _)) \<Rightarrow> (22 - d, 1, length fs)
    | Inr (Inl (_, _, d, _, n, _, _, _)) \<Rightarrow> (22 - d, 1, n)
    | Inr (Inr (Inl (_, _, d, _, n, _, _, _))) \<Rightarrow> (22 - d, 1, n)
    | Inr (Inr (Inr (_, _, d, n, _, _, _))) \<Rightarrow> (22 - d, 1, n))")
    (auto simp: MAX_FIELD_DEPTH_def)

declare decode_value_at.simps [simp del] decode_members_at.simps [simp del] decode_structs_at.simps [simp del]
  decode_unions_at.simps [simp del] decode_anys_at.simps [simp del]

definition decode_pv_field_cached ::
  "bool \<Rightarrow> byte_order \<Rightarrow> field_desc \<Rightarrow> type_cache \<Rightarrow> byte list \<Rightarrow>
     (decode_error + pv_field \<times> byte list) \<times> type_cache" where
  "decode_pv_field_cached hb ord desc cache bs = decode_value_at hb ord 0 desc cache bs"

definition decode_pv_field :: "bool \<Rightarrow> byte_order \<Rightarrow> field_desc \<Rightarrow> (decode_error, pv_field) decoder" where
  "decode_pv_field hb ord desc bs = fst (decode_value_at hb ord 0 desc Map.empty bs)"

end
