(* ===== verification/Pva_Value_Correct.thy ===== *)
theory Pva_Value_Correct
  imports Pva_Value
begin

text \<open>
  Correctness of the value codec.  \<open>has_type\<close> is the shape a value of a
  descriptor's type has after decoding.  Every value the decoder returns has
  it; the encoder's bytes for a value that has it decode to that value; and
  the encoder's bytes for any value at all are those of some value that has
  it.
\<close>

section \<open>Well-typed values\<close>

definition members_typed ::
  "(field_desc \<Rightarrow> pv_field \<Rightarrow> bool) \<Rightarrow> named_fields \<Rightarrow> named_values \<Rightarrow> bool" where
  "members_typed P fs ms = list_all2 (\<lambda>(n, c) (m, x). n = m \<and> P c x) fs ms"

lemma members_typed_cong [fundef_cong]:
  assumes "fs = fs'" "ms = ms'" "\<And>c x. x \<in> snd ` set ms' \<Longrightarrow> P c x = Q c x"
  shows "members_typed P fs ms = members_typed Q fs' ms'"
  unfolding members_typed_def assms(1,2)
  by (rule list.rel_cong [OF refl refl]) (use assms(3) in force)

function typed :: "(field_desc \<Rightarrow> bool) \<Rightarrow> field_desc \<Rightarrow> pv_field \<Rightarrow> bool" where
  "typed ok d v =
     (case d of
        Scalar st \<Rightarrow> (case v of PScalar sv \<Rightarrow> scalar_type_of sv = st | _ \<Rightarrow> False)
      | ScalarArray st \<Rightarrow> (case v of PScalarArrayTyped arr \<Rightarrow> array_type arr = st | _ \<Rightarrow> False)
      | Structure sid sf \<Rightarrow>
          (case v of
             PStructure s \<Rightarrow> ps_struct_id s = sid \<and> members_typed (typed ok) (sf_fields sf) (ps_fields s)
           | _ \<Rightarrow> False)
      | StructureArray sid sf \<Rightarrow>
          (case v of
             PStructureArray items \<Rightarrow>
               (\<forall>x \<in> set items. case x of
                  None \<Rightarrow> True
                | Some s \<Rightarrow> ps_struct_id s = sid \<and> members_typed (typed ok) (sf_fields sf) (ps_fields s))
           | _ \<Rightarrow> False)
      | Union sid vs \<Rightarrow>
          (case v of
             PUnion sel nm x \<Rightarrow>
               (case union_index sel vs of
                  None \<Rightarrow> sel = - 1 \<and> nm = [] \<and> x = PNull
                | Some i \<Rightarrow> nm = fst (vs ! i) \<and> typed ok (snd (vs ! i)) x)
           | _ \<Rightarrow> False)
      | UnionArray sid vs \<Rightarrow>
          (case v of
             PUnionArray items \<Rightarrow>
               (\<forall>x \<in> set items. case x of
                  None \<Rightarrow> True
                | Some it \<Rightarrow>
                    (case union_index (ui_selector it) vs of
                       None \<Rightarrow> False
                     | Some i \<Rightarrow> ui_name it = fst (vs ! i) \<and> typed ok (snd (vs ! i)) (ui_value it)))
           | _ \<Rightarrow> False)
      | Variant \<Rightarrow>
          (case v of
             PVariant vv \<Rightarrow>
               (case vv_desc vv of
                  None \<Rightarrow> vv_value vv = PNull
                | Some inner \<Rightarrow> ok inner \<and> typed ok inner (vv_value vv))
           | _ \<Rightarrow> False)
      | VariantArray \<Rightarrow>
          (case v of
             PVariantArray items \<Rightarrow>
               (\<forall>x \<in> set items. case x of
                  None \<Rightarrow> True
                | Some vv \<Rightarrow>
                    (case vv_desc vv of
                       None \<Rightarrow> False
                     | Some inner \<Rightarrow> ok inner \<and> typed ok inner (vv_value vv)))
           | _ \<Rightarrow> False))"
  by pat_completeness auto
termination
  by (relation "measure (\<lambda>(_, _, v). size v)", rule wf_measure)
    (hypsubst, unfold in_measure prod.case, rule subvalue_size; simp)+

declare typed.simps [simp del]

abbreviation has_type :: "field_desc \<Rightarrow> pv_field \<Rightarrow> bool" where
  "has_type \<equiv> typed desc_bounded"

lemma has_type_PNull [simp]: "\<not> typed ok d PNull"
  by (simp add: typed.simps split: field_desc.splits)

section \<open>The nesting a value costs\<close>

definition max_of :: "('a \<Rightarrow> nat) \<Rightarrow> 'a list \<Rightarrow> nat" where
  "max_of f xs = foldr (\<lambda>x. max (f x)) xs 0"

lemma max_of_cong [fundef_cong]:
  "xs = ys \<Longrightarrow> (\<And>x. x \<in> set ys \<Longrightarrow> f x = g x) \<Longrightarrow> max_of f xs = max_of g ys"
  unfolding max_of_def by (rule foldr_cong) auto

lemma max_of_le [simp]: "max_of f xs \<le> k \<longleftrightarrow> (\<forall>x \<in> set xs. f x \<le> k)"
  by (induction xs) (auto simp: max_of_def)

function value_depth :: "pv_field \<Rightarrow> nat" where
  "value_depth v =
     (case v of
        PStructure s \<Rightarrow> max_of (\<lambda>x. Suc (value_depth x)) (map snd (ps_fields s))
      | PStructureArray items \<Rightarrow>
          max_of (\<lambda>x. case x of
              None \<Rightarrow> 0
            | Some s \<Rightarrow> Suc (max_of (\<lambda>x. Suc (value_depth x)) (map snd (ps_fields s)))) items
      | PUnion _ _ x \<Rightarrow> if x = PNull then 0 else Suc (value_depth x)
      | PUnionArray items \<Rightarrow>
          max_of (\<lambda>x. case x of None \<Rightarrow> 0 | Some it \<Rightarrow> Suc (value_depth (ui_value it))) items
      | PVariant vv \<Rightarrow> (case vv_desc vv of None \<Rightarrow> 0 | Some _ \<Rightarrow> Suc (value_depth (vv_value vv)))
      | PVariantArray items \<Rightarrow>
          max_of (\<lambda>x. case x of
              None \<Rightarrow> 0
            | Some vv \<Rightarrow>
                (case vv_desc vv of None \<Rightarrow> 0 | Some _ \<Rightarrow> Suc (value_depth (vv_value vv)))) items
      | _ \<Rightarrow> 0)"
  by pat_completeness auto
termination
  by (relation "measure size", rule wf_measure)
    (hypsubst, unfold in_measure, rule subvalue_size; simp)+

declare value_depth.simps [simp del]

lemma max_of_add_le: "a + max_of f xs \<le> k \<longleftrightarrow> a \<le> k \<and> (\<forall>x \<in> set xs. a + f x \<le> k)"
  by (induction xs) (auto simp: max_of_def max_def)

lemma has_type_leaf [simp]:
  "typed ok (Scalar st) (PScalar sv) \<longleftrightarrow> scalar_type_of sv = st"
  "typed ok (ScalarArray st) (PScalarArrayTyped arr) \<longleftrightarrow> array_type arr = st"
  by (simp_all add: typed.simps)

lemma has_type_Structure:
  "typed ok (Structure sid sf) v \<longleftrightarrow>
     (\<exists>ms. v = PStructure (PvStructure sid ms) \<and> members_typed (typed ok) (sf_fields sf) ms)"
  by (subst typed.simps) (auto split: pv_field.splits intro: pv_structure.collapse [symmetric])

lemma has_type_StructureArray:
  "typed ok (StructureArray sid sf) v \<longleftrightarrow>
     (\<exists>items. v = PStructureArray items \<and>
        (\<forall>s. Some s \<in> set items \<longrightarrow> typed ok (Structure sid sf) (PStructure s)))"
  by (subst typed.simps)
    (auto split: pv_field.splits option.splits simp: typed.simps [of ok "Structure sid sf" "PStructure s" for s])

lemma has_type_Union:
  "typed ok (Union sid vs) v \<longleftrightarrow>
     v = PUnion (- 1) [] PNull \<or>
     (\<exists>sel i x. union_index sel vs = Some i \<and> v = PUnion sel (fst (vs ! i)) x \<and> typed ok (snd (vs ! i)) x)"
  by (subst typed.simps) (auto split: pv_field.splits option.splits simp: union_index_def)

definition item_typed :: "(field_desc \<Rightarrow> bool) \<Rightarrow> named_fields \<Rightarrow> union_item \<Rightarrow> bool" where
  "item_typed ok vs it \<longleftrightarrow>
     (\<exists>i. union_index (ui_selector it) vs = Some i \<and> ui_name it = fst (vs ! i) \<and>
        typed ok (snd (vs ! i)) (ui_value it))"

lemma has_type_UnionArray:
  "typed ok (UnionArray sid vs) v \<longleftrightarrow>
     (\<exists>items. v = PUnionArray items \<and> (\<forall>it. Some it \<in> set items \<longrightarrow> item_typed ok vs it))"
  by (subst typed.simps)
    (auto split: pv_field.splits option.splits simp: item_typed_def; metis option.distinct(1) option.inject)

lemma has_type_Variant:
  "typed ok Variant v \<longleftrightarrow>
     v = PVariant (VariantValue None PNull) \<or>
     (\<exists>d x. v = PVariant (VariantValue (Some d) x) \<and> ok d \<and> typed ok d x)"
proof (cases v)
  case (PVariant vv)
  then show ?thesis by (cases vv) (subst typed.simps, auto split: option.splits)
qed (subst typed.simps, simp)+

definition any_typed :: "(field_desc \<Rightarrow> bool) \<Rightarrow> variant_value \<Rightarrow> bool" where
  "any_typed ok vv \<longleftrightarrow> (\<exists>d x. vv = VariantValue (Some d) x \<and> ok d \<and> typed ok d x)"

lemma has_type_VariantArray:
  "typed ok VariantArray v \<longleftrightarrow>
     (\<exists>items. v = PVariantArray items \<and> (\<forall>vv. Some vv \<in> set items \<longrightarrow> any_typed ok vv))"
proof -
  have "any_typed ok vv \<longleftrightarrow> (case vv_desc vv of None \<Rightarrow> False
      | Some d \<Rightarrow> ok d \<and> typed ok d (vv_value vv))" for vv
    by (cases vv) (auto simp: any_typed_def split: option.splits)
  then show ?thesis by (subst typed.simps) (auto split: pv_field.splits option.splits)
qed

lemmas has_type_compound =
  has_type_Structure has_type_StructureArray has_type_Union has_type_UnionArray has_type_Variant
  has_type_VariantArray

lemma value_depth_leaf [simp]:
  "value_depth (PScalar sv) = 0" "value_depth (PScalarArray xs) = 0" "value_depth (PScalarArrayTyped a) = 0"
  "value_depth (PUnion i n PNull) = 0" "value_depth (PVariant (VariantValue None x)) = 0"
  by (simp_all add: value_depth.simps)

lemma value_depth_PStructure:
  "k + value_depth (PStructure (PvStructure sid ms)) \<le> n \<longleftrightarrow>
     k \<le> n \<and> (\<forall>x \<in> set ms. Suc k + value_depth (snd x) \<le> n)"
  by (subst value_depth.simps) (auto simp: max_of_add_le)

lemma value_depth_PStructureArray:
  "k + value_depth (PStructureArray items) \<le> n \<longleftrightarrow>
     k \<le> n \<and> (\<forall>s. Some s \<in> set items \<longrightarrow> Suc k + value_depth (PStructure s) \<le> n)"
  by (subst value_depth.simps)
    (auto simp: max_of_add_le value_depth.simps [of "PStructure s" for s] split: option.splits)

lemma value_depth_PUnion:
  "typed ok d x \<Longrightarrow> value_depth (PUnion sel nm x) = Suc (value_depth x)"
  by (subst value_depth.simps) auto

lemma value_depth_PUnionArray:
  "k + value_depth (PUnionArray items) \<le> n \<longleftrightarrow>
     k \<le> n \<and> (\<forall>it. Some it \<in> set items \<longrightarrow> Suc k + value_depth (ui_value it) \<le> n)"
  by (subst value_depth.simps) (auto simp: max_of_add_le split: option.splits)

lemma value_depth_PVariant:
  "value_depth (PVariant (VariantValue (Some d) x)) = Suc (value_depth x)"
  by (subst value_depth.simps) simp

lemma value_depth_PVariantArray:
  "k + value_depth (PVariantArray items) \<le> n \<longleftrightarrow>
     k \<le> n \<and> (\<forall>vv. Some vv \<in> set items \<longrightarrow> vv_desc vv \<noteq> None \<longrightarrow> Suc k + value_depth (vv_value vv) \<le> n)"
  by (subst value_depth.simps) (auto simp: max_of_add_le split: option.splits)

lemmas value_depth_compound =
  value_depth_PStructure value_depth_PStructureArray value_depth_PUnion value_depth_PUnionArray
  value_depth_PVariant value_depth_PVariantArray

section \<open>What the decoder guarantees on any input\<close>

definition value_result_ok ::
  "nat \<Rightarrow> field_desc \<Rightarrow> byte list \<Rightarrow> (decode_error + pv_field \<times> byte list) \<times> type_cache \<Rightarrow> bool" where
  "value_result_ok depth d bs =
     st_ok cache_ok (\<lambda>(v, r). has_type d v \<and> depth + value_depth v \<le> MAX_FIELD_DEPTH \<and> suffix r bs)"

definition decodes_at :: "bool \<Rightarrow> byte_order \<Rightarrow> nat \<Rightarrow> bool" where
  "decodes_at hb ord depth \<longleftrightarrow>
     (\<forall>d cache bs. cache_ok cache \<longrightarrow> value_result_ok depth d bs (decode_value_at hb ord depth d cache bs))"

lemma decodes_atD:
  "decodes_at hb ord depth \<Longrightarrow> cache_ok cache \<Longrightarrow>
   st_ok cache_ok (\<lambda>(v, r). has_type d v \<and> depth + value_depth v \<le> MAX_FIELD_DEPTH \<and> suffix r bs)
     (decode_value_at hb ord depth d cache bs)"
  by (simp add: decodes_at_def value_result_ok_def)

lemma scalar_value_type: "decode_scalar_value st ord bs = Inr (v, r) \<Longrightarrow> scalar_type_of v = st"
  by (cases st) (auto simp: map_dec_def and_then_eq_Inr)

lemma typed_array_type:
  assumes "decode_typed_scalar_array hb st n ord bs = Inr (a, r)"
  shows "\<exists>arr. a = Some arr \<and> array_type arr = st \<and> suffix r bs"
proof -
  have bytes: "suffix r bs" if "get_bytes k bs = Inr (x, r)" for k x r
    using that by (auto simp: get_bytes_eq_Inr suffix_drop)
  have pod: "suffix r bs" if "read_pod_array hb k n e f bs = Inr (x, r)"
    for k e and f :: "byte list \<Rightarrow> 'a::len word" and x r
    using that by (auto simp: read_pod_array_def Let_def and_then_eq_Inr dest: bytes split: if_splits)
  have strings: "suffix r bs" if "decode_n (decode_string_value ord) n bs = Inr (x, r)" for x r
    using that stream_decoder.decode_n_suffix [OF string_value_stream] by blast
  show ?thesis
    using assms
    by (cases st)
      (auto simp: decode_typed_scalar_array_def Let_def map_dec_def and_then_eq_Inr
        dest: bytes pod strings)
qed

lemma decode_members_step:
  "decode_members_at hb ord depth [] acc cache bs = (Inr (acc, bs), cache)"
  "decode_members_at hb ord depth ((name, child) # fs) acc cache bs =
     and_then_st (decode_value_at hb ord depth child cache bs) (\<lambda>(v, bs) cache.
     decode_members_at hb ord depth fs (acc @ [(name, v)]) cache bs)"
  by (subst decode_members_at.simps, simp)+

lemma decode_members_ok:
  assumes "decodes_at hb ord depth"
  shows "cache_ok cache \<Longrightarrow> members_typed has_type fs0 acc \<Longrightarrow>
    (\<forall>x \<in> set acc. depth + value_depth (snd x) \<le> MAX_FIELD_DEPTH) \<Longrightarrow>
    st_ok cache_ok (\<lambda>(ms, r). members_typed has_type (fs0 @ fs) ms \<and>
        (\<forall>x \<in> set ms. depth + value_depth (snd x) \<le> MAX_FIELD_DEPTH) \<and> suffix r bs)
      (decode_members_at hb ord depth fs acc cache bs)"
proof (induction fs arbitrary: fs0 acc cache bs)
  case Nil
  then show ?case by (simp add: decode_members_step)
next
  case (Cons f fs)
  obtain name child where f: "f = (name, child)" by (cases f)
  show ?case
    unfolding decode_members_step f
  proof (rule st_ok_bind2 [OF decodes_atD [OF assms Cons.prems(1)]], elim conjE)
    fix v r cache' assume v: "has_type child v" "depth + value_depth v \<le> MAX_FIELD_DEPTH" "suffix r bs"
      and cache': "cache_ok cache'"
    have "members_typed has_type (fs0 @ [(name, child)]) (acc @ [(name, v)])"
      using Cons.prems(2) v(1) by (auto simp: members_typed_def intro: list_all2_appendI)
    moreover have "\<forall>x \<in> set (acc @ [(name, v)]). depth + value_depth (snd x) \<le> MAX_FIELD_DEPTH"
      using Cons.prems(3) v(2) by auto
    ultimately show "st_ok cache_ok (\<lambda>(ms, r). members_typed has_type (fs0 @ (name, child) # fs) ms \<and>
        (\<forall>x \<in> set ms. depth + value_depth (snd x) \<le> MAX_FIELD_DEPTH) \<and> suffix r bs)
      (decode_members_at hb ord depth fs (acc @ [(name, v)]) cache' r)"
      using v(3) by (intro st_ok_mono [OF Cons.IH [OF cache', of "fs0 @ [(name, child)]"]])
        (auto intro: suffix_order.trans)
  qed
qed

text \<open>The three loops over presence-tagged elements give as many elements as announced.\<close>

definition items_ok ::
  "('a \<Rightarrow> bool) \<Rightarrow> nat \<Rightarrow> byte list \<Rightarrow> (decode_error + 'a option list \<times> byte list) \<times> type_cache \<Rightarrow> bool" where
  "items_ok P k bs =
     st_ok cache_ok (\<lambda>(items, r). length items = k \<and> (\<forall>x. Some x \<in> set items \<longrightarrow> P x) \<and> suffix r bs)"

lemma items_ok_mono: "items_ok P k r res \<Longrightarrow> suffix r bs \<Longrightarrow> items_ok P k bs res"
  unfolding items_ok_def by (erule st_ok_mono) (auto intro: suffix_order.trans)

lemma items_ok_bind:
  "st_ok cache_ok (\<lambda>(x, r). Q x r) r0 \<Longrightarrow>
   (\<And>x r s. Q x r \<Longrightarrow> cache_ok s \<Longrightarrow> items_ok P k bs (f x r s)) \<Longrightarrow>
   items_ok P k bs (and_then_st r0 (\<lambda>(x, r) s. f x r s))"
  unfolding items_ok_def by (rule st_ok_bind2)

lemma items_ok_Inl [simp]: "items_ok P k bs (Inl e, cache) \<longleftrightarrow> cache_ok cache"
  by (simp add: items_ok_def)

lemmas u8_ok = st_ok_stream [where I = cache_ok, OF u8_wire.stream_decoder_axioms]
lemmas size_ok = st_ok_stream [where I = cache_ok, OF size_stream.stream_decoder_axioms]
lemmas count_ok = st_ok_stream [where I = cache_ok, OF nonnull_size_stream]

lemma decode_structs_step:
  "decode_structs_at hb ord depth element 0 acc cache bs = (Inr (acc, bs), cache)"
  "decode_structs_at hb ord depth element (Suc n) acc cache bs =
     and_then_st (get_u8 bs, cache) (\<lambda>(presence, bs) cache.
     if presence = 0x00 then decode_structs_at hb ord depth element n (acc @ [None]) cache bs
     else if presence = 0x01 then
       and_then_st (decode_value_at hb ord depth element cache bs) (\<lambda>(v, bs) cache.
       decode_structs_at hb ord depth element n
         (case v of PStructure s \<Rightarrow> acc @ [Some s] | _ \<Rightarrow> acc) cache bs)
     else (Inl (BadPresence presence), cache))"
  by (subst decode_structs_at.simps, simp only: nat.distinct if_False if_True diff_Suc_1 simp_thms)+

lemma decode_structs_ok:
  fixes sid sf
  assumes "decodes_at hb ord depth"
  defines "P \<equiv> \<lambda>s. has_type (Structure sid sf) (PStructure s) \<and>
    depth + value_depth (PStructure s) \<le> MAX_FIELD_DEPTH"
  shows "cache_ok cache \<Longrightarrow> \<forall>s. Some s \<in> set acc \<longrightarrow> P s \<Longrightarrow>
    items_ok P (length acc + n) bs (decode_structs_at hb ord depth (Structure sid sf) n acc cache bs)"
proof (induction n arbitrary: acc cache bs)
  case 0
  then show ?case by (simp add: decode_structs_step items_ok_def)
next
  case (Suc n)
  show ?case
    unfolding decode_structs_step add_Suc_right
  proof (rule items_ok_bind [OF u8_ok [OF Suc.prems(1)]])
    fix b r cache' assume r: "suffix r bs" "cache_ok cache'"
    have next_item: "items_ok P (Suc (length acc + n)) bs
        (decode_structs_at hb ord depth (Structure sid sf) n (acc @ [x]) cache'' r')"
      if "cache_ok cache''" "suffix r' r" "\<forall>s. x = Some s \<longrightarrow> P s" for x cache'' r'
      using Suc.IH [OF that(1), of "acc @ [x]" r'] Suc.prems(2) that r(1)
      by (auto intro: items_ok_mono suffix_order.trans)
    have P: "P s \<longleftrightarrow> has_type (Structure sid sf) (PStructure s) \<and>
        depth + value_depth (PStructure s) \<le> MAX_FIELD_DEPTH" for s
      by (simp add: P_def)
    show "items_ok P (Suc (length acc + n)) bs
      (if b = 0 then decode_structs_at hb ord depth (Structure sid sf) n (acc @ [None]) cache' r
       else if b = 1 then and_then_st (decode_value_at hb ord depth (Structure sid sf) cache' r) (\<lambda>(v, bs) cache.
          decode_structs_at hb ord depth (Structure sid sf) n
            (case v of PStructure s \<Rightarrow> acc @ [Some s] | _ \<Rightarrow> acc) cache bs)
       else (Inl (BadPresence b), cache'))"
      using next_item [OF r(2)] r(2)
      by (auto intro!: items_ok_bind [OF decodes_atD [OF assms(1) r(2)]] next_item
          simp: has_type_Structure P)
  qed
qed

lemma decode_unions_step:
  "decode_unions_at hb ord depth vs 0 acc cache bs = (Inr (acc, bs), cache)"
  "decode_unions_at hb ord depth vs (Suc n) acc cache bs =
     and_then_st (get_u8 bs, cache) (\<lambda>(presence, bs) cache.
     if presence = 0x00 then decode_unions_at hb ord depth vs n (acc @ [None]) cache bs
     else if presence = 0x01 then
       and_then_st (decode_size ord bs, cache) (\<lambda>(size, bs) cache.
       case size of
         None \<Rightarrow> decode_unions_at hb ord depth vs n (acc @ [None]) cache bs
       | Some sel \<Rightarrow>
           (case union_index (sint sel) vs of
              None \<Rightarrow> (Inl (SelectorOutOfRange sel), cache)
            | Some i \<Rightarrow>
                and_then_st (decode_value_at hb ord depth (snd (vs ! i)) cache bs) (\<lambda>(v, bs) cache.
                decode_unions_at hb ord depth vs n
                  (acc @ [Some (UnionItem (sint sel) (fst (vs ! i)) v)]) cache bs)))
     else (Inl (BadPresence presence), cache))"
  by (subst decode_unions_at.simps, simp only: nat.distinct if_False if_True diff_Suc_1 simp_thms)+

lemma decode_anys_step:
  "decode_anys_at hb ord depth 0 acc cache bs = (Inr (acc, bs), cache)"
  "decode_anys_at hb ord depth (Suc n) acc cache bs =
     and_then_st (get_u8 bs, cache) (\<lambda>(presence, bs) cache.
     if presence = 0x00 then decode_anys_at hb ord depth n (acc @ [None]) cache bs
     else if presence = 0x01 then
       and_then_st (get_u8 bs, cache) (\<lambda>(peek, bs') cache.
       if peek = 0xFF then decode_anys_at hb ord depth n (acc @ [None]) cache bs'
       else
         and_then_st (decode_type_desc_cached ord cache bs) (\<lambda>(inner, bs) cache.
         and_then_st (decode_value_at hb ord depth inner cache bs) (\<lambda>(v, bs) cache.
         decode_anys_at hb ord depth n (acc @ [Some (VariantValue (Some inner) v)]) cache bs)))
     else (Inl (BadPresence presence), cache))"
  by (subst decode_anys_at.simps, simp only: nat.distinct if_False if_True diff_Suc_1 simp_thms)+

lemma decode_unions_ok:
  fixes vs
  assumes "decodes_at hb ord depth"
  defines "P \<equiv> \<lambda>it. item_typed desc_bounded vs it \<and> depth + value_depth (ui_value it) \<le> MAX_FIELD_DEPTH"
  shows "cache_ok cache \<Longrightarrow> \<forall>it. Some it \<in> set acc \<longrightarrow> P it \<Longrightarrow>
    items_ok P (length acc + n) bs (decode_unions_at hb ord depth vs n acc cache bs)"
proof (induction n arbitrary: acc cache bs)
  case 0
  then show ?case by (simp add: decode_unions_step items_ok_def)
next
  case (Suc n)
  show ?case
    unfolding decode_unions_step add_Suc_right
  proof (rule items_ok_bind [OF u8_ok [OF Suc.prems(1)]])
    fix b r cache' assume r: "suffix r bs" "cache_ok cache'"
    have next_item: "items_ok P (Suc (length acc + n)) bs
        (decode_unions_at hb ord depth vs n (acc @ [x]) cache'' r')"
      if "cache_ok cache''" "suffix r' bs" "\<forall>it. x = Some it \<longrightarrow> P it" for x cache'' r'
      using Suc.IH [OF that(1), of "acc @ [x]" r'] Suc.prems(2) that
      by (auto intro: items_ok_mono)
    have P_item: "P (UnionItem sel (fst (vs ! i)) v)"
      if "union_index sel vs = Some i" "has_type (snd (vs ! i)) v" "depth + value_depth v \<le> MAX_FIELD_DEPTH"
      for sel i v
      using that by (simp add: P_def item_typed_def)
    have present: "items_ok P (Suc (length acc + n)) bs
       (and_then_st (decode_size ord r, cache') (\<lambda>(size, bs) cache.
       case size of
         None \<Rightarrow> decode_unions_at hb ord depth vs n (acc @ [None]) cache bs
       | Some sel \<Rightarrow>
           (case union_index (sint sel) vs of
              None \<Rightarrow> (Inl (SelectorOutOfRange sel), cache)
            | Some i \<Rightarrow>
                and_then_st (decode_value_at hb ord depth (snd (vs ! i)) cache bs) (\<lambda>(v, bs) cache.
                decode_unions_at hb ord depth vs n
                  (acc @ [Some (UnionItem (sint sel) (fst (vs ! i)) v)]) cache bs))))"
    proof (rule items_ok_bind [OF size_ok [OF r(2)]])
      fix size r' cache'' assume r': "suffix r' r" "cache_ok cache''"
      show "items_ok P (Suc (length acc + n)) bs
       (case size of
         None \<Rightarrow> decode_unions_at hb ord depth vs n (acc @ [None]) cache'' r'
       | Some sel \<Rightarrow>
           (case union_index (sint sel) vs of
              None \<Rightarrow> (Inl (SelectorOutOfRange sel), cache'')
            | Some i \<Rightarrow>
                and_then_st (decode_value_at hb ord depth (snd (vs ! i)) cache'' r') (\<lambda>(v, bs) cache.
                decode_unions_at hb ord depth vs n
                  (acc @ [Some (UnionItem (sint sel) (fst (vs ! i)) v)]) cache bs)))"
        using r r' suffix_order.trans [OF r'(1) r(1)]
        by (auto split: option.split intro!: next_item items_ok_bind [OF decodes_atD [OF assms(1) r'(2)]]
            intro: suffix_order.trans P_item)
    qed
    show "items_ok P (Suc (length acc + n)) bs
     (if b = 0x00 then decode_unions_at hb ord depth vs n (acc @ [None]) cache' r
     else if b = 0x01 then
       and_then_st (decode_size ord r, cache') (\<lambda>(size, bs) cache.
       case size of
         None \<Rightarrow> decode_unions_at hb ord depth vs n (acc @ [None]) cache bs
       | Some sel \<Rightarrow>
           (case union_index (sint sel) vs of
              None \<Rightarrow> (Inl (SelectorOutOfRange sel), cache)
            | Some i \<Rightarrow>
                and_then_st (decode_value_at hb ord depth (snd (vs ! i)) cache bs) (\<lambda>(v, bs) cache.
                decode_unions_at hb ord depth vs n
                  (acc @ [Some (UnionItem (sint sel) (fst (vs ! i)) v)]) cache bs)))
     else (Inl (BadPresence b), cache'))"
      using present next_item [OF r(2) r(1), of None] r(2) by simp
  qed
qed

lemma decode_type_desc_ok:
  "cache_ok cache \<Longrightarrow>
   st_ok cache_ok (\<lambda>(d, r). desc_bounded d \<and> suffix r bs) (decode_type_desc_cached ord cache bs)"
  unfolding decode_type_desc_cached_def
  by (rule st_ok_bind [OF decode_type_ok [unfolded type_result_ok_def]])
    (auto simp: st_ok_def desc_bounded_def desc_ok_def within_limits_def)

lemma decode_anys_ok:
  assumes "decodes_at hb ord depth"
  defines "P \<equiv> \<lambda>vv. any_typed desc_bounded vv \<and> depth + value_depth (vv_value vv) \<le> MAX_FIELD_DEPTH"
  shows "cache_ok cache \<Longrightarrow> \<forall>vv. Some vv \<in> set acc \<longrightarrow> P vv \<Longrightarrow>
    items_ok P (length acc + n) bs (decode_anys_at hb ord depth n acc cache bs)"
proof (induction n arbitrary: acc cache bs)
  case 0
  then show ?case by (simp add: decode_anys_step items_ok_def)
next
  case (Suc n)
  have next_item: "items_ok P (Suc (length acc + n)) bs (decode_anys_at hb ord depth n (acc @ [x]) cache' r)"
    if "cache_ok cache'" "suffix r bs" "\<forall>vv. x = Some vv \<longrightarrow> P vv" for x cache' r
    using Suc.IH [OF that(1), of "acc @ [x]" r] Suc.prems(2) that by (auto intro: items_ok_mono)
  have any: "items_ok P (Suc (length acc + n)) bs
      (and_then_st (decode_type_desc_cached ord cache' r) (\<lambda>(inner, bs) cache.
       and_then_st (decode_value_at hb ord depth inner cache bs) (\<lambda>(v, bs) cache.
       decode_anys_at hb ord depth n (acc @ [Some (VariantValue (Some inner) v)]) cache bs)))"
    if "cache_ok cache'" "suffix r bs" for cache' r
  proof (rule items_ok_bind [OF decode_type_desc_ok [OF that(1)]], elim conjE)
    fix inner r' cache'' assume inner: "desc_bounded inner" "suffix r' r" "cache_ok cache''"
    show "items_ok P (Suc (length acc + n)) bs
      (and_then_st (decode_value_at hb ord depth inner cache'' r') (\<lambda>(v, bs) cache.
       decode_anys_at hb ord depth n (acc @ [Some (VariantValue (Some inner) v)]) cache bs))"
      by (rule items_ok_bind [OF decodes_atD [OF assms(1) inner(3)]], rule next_item)
        (use inner that in \<open>auto simp: P_def any_typed_def intro: suffix_order.trans\<close>)
  qed
  show ?case
    unfolding decode_anys_step add_Suc_right
  proof (rule items_ok_bind [OF u8_ok [OF Suc.prems(1)]])
    fix b r cache' assume r: "suffix r bs" "cache_ok cache'"
    have "items_ok P (Suc (length acc + n)) bs (and_then_st (get_u8 r, cache') (\<lambda>(peek, bs') cache.
       if peek = 0xFF then decode_anys_at hb ord depth n (acc @ [None]) cache bs'
       else
         and_then_st (decode_type_desc_cached ord cache r) (\<lambda>(inner, bs) cache.
         and_then_st (decode_value_at hb ord depth inner cache bs) (\<lambda>(v, bs) cache.
         decode_anys_at hb ord depth n (acc @ [Some (VariantValue (Some inner) v)]) cache bs))))"
      by (rule items_ok_bind [OF u8_ok [OF r(2)]])
        (use r in \<open>auto intro: any next_item suffix_order.trans\<close>)
    then show "items_ok P (Suc (length acc + n)) bs
     (if b = 0x00 then decode_anys_at hb ord depth n (acc @ [None]) cache' r
     else if b = 0x01 then
       and_then_st (get_u8 r, cache') (\<lambda>(peek, bs') cache.
       if peek = 0xFF then decode_anys_at hb ord depth n (acc @ [None]) cache bs'
       else
         and_then_st (decode_type_desc_cached ord cache r) (\<lambda>(inner, bs) cache.
         and_then_st (decode_value_at hb ord depth inner cache bs) (\<lambda>(v, bs) cache.
         decode_anys_at hb ord depth n (acc @ [Some (VariantValue (Some inner) v)]) cache bs)))
     else (Inl (BadPresence b), cache'))"
      using next_item [OF r(2) r(1), of None] r(2) by simp
  qed
qed

lemma decode_value_step:
  assumes "\<not> MAX_FIELD_DEPTH < depth"
  shows
  "decode_value_at hb ord depth (Scalar st) cache bs =
     and_then_st (decode_scalar_value st ord bs, cache) (\<lambda>(v, bs) cache. (Inr (PScalar v, bs), cache))"
  "decode_value_at hb ord depth (ScalarArray st) cache bs =
     and_then_st (decode_size_nonnull ''scalar array length'' ord bs, cache) (\<lambda>(n, bs) cache.
     and_then_st (decode_typed_scalar_array hb st (unat n) ord bs, cache) (\<lambda>(typed, bs) cache.
     case typed of
       Some arr \<Rightarrow> (Inr (PScalarArrayTyped arr, bs), cache)
     | None \<Rightarrow>
         and_then_st (decode_n (decode_scalar_value st ord) (unat n) bs, cache) (\<lambda>(items, bs) cache.
         (Inr (PScalarArray items, bs), cache))))"
  "decode_value_at hb ord depth (Structure sid sf) cache bs =
     and_then_st (decode_members_at hb ord (depth + 1) (sf_fields sf) [] cache bs) (\<lambda>(ms, bs) cache.
     (Inr (PStructure (PvStructure sid ms), bs), cache))"
  "decode_value_at hb ord depth (StructureArray sid sf) cache bs =
     and_then_st (decode_size_nonnull ''structure array length'' ord bs, cache) (\<lambda>(n, bs) cache.
     and_then_st (decode_structs_at hb ord (depth + 1) (Structure sid sf) (unat n) [] cache bs)
       (\<lambda>(items, bs) cache. (Inr (PStructureArray items, bs), cache)))"
  "decode_value_at hb ord depth (Union sid vs) cache bs =
     and_then_st (decode_size ord bs, cache) (\<lambda>(size, bs) cache.
     case size of
       None \<Rightarrow> (Inr (PUnion (- 1) [] PNull, bs), cache)
     | Some sel \<Rightarrow>
         (case union_index (sint sel) vs of
            None \<Rightarrow> (Inl (SelectorOutOfRange sel), cache)
          | Some i \<Rightarrow>
              and_then_st (decode_value_at hb ord (depth + 1) (snd (vs ! i)) cache bs) (\<lambda>(v, bs) cache.
              (Inr (PUnion (sint sel) (fst (vs ! i)) v, bs), cache))))"
  "decode_value_at hb ord depth (UnionArray sid vs) cache bs =
     and_then_st (decode_size_nonnull ''union array length'' ord bs, cache) (\<lambda>(n, bs) cache.
     and_then_st (decode_unions_at hb ord (depth + 1) vs (unat n) [] cache bs)
       (\<lambda>(items, bs) cache. (Inr (PUnionArray items, bs), cache)))"
  "decode_value_at hb ord depth Variant cache bs =
     and_then_st (get_u8 bs, cache) (\<lambda>(peek, bs') cache.
     if peek = 0xFF then (Inr (PVariant (VariantValue None PNull), bs'), cache)
     else
       and_then_st (decode_type_desc_cached ord cache bs) (\<lambda>(inner, bs) cache.
       and_then_st (decode_value_at hb ord (depth + 1) inner cache bs) (\<lambda>(v, bs) cache.
       (Inr (PVariant (VariantValue (Some inner) v), bs), cache))))"
  "decode_value_at hb ord depth VariantArray cache bs =
     and_then_st (decode_size_nonnull ''variant array length'' ord bs, cache) (\<lambda>(n, bs) cache.
     and_then_st (decode_anys_at hb ord (depth + 1) (unat n) [] cache bs)
       (\<lambda>(items, bs) cache. (Inr (PVariantArray items, bs), cache)))"
  by (subst decode_value_at.simps, simp only: assms if_False field_desc.case)+

lemma scalar_ok: "cache_ok s \<Longrightarrow>
  st_ok cache_ok (\<lambda>(v, r). scalar_type_of v = st \<and> suffix r bs) (decode_scalar_value st ord bs, s)"
  using scalar_value_type by (auto simp: st_ok_def dest: stream_decoder.dec_suffix [OF scalar_value_stream])

lemma typed_array_ok: "cache_ok s \<Longrightarrow>
  st_ok cache_ok (\<lambda>(a, r). (\<exists>arr. a = Some arr \<and> array_type arr = st) \<and> suffix r bs)
    (decode_typed_scalar_array hb st n ord bs, s)"
  using typed_array_type by (fastforce simp: st_ok_def)

lemma decode_value_ok: "decodes_at hb ord depth"
proof (induction "22 - depth" arbitrary: depth rule: less_induct)
  case less
  show ?case
  proof (cases "MAX_FIELD_DEPTH < depth")
    case True
    then show ?thesis
      by (auto simp: decodes_at_def value_result_ok_def decode_value_at.simps)
  next
    case False
    note step = decode_value_step [OF False]
    have depth: "depth \<le> MAX_FIELD_DEPTH" using False by simp
    have IH: "decodes_at hb ord (depth + 1)"
      using less.hyps [of "depth + 1"] False by (simp add: MAX_FIELD_DEPTH_def)
    note IHD = decodes_atD [OF IH]
    have "value_result_ok depth d bs (decode_value_at hb ord depth d cache bs)"
      if cache: "cache_ok cache" for d cache bs
    proof (cases d)
      case (Scalar st)
      show ?thesis
        unfolding Scalar step value_result_ok_def
        by (rule st_ok_bind2 [OF scalar_ok [OF cache]]) (use depth in auto)
    next
      case (ScalarArray st)
      show ?thesis
        unfolding ScalarArray step value_result_ok_def
        by (rule st_ok_bind2 [OF count_ok [OF cache]], rule st_ok_bind2 [OF typed_array_ok], assumption)
          (use depth in \<open>auto intro: suffix_order.trans\<close>)
    next
      case (Structure sid sf)
      show ?thesis
        unfolding Structure step value_result_ok_def
        by (rule st_ok_bind2 [OF decode_members_ok [OF IH cache, of "[]" "[]"]])
          (use depth in \<open>auto simp: members_typed_def has_type_Structure value_depth_compound\<close>)
    next
      case (StructureArray sid sf)
      show ?thesis
        unfolding StructureArray step value_result_ok_def
        by (rule st_ok_bind2 [OF count_ok [OF cache]],
            rule st_ok_bind2 [OF decode_structs_ok [OF IH, where acc = "[]", unfolded items_ok_def]])
          (use depth in \<open>auto simp: has_type_StructureArray value_depth_compound intro: suffix_order.trans\<close>)
    next
      case (Union sid vs)
      have selected: "st_ok cache_ok (\<lambda>(v, r). has_type (field_desc.Union sid vs) v \<and>
            depth + value_depth v \<le> MAX_FIELD_DEPTH \<and> suffix r bs)
          (and_then_st (decode_value_at hb ord (depth + 1) (snd (vs ! i)) cache' r) (\<lambda>(v, bs) cache.
           (Inr (PUnion sel (fst (vs ! i)) v, bs), cache)))"
        if "suffix r bs" "cache_ok cache'" "union_index sel vs = Some i" for sel i r cache'
        by (rule st_ok_bind2 [OF IHD [OF that(2)]])
          (use that in \<open>auto simp: has_type_Union value_depth_compound intro: suffix_order.trans\<close>)
      show ?thesis
        unfolding Union step value_result_ok_def
      proof (rule st_ok_bind2 [OF size_ok [OF cache]])
        fix size r cache' assume r: "suffix r bs" "cache_ok cache'"
        show "st_ok cache_ok (\<lambda>(v, r). has_type (field_desc.Union sid vs) v \<and>
            depth + value_depth v \<le> MAX_FIELD_DEPTH \<and> suffix r bs)
          (case size of None \<Rightarrow> (Inr (PUnion (- 1) [] PNull, r), cache')
           | Some sel \<Rightarrow> (case union_index (sint sel) vs of
               None \<Rightarrow> (Inl (SelectorOutOfRange sel), cache')
             | Some i \<Rightarrow>
                 and_then_st (decode_value_at hb ord (depth + 1) (snd (vs ! i)) cache' r) (\<lambda>(v, bs) cache.
                 (Inr (PUnion (sint sel) (fst (vs ! i)) v, bs), cache))))"
          using selected [OF r] r depth by (auto split: option.split simp: has_type_Union)
      qed
    next
      case (UnionArray sid vs)
      show ?thesis
        unfolding UnionArray step value_result_ok_def
        by (rule st_ok_bind2 [OF count_ok [OF cache]],
            rule st_ok_bind2 [OF decode_unions_ok [OF IH, where acc = "[]", unfolded items_ok_def]])
          (use depth in \<open>auto simp: has_type_UnionArray value_depth_compound intro: suffix_order.trans\<close>)
    next
      case Variant
      have any: "st_ok cache_ok (\<lambda>(v, r). has_type Variant v \<and>
            depth + value_depth v \<le> MAX_FIELD_DEPTH \<and> suffix r bs)
          (and_then_st (decode_type_desc_cached ord cache' bs) (\<lambda>(inner, bs) cache.
           and_then_st (decode_value_at hb ord (depth + 1) inner cache bs) (\<lambda>(v, bs) cache.
           (Inr (PVariant (VariantValue (Some inner) v), bs), cache))))"
        if "cache_ok cache'" for cache'
        by (rule st_ok_bind2 [OF decode_type_desc_ok [OF that]], rule st_ok_bind2 [OF IHD], assumption)
          (use depth in \<open>auto simp: has_type_Variant value_depth_compound intro: suffix_order.trans\<close>)
      show ?thesis
        unfolding Variant step value_result_ok_def
        by (rule st_ok_bind2 [OF u8_ok [OF cache]])
          (use depth any in \<open>auto simp: has_type_Variant\<close>)
    next
      case VariantArray
      show ?thesis
        unfolding VariantArray step value_result_ok_def
        by (rule st_ok_bind2 [OF count_ok [OF cache]],
            rule st_ok_bind2 [OF decode_anys_ok [OF IH, where acc = "[]", unfolded items_ok_def]])
          (use depth in \<open>auto simp: has_type_VariantArray value_depth_compound intro: suffix_order.trans\<close>)
    qed
    then show ?thesis by (simp add: decodes_at_def)
  qed
qed

section \<open>Round trip of well-typed values\<close>

definition inlineable :: "field_desc \<Rightarrow> bool" where
  "inlineable d \<longleftrightarrow> wire_desc d \<and> inline_depth d \<le> MAX_FIELD_DEPTH \<and> desc_nodes d \<le> MAX_FIELD_NODES"

fun own_wire :: "pv_field \<Rightarrow> bool" where
  "own_wire (PScalar sv) = wire_value sv"
| "own_wire (PScalarArrayTyped arr) =
     (length (array_values arr) < 2 ^ 32 \<and> list_all wire_value (array_values arr))"
| "own_wire (PStructureArray items) = (length items < 2 ^ 32)"
| "own_wire (PUnionArray items) = (length items < 2 ^ 32)"
| "own_wire (PVariant vv) = (case vv_desc vv of None \<Rightarrow> True | Some d \<Rightarrow> inlineable d)"
| "own_wire (PVariantArray items) =
     (length items < 2 ^ 32 \<and>
      (\<forall>x \<in> set items. case x of
         None \<Rightarrow> True
       | Some vv \<Rightarrow> (case vv_desc vv of None \<Rightarrow> True | Some d \<Rightarrow> inlineable d)))"
| "own_wire _ = True"

text \<open>Every length fits the wire's 32 bits and every carried descriptor can be sent inline.\<close>

function value_wire :: "pv_field \<Rightarrow> bool" where
  "value_wire v \<longleftrightarrow> own_wire v \<and> (\<forall>x \<in> set (subvalues v). value_wire x)"
  by pat_completeness auto
termination
  by (relation "measure size") (simp_all add: size_subvalue)

declare value_wire.simps [simp del]

lemma value_wire_own: "value_wire v \<Longrightarrow> own_wire v"
  by (subst (asm) value_wire.simps) simp

text \<open>One unfolding per constructor, for concrete values.\<close>

lemma value_wire_unfold:
  "value_wire (PScalar sv) \<longleftrightarrow> wire_value sv"
  "value_wire (PScalarArrayTyped arr) \<longleftrightarrow> own_wire (PScalarArrayTyped arr)"
  "value_wire (PStructure s) \<longleftrightarrow> (\<forall>x \<in> set (ps_fields s). value_wire (snd x))"
  "value_wire (PUnion sel nm v) \<longleftrightarrow> value_wire v"
  "value_wire (PVariant vv) \<longleftrightarrow> own_wire (PVariant vv) \<and> value_wire (vv_value vv)"
  "value_wire PNull"
  by (subst value_wire.simps, simp only: own_wire.simps subvalues.simps list.set set_map ball_simps simp_thms)+

lemma value_wire_subvalue: "value_wire v \<Longrightarrow> x \<in> set (subvalues v) \<Longrightarrow> value_wire x"
  by (subst (asm) value_wire.simps) simp

lemma decode_inline_desc:
  "inlineable d \<Longrightarrow> decode_type_desc_cached ord cache (encode_type_desc ord d @ rest) = (Inr (d, rest), cache)"
  using decode_encode_type_desc(1) [of d 0 ord Interop cache rest]
  by (simp add: inlineable_def decode_type_desc_cached_def)

lemma scalar_tags: "type_code st \<noteq> 0xFF" "array_type_code st \<noteq> 0xFF"
  by (cases st; simp add: array_type_code_def)+

lemma encode_type_desc_head: "\<exists>b bs. encode_type_desc ord d = b # bs \<and> b \<noteq> 0xFF"
  by (cases d rule: desc_children.cases) (auto simp: put_u8_def tag_defs scalar_tags)

lemma peek_desc:
  "and_then_st (get_u8 (encode_type_desc ord d @ rest), cache) f =
     and_then_st (Inr (hd (encode_type_desc ord d), tl (encode_type_desc ord d) @ rest), cache) f"
  "hd (encode_type_desc ord d) \<noteq> 0xFF"
  using encode_type_desc_head [of ord d] by auto

lemma encode_typed_step:
  "encode_pv_field cv hb ord (PScalar sv) (Scalar (scalar_type_of sv)) = encode_scalar_value ord sv"
  "encode_pv_field cv hb ord (PScalarArrayTyped arr) (ScalarArray (array_type arr)) =
     encode_size_into (of_nat (length (array_values arr))) ord @ encode_typed_scalar_array hb ord arr"
  "encode_pv_field cv hb ord (PStructure s) (Structure sid sf) =
     encode_members_with (encode_pv_field cv hb ord) s (sf_fields sf)"
  "encode_pv_field cv hb ord (PStructureArray items) (StructureArray sid sf) =
     encode_size_into (of_nat (length items)) ord @
     concat (map (\<lambda>x. case x of
         None \<Rightarrow> put_u8 0x00
       | Some s \<Rightarrow> put_u8 0x01 @ encode_pv_field cv hb ord (PStructure s) (Structure sid sf)) items)"
  "encode_pv_field cv hb ord (PUnion sel nm v) (Union sid vs) =
     (case union_index sel vs of
        Some idx \<Rightarrow> encode_size_into (of_nat idx) ord @ encode_pv_field cv hb ord v (snd (vs ! idx))
      | None \<Rightarrow> put_u8 0xFF)"
  "encode_pv_field cv hb ord (PUnionArray its) (UnionArray sid vs) =
     encode_size_into (of_nat (length its)) ord @
     concat (map (\<lambda>x. case x of
         None \<Rightarrow> put_u8 0x00
       | Some it \<Rightarrow>
           (case union_index (ui_selector it) vs of
              Some idx \<Rightarrow>
                put_u8 0x01 @ encode_size_into (of_nat idx) ord @
                encode_pv_field cv hb ord (ui_value it) (snd (vs ! idx))
            | None \<Rightarrow> put_u8 0x00)) its)"
  "encode_pv_field cv hb ord (PVariant vv) Variant =
     (case vv_desc vv of
        None \<Rightarrow> put_u8 0xFF
      | Some d \<Rightarrow> encode_type_desc ord d @ encode_pv_field cv hb ord (vv_value vv) d)"
  "encode_pv_field cv hb ord (PVariantArray vvs) VariantArray =
     encode_size_into (of_nat (length vvs)) ord @
     concat (map (\<lambda>x. case x of
         None \<Rightarrow> put_u8 0x00
       | Some it \<Rightarrow>
           (case vv_desc it of
              Some d \<Rightarrow>
                put_u8 0x01 @ encode_type_desc ord d @ encode_pv_field cv hb ord (vv_value it) d
            | None \<Rightarrow> put_u8 0x00)) vvs)"
proof -
  have st: "encode_pv_field cv hb ord (PStructure s) (Structure sid sf) =
      encode_members_with (encode_pv_field cv hb ord) s (sf_fields sf)" for s
    by (subst encode_pv_field.simps) simp
  show "encode_pv_field cv hb ord (PStructureArray items) (StructureArray sid sf) =
     encode_size_into (of_nat (length items)) ord @
     concat (map (\<lambda>x. case x of
         None \<Rightarrow> put_u8 0x00
       | Some s \<Rightarrow> put_u8 0x01 @ encode_pv_field cv hb ord (PStructure s) (Structure sid sf)) items)"
    unfolding st by (subst encode_pv_field.simps) (simp only: field_desc.case pv_field.case)
qed (subst encode_pv_field.simps, simp only: field_desc.case pv_field.case if_True simp_thms)+

lemma encode_members_typed:
  assumes "members_typed P fs ms"
  shows "encode_members_with enc (PvStructure sid ms) fs =
    concat (map (\<lambda>((_, c), _, x). enc x c) (zip fs ms))"
proof -
  have len: "length fs = length ms" using assms by (auto simp: members_typed_def dest: list_all2_lengthD)
  have "map (\<lambda>(i, name, child). case member_at (PvStructure sid ms) i name of
      Some v \<Rightarrow> enc v child | None \<Rightarrow> enc (default_value_for child) child) (List.enumerate 0 fs) =
    map (\<lambda>((_, c), _, x). enc x c) (zip fs ms)"
  proof (rule nth_equalityI)
    fix i assume "i < length (map (\<lambda>(i, name, child). case member_at (PvStructure sid ms) i name of
      Some v \<Rightarrow> enc v child | None \<Rightarrow> enc (default_value_for child) child) (List.enumerate 0 fs))"
    then have i: "i < length fs" by simp
    then have "fst (fs ! i) = fst (ms ! i)"
      using assms by (auto simp: members_typed_def list_all2_conv_all_nth case_prod_beta)
    with i show "map (\<lambda>(i, name, child). case member_at (PvStructure sid ms) i name of
        Some v \<Rightarrow> enc v child | None \<Rightarrow> enc (default_value_for child) child) (List.enumerate 0 fs) ! i =
      map (\<lambda>((_, c), _, x). enc x c) (zip fs ms) ! i"
      using len by (auto simp: nth_enumerate_eq member_at_def split: prod.splits)
  qed (simp add: len)
  then show ?thesis by (simp add: encode_members_with_def)
qed

lemma decode_members_encode:
  "list_all2 (\<lambda>(n, c) (m, x). n = m \<and>
     (\<forall>cache rest. decode_value_at hb ord depth c cache (enc x c @ rest) = (Inr (x, rest), cache))) fs ms \<Longrightarrow>
   decode_members_at hb ord depth fs acc cache
     (concat (map (\<lambda>((_, c), _, x). enc x c) (zip fs ms)) @ rest) = (Inr (acc @ ms, rest), cache)"
  by (induction fs ms arbitrary: acc rule: list_all2_induct)
    (auto simp: decode_members_step)

lemma decode_structs_encode:
  "\<forall>s. Some s \<in> set items \<longrightarrow> (\<forall>cache rest.
     decode_value_at hb ord depth element cache (body s @ rest) = (Inr (PStructure s, rest), cache)) \<Longrightarrow>
   decode_structs_at hb ord depth element (length items) acc cache
     (concat (map (\<lambda>x. case x of None \<Rightarrow> put_u8 0x00 | Some s \<Rightarrow> put_u8 0x01 @ body s) items) @ rest) =
     (Inr (acc @ items, rest), cache)"
  by (induction items arbitrary: acc)
    (auto simp: decode_structs_step put_u8_def split: option.split)

lemma union_index_sint: "union_index sel vs = Some i \<Longrightarrow> length vs < 2 ^ 31 \<Longrightarrow> sint (of_nat i :: u32) = sel"
  by (auto simp: union_index_def signed_of_nat signed_take_bit_int_eq_self split: if_splits)

lemma decode_unions_encode:
  "\<forall>it. Some it \<in> set items \<longrightarrow> item_typed desc_bounded vs it \<and> (\<forall>i cache rest. union_index (ui_selector it) vs = Some i \<longrightarrow>
     decode_value_at hb ord depth (snd (vs ! i)) cache (enc (ui_value it) (snd (vs ! i)) @ rest) =
       (Inr (ui_value it, rest), cache)) \<Longrightarrow> length vs < 2 ^ 31 \<Longrightarrow>
   decode_unions_at hb ord depth vs (length items) acc cache
     (concat (map (\<lambda>x. case x of
         None \<Rightarrow> put_u8 0x00
       | Some it \<Rightarrow>
           (case union_index (ui_selector it) vs of
              Some idx \<Rightarrow>
                put_u8 0x01 @ encode_size_into (of_nat idx) ord @ enc (ui_value it) (snd (vs ! idx))
            | None \<Rightarrow> put_u8 0x00)) items) @ rest) =
     (Inr (acc @ items, rest), cache)"
proof (induction items arbitrary: acc)
  case (Cons x items)
  show ?case
  proof (cases x)
    case (Some it)
    then obtain i where i: "union_index (ui_selector it) vs = Some i" "ui_name it = fst (vs ! i)"
      using Cons.prems(1) by (auto simp: item_typed_def)
    have sel: "sint (of_nat i :: u32) = ui_selector it"
      by (rule union_index_sint [OF i(1) Cons.prems(2)])
    have "UnionItem (ui_selector it) (fst (vs ! i)) (ui_value it) = it"
      using i(2) by (cases it) simp
    with Some i sel Cons show ?thesis
      by (simp add: decode_unions_step put_u8_def wire_simps)
  qed (use Cons in \<open>simp add: decode_unions_step put_u8_def\<close>)
qed (simp add: decode_unions_step)

lemma decode_anys_encode:
  "\<forall>vv. Some vv \<in> set items \<longrightarrow> (\<exists>d. vv_desc vv = Some d \<and> inlineable d \<and> (\<forall>cache rest.
     decode_value_at hb ord depth d cache (enc (vv_value vv) d @ rest) = (Inr (vv_value vv, rest), cache))) \<Longrightarrow>
   decode_anys_at hb ord depth (length items) acc cache
     (concat (map (\<lambda>x. case x of
         None \<Rightarrow> put_u8 0x00
       | Some it \<Rightarrow>
           (case vv_desc it of
              Some d \<Rightarrow> put_u8 0x01 @ encode_type_desc ord d @ enc (vv_value it) d
            | None \<Rightarrow> put_u8 0x00)) items) @ rest) =
     (Inr (acc @ items, rest), cache)"
proof (induction items arbitrary: acc)
  case (Cons x items)
  show ?case
  proof (cases x)
    case (Some vv)
    then obtain d where d: "vv_desc vv = Some d" "inlineable d" "\<And>cache rest.
        decode_value_at hb ord depth d cache (enc (vv_value vv) d @ rest) = (Inr (vv_value vv, rest), cache)"
      using Cons.prems by auto
    have "VariantValue (Some d) (vv_value vv) = vv" using d(1) by (cases vv) simp
    with Some d Cons show ?thesis
      by (simp add: decode_anys_step put_u8_def peek_desc decode_inline_desc)
  qed (use Cons in \<open>simp add: decode_anys_step put_u8_def\<close>)
qed (simp add: decode_anys_step)

lemma desc_nodes_member: "x \<in> set (desc_children d) \<Longrightarrow> desc_nodes (snd x) < desc_nodes d"
  using member_le_sum_list [of "desc_nodes (snd x)" "map (\<lambda>c. desc_nodes (snd c)) (desc_children d)"]
  by (simp add: desc_nodes_children [of d] fields_nodes_sum)

lemma length_children_nodes: "length (desc_children d) < desc_nodes d"
proof -
  have "length fs \<le> fields_nodes fs" for fs :: named_fields
    by (induction fs) (auto simp: desc_nodes_children)
  then show ?thesis by (simp add: desc_nodes_children [of d] less_Suc_eq_le)
qed

lemma union_index_nth: "union_index sel vs = Some i \<Longrightarrow> vs ! i \<in> set vs"
  by (auto simp: union_index_def split: if_splits)

lemma desc_nodes_variant:
  "union_index sel vs = Some i \<Longrightarrow> desc_nodes (snd (vs ! i)) < desc_nodes (Union sid vs)"
  "union_index sel vs = Some i \<Longrightarrow> desc_nodes (snd (vs ! i)) < desc_nodes (UnionArray sid vs)"
  using desc_nodes_member [of "vs ! i" "Union sid vs"] union_index_nth by simp_all

text \<open>A value is recovered from its bytes under every descriptor it has, at every depth it fits.\<close>

definition recovered :: "conv_ops \<Rightarrow> bool \<Rightarrow> bool \<Rightarrow> byte_order \<Rightarrow> pv_field \<Rightarrow> bool" where
  "recovered cv hb' hb ord v \<longleftrightarrow>
     (\<forall>d depth cache rest. has_type d v \<longrightarrow> desc_nodes d \<le> MAX_FIELD_NODES \<longrightarrow>
        depth + value_depth v \<le> MAX_FIELD_DEPTH \<longrightarrow>
        decode_value_at hb ord depth d cache (encode_pv_field cv hb' ord v d @ rest) = (Inr (v, rest), cache))"

lemma recoveredD:
  "recovered cv hb' hb ord v \<Longrightarrow> has_type d v \<Longrightarrow> desc_nodes d \<le> MAX_FIELD_NODES \<Longrightarrow>
   depth + value_depth v \<le> MAX_FIELD_DEPTH \<Longrightarrow>
   decode_value_at hb ord depth d cache (encode_pv_field cv hb' ord v d @ rest) = (Inr (v, rest), cache)"
  by (simp add: recovered_def)

lemma recover_members:
  assumes "members_typed has_type (sf_fields sf) ms" "\<forall>x \<in> set ms. recovered cv hb' hb ord (snd x)"
    "desc_nodes (Structure sid sf) \<le> MAX_FIELD_NODES"
    "\<forall>x \<in> set ms. depth + value_depth (snd x) \<le> MAX_FIELD_DEPTH"
  shows "decode_members_at hb ord depth (sf_fields sf) [] cache
      (encode_pv_field cv hb' ord (PStructure (PvStructure sid ms)) (Structure sid sf) @ rest) =
    (Inr (ms, rest), cache)"
proof -
  have nodes: "desc_nodes (snd f) \<le> MAX_FIELD_NODES" if "f \<in> set (sf_fields sf)" for f
    using desc_nodes_member [of f "Structure sid sf"] that assms(3) by (cases sf) simp
  have "list_all2 (\<lambda>(n, c) (m, x). n = m \<and> (\<forall>cache rest.
      decode_value_at hb ord depth c cache (encode_pv_field cv hb' ord x c @ rest) = (Inr (x, rest), cache)))
    (sf_fields sf) ms"
    using assms(1) [unfolded members_typed_def]
  proof (rule list.rel_mono_strong)
    fix f m assume fm: "f \<in> set (sf_fields sf)" "m \<in> set ms"
      "(case f of (n, c) \<Rightarrow> \<lambda>(m, x). n = m \<and> has_type c x) m"
    then show "(case f of (n, c) \<Rightarrow> \<lambda>(m, x). n = m \<and> (\<forall>cache rest.
      decode_value_at hb ord depth c cache (encode_pv_field cv hb' ord x c @ rest) = (Inr (x, rest), cache))) m"
      using assms(2,4) nodes [OF fm(1)] by (auto intro!: recoveredD)
  qed
  from decode_members_encode [OF this, of "[]"] show ?thesis
    by (simp add: encode_typed_step encode_members_typed [OF assms(1)])
qed

lemma recover_structure:
  assumes "\<forall>x \<in> set (subvalues (PStructure s)). recovered cv hb' hb ord x"
  shows "recovered cv hb' hb ord (PStructure s)"
  unfolding recovered_def
proof (intro allI impI)
  fix d depth cache rest
  assume d: "has_type d (PStructure s)" "desc_nodes d \<le> MAX_FIELD_NODES"
    "depth + value_depth (PStructure s) \<le> MAX_FIELD_DEPTH"
  then obtain sid sf where sf: "d = Structure sid sf"
    by (subst (asm) typed.simps) (auto split: field_desc.splits)
  with d(1) obtain ms where ms: "s = PvStructure sid ms" "members_typed has_type (sf_fields sf) ms"
    by (auto simp: has_type_Structure)
  have "decode_members_at hb ord (depth + 1) (sf_fields sf) [] cache
      (encode_pv_field cv hb' ord (PStructure s) (Structure sid sf) @ rest) = (Inr (ms, rest), cache)"
    using ms d assms unfolding ms(1) by (intro recover_members) (auto simp: sf value_depth_PStructure)
  with d(3) ms(1) show "decode_value_at hb ord depth d cache
      (encode_pv_field cv hb' ord (PStructure s) d @ rest) = (Inr (PStructure s, rest), cache)"
    by (simp add: sf decode_value_step)
qed

lemma has_type_inv:
  "has_type d (PScalar sv) \<Longrightarrow> d = Scalar (scalar_type_of sv)"
  "has_type d (PScalarArrayTyped arr) \<Longrightarrow> d = ScalarArray (array_type arr)"
  "has_type d (PStructureArray items) \<Longrightarrow> \<exists>sid sf. d = StructureArray sid sf"
  "has_type d (PUnion sel nm v) \<Longrightarrow> \<exists>sid vs. d = Union sid vs"
  "has_type d (PUnionArray its) \<Longrightarrow> \<exists>sid vs. d = UnionArray sid vs"
  "has_type d (PVariant vv) \<Longrightarrow> d = Variant"
  "has_type d (PVariantArray vvs) \<Longrightarrow> d = VariantArray"
  by (subst (asm) typed.simps, auto split: field_desc.splits)+

lemma has_type_PScalarArray [simp]: "\<not> has_type d (PScalarArray xs)"
  by (subst typed.simps) (simp split: field_desc.splits)

lemma recover_leaf:
  "wire_value sv \<Longrightarrow> recovered cv hb' hb ord (PScalar sv)"
  "own_wire (PScalarArrayTyped arr) \<Longrightarrow> recovered cv hb' hb ord (PScalarArrayTyped arr)"
proof -
  assume "wire_value sv"
  then show "recovered cv hb' hb ord (PScalar sv)"
    by (auto simp: recovered_def decode_value_step encode_typed_step decode_encode_scalar dest!: has_type_inv)
next
  assume arr: "own_wire (PScalarArrayTyped arr)"
  then have "length (array_values arr) * 8 \<le> usize_max" by (simp add: usize_max_def)
  then have "decode_typed_scalar_array hb (array_type arr) (length (array_values arr)) ord
      (encode_typed_scalar_array hb' ord arr @ rest) = Inr (Some arr, rest)" for rest
    using arr decode_encode_array [of arr hb ord rest] by (simp add: encode_array_elementwise)
  with arr show "recovered cv hb' hb ord (PScalarArrayTyped arr)"
    by (auto simp: recovered_def decode_value_step encode_typed_step wire_simps unat_of_nat_u32
        dest!: has_type_inv)
qed

lemma recover_structure_array:
  assumes "\<forall>x \<in> set (subvalues (PStructureArray items)). recovered cv hb' hb ord x" "length items < 2 ^ 32"
  shows "recovered cv hb' hb ord (PStructureArray items)"
  unfolding recovered_def
proof (intro allI impI)
  fix d depth cache rest
  assume d: "has_type d (PStructureArray items)" "desc_nodes d \<le> MAX_FIELD_NODES"
    "depth + value_depth (PStructureArray items) \<le> MAX_FIELD_DEPTH"
  then obtain sid sf where sf: "d = StructureArray sid sf" using has_type_inv by blast
  have "decode_value_at hb ord (depth + 1) (Structure sid sf) cache
      (encode_pv_field cv hb' ord (PStructure s) (Structure sid sf) @ rest) = (Inr (PStructure s, rest), cache)"
    if s: "Some s \<in> set items" for s cache rest
  proof (rule recoveredD)
    have "\<forall>x \<in> set (subvalues (PStructure s)). recovered cv hb' hb ord x"
      using assms(1) s by force
    then show "recovered cv hb' hb ord (PStructure s)" by (rule recover_structure)
    show "has_type (Structure sid sf) (PStructure s)" "desc_nodes (Structure sid sf) \<le> MAX_FIELD_NODES"
      "depth + 1 + value_depth (PStructure s) \<le> MAX_FIELD_DEPTH"
      using d s by (cases sf; auto simp: sf has_type_StructureArray value_depth_PStructureArray)+
  qed
  with decode_structs_encode [of items hb ord "depth + 1" "Structure sid sf"
      "\<lambda>s. encode_pv_field cv hb' ord (PStructure s) (Structure sid sf)" "[]"]
  show "decode_value_at hb ord depth d cache (encode_pv_field cv hb' ord (PStructureArray items) d @ rest) =
      (Inr (PStructureArray items, rest), cache)"
    using d(3) assms(2) by (simp add: sf decode_value_step encode_typed_step wire_simps unat_of_nat_u32)
qed

lemma recover_union:
  assumes "recovered cv hb' hb ord v"
  shows "recovered cv hb' hb ord (PUnion sel nm v)"
  unfolding recovered_def
proof (intro allI impI)
  fix d depth cache rest
  assume d: "has_type d (PUnion sel nm v)" "desc_nodes d \<le> MAX_FIELD_NODES"
    "depth + value_depth (PUnion sel nm v) \<le> MAX_FIELD_DEPTH"
  then obtain sid vs where vs: "d = Union sid vs" using has_type_inv by blast
  show "decode_value_at hb ord depth d cache (encode_pv_field cv hb' ord (PUnion sel nm v) d @ rest) =
      (Inr (PUnion sel nm v, rest), cache)"
  proof (cases "union_index sel vs")
    case None
    then have "sel = - 1" "nm = []" "v = PNull" using d(1) by (auto simp: vs has_type_Union)
    with None d(3) show ?thesis
      by (simp add: vs decode_value_step encode_typed_step put_u8_def decode_size_def NULL_MARKER_def)
  next
    case (Some i)
    then have v: "nm = fst (vs ! i)" "has_type (snd (vs ! i)) v"
      using d(1) by (auto simp: vs has_type_Union union_index_def split: if_splits)
    have "sint (of_nat i :: u32) = sel"
      using union_index_sint [OF Some] d(2) length_children_nodes [of "Union sid vs"]
      by (simp add: vs MAX_FIELD_NODES_def)
    moreover have "decode_value_at hb ord (depth + 1) (snd (vs ! i)) cache
        (encode_pv_field cv hb' ord v (snd (vs ! i)) @ rest) = (Inr (v, rest), cache)"
      using d(2,3) v desc_nodes_variant(1) [OF Some, of sid]
      by (intro recoveredD [OF assms]) (auto simp: vs value_depth_PUnion)
    ultimately show ?thesis
      using d(3) v Some by (simp add: vs decode_value_step encode_typed_step wire_simps)
  qed
qed

lemma recover_union_array:
  assumes "\<forall>x \<in> set (subvalues (PUnionArray items)). recovered cv hb' hb ord x" "length items < 2 ^ 32"
  shows "recovered cv hb' hb ord (PUnionArray items)"
  unfolding recovered_def
proof (intro allI impI)
  fix d depth cache rest
  assume d: "has_type d (PUnionArray items)" "desc_nodes d \<le> MAX_FIELD_NODES"
    "depth + value_depth (PUnionArray items) \<le> MAX_FIELD_DEPTH"
  then obtain sid vs where vs: "d = UnionArray sid vs" using has_type_inv by blast
  have item: "item_typed desc_bounded vs it \<and> (\<forall>i cache rest. union_index (ui_selector it) vs = Some i \<longrightarrow>
      decode_value_at hb ord (depth + 1) (snd (vs ! i)) cache
        (encode_pv_field cv hb' ord (ui_value it) (snd (vs ! i)) @ rest) = (Inr (ui_value it, rest), cache))"
    if it: "Some it \<in> set items" for it
  proof (intro conjI allI impI)
    show typed: "item_typed desc_bounded vs it" using d(1) it by (auto simp: vs has_type_UnionArray)
    fix i cache rest assume i: "union_index (ui_selector it) vs = Some i"
    have "recovered cv hb' hb ord (ui_value it)" using assms(1) it by force
    then show "decode_value_at hb ord (depth + 1) (snd (vs ! i)) cache
        (encode_pv_field cv hb' ord (ui_value it) (snd (vs ! i)) @ rest) = (Inr (ui_value it, rest), cache)"
      by (rule recoveredD)
        (use typed i it d(2,3) desc_nodes_variant(2) [OF i, of sid] in
          \<open>auto simp: item_typed_def vs value_depth_PUnionArray\<close>)
  qed
  have "length vs < 2 ^ 31"
    using d(2) length_children_nodes [of "UnionArray sid vs"] by (simp add: vs MAX_FIELD_NODES_def)
  with item decode_unions_encode [of items vs hb ord "depth + 1" "encode_pv_field cv hb' ord" "[]"]
  show "decode_value_at hb ord depth d cache (encode_pv_field cv hb' ord (PUnionArray items) d @ rest) =
      (Inr (PUnionArray items, rest), cache)"
    using d(3) assms(2) by (simp add: vs decode_value_step encode_typed_step wire_simps unat_of_nat_u32)
qed

lemma desc_bounded_nodes: "desc_bounded d \<Longrightarrow> desc_nodes d \<le> MAX_FIELD_NODES"
  by (simp add: desc_bounded_def)

lemma recover_variant:
  assumes "recovered cv hb' hb ord (vv_value vv)" "own_wire (PVariant vv)"
  shows "recovered cv hb' hb ord (PVariant vv)"
  unfolding recovered_def
proof (intro allI impI)
  fix d depth cache rest
  assume d: "has_type d (PVariant vv)" "depth + value_depth (PVariant vv) \<le> MAX_FIELD_DEPTH"
  then have v: "d = Variant" using has_type_inv by blast
  show "decode_value_at hb ord depth d cache (encode_pv_field cv hb' ord (PVariant vv) d @ rest) =
      (Inr (PVariant vv, rest), cache)"
  proof (cases "vv_desc vv")
    case None
    then have "vv = VariantValue None PNull" using d(1) by (auto simp: v has_type_Variant)
    with d(2) show ?thesis by (simp add: v decode_value_step encode_typed_step put_u8_def)
  next
    case (Some c)
    then obtain x where x: "vv = VariantValue (Some c) x" "desc_bounded c" "has_type c x"
      using d(1) by (auto simp: v has_type_Variant)
    have "decode_value_at hb ord (depth + 1) c cache (encode_pv_field cv hb' ord x c @ rest) =
        (Inr (x, rest), cache)"
      using d(2) assms(1) x
      by (intro recoveredD) (auto simp: value_depth_PVariant desc_bounded_nodes)
    with assms(2) x d(2) show ?thesis
      by (simp add: v decode_value_step encode_typed_step peek_desc decode_inline_desc)
  qed
qed

lemma recover_variant_array:
  assumes "\<forall>x \<in> set (subvalues (PVariantArray items)). recovered cv hb' hb ord x"
    "own_wire (PVariantArray items)"
  shows "recovered cv hb' hb ord (PVariantArray items)"
  unfolding recovered_def
proof (intro allI impI)
  fix d depth cache rest
  assume d: "has_type d (PVariantArray items)" "depth + value_depth (PVariantArray items) \<le> MAX_FIELD_DEPTH"
  then have v: "d = VariantArray" using has_type_inv by blast
  have "\<exists>d. vv_desc vv = Some d \<and> inlineable d \<and> (\<forall>cache rest.
      decode_value_at hb ord (depth + 1) d cache (encode_pv_field cv hb' ord (vv_value vv) d @ rest) =
        (Inr (vv_value vv, rest), cache))"
    if vv: "Some vv \<in> set items" for vv
  proof -
    obtain c x where x: "vv = VariantValue (Some c) x" "desc_bounded c" "has_type c x"
      using d(1) vv by (auto simp: v has_type_VariantArray any_typed_def)
    have "recovered cv hb' hb ord x" using assms(1) vv x(1) by force
    then have "decode_value_at hb ord (depth + 1) c cache (encode_pv_field cv hb' ord x c @ rest) =
        (Inr (x, rest), cache)" for cache rest
      by (rule recoveredD)
        (use d(2) x vv in \<open>auto simp: value_depth_PVariantArray desc_bounded_nodes\<close>)
    moreover have "inlineable c" using assms(2) vv x(1) by force
    ultimately show ?thesis using x(1) by simp
  qed
  with decode_anys_encode [of items hb ord "depth + 1" "encode_pv_field cv hb' ord" "[]"]
  show "decode_value_at hb ord depth d cache (encode_pv_field cv hb' ord (PVariantArray items) d @ rest) =
      (Inr (PVariantArray items, rest), cache)"
    using d(2) assms(2) by (simp add: v decode_value_step encode_typed_step wire_simps unat_of_nat_u32)
qed

lemma value_recovered: "value_wire v \<Longrightarrow> recovered cv hb' hb ord v"
proof (induction "size v" arbitrary: v rule: less_induct)
  case less
  have IH: "recovered cv hb' hb ord x" if "x \<in> set (subvalues v)" for x
    using less.hyps size_subvalue [OF that] value_wire_subvalue [OF less.prems that] by blast
  have own: "own_wire v" using less.prems by (rule value_wire_own)
  show ?case
  proof (cases v)
    case PNull
    then show ?thesis by (simp add: recovered_def)
  next
    case (PScalarArray xs)
    then show ?thesis by (simp add: recovered_def)
  qed (use IH own in \<open>auto intro!: recover_leaf recover_structure recover_structure_array recover_union
      recover_union_array recover_variant recover_variant_array\<close>)
qed

lemma scalar_coerced: "scalar_type_of (coerce_scalar cv v st) = st"
proof -
  have zero: "scalar_type_of (zero_scalar st) = st" by (cases st) simp_all
  have "scalar_type_of w = st" if "scalar_from_str cv st s = Some w" for s w
    using that by (cases st) (auto split: if_splits)
  then have "scalar_type_of w = st" if "coerce_scalar_copy cv CopyOut v st = Some w" for w
    using that
    by (cases v; cases st) (auto simp: coerce_scalar_copy_def)
  with zero show ?thesis by (auto simp: coerce_scalar_def split: option.splits)
qed

section \<open>The encoder on values of any shape\<close>

text \<open>The bytes are those of some value of the descriptor's type.\<close>

definition realised :: "conv_ops \<Rightarrow> bool \<Rightarrow> byte_order \<Rightarrow> field_desc \<Rightarrow> byte list \<Rightarrow> bool" where
  "realised cv hb ord d bytes \<longleftrightarrow>
     (\<exists>w. typed (\<lambda>_. True) d w \<and> bytes = encode_pv_field cv hb ord w d)"

lemma realisedI: "typed (\<lambda>_. True) d w \<Longrightarrow> realised cv hb ord d (encode_pv_field cv hb ord w d)"
  by (auto simp: realised_def)

lemma list_all2_choice: "\<forall>x \<in> set xs. \<exists>y. Q x y \<Longrightarrow> \<exists>ys. list_all2 Q xs ys"
  by (induction xs) (auto simp: list_all2_Cons1)

fun array_of :: "scalar_type \<Rightarrow> scalar_value list \<Rightarrow> typed_array" where
  "array_of TBoolean xs = ABoolean (map (\<lambda>v. case v of VBoolean x \<Rightarrow> x | _ \<Rightarrow> False) xs)"
| "array_of TByte xs = AByte (map (\<lambda>v. case v of VByte x \<Rightarrow> x | _ \<Rightarrow> 0) xs)"
| "array_of TShort xs = AShort (map (\<lambda>v. case v of VShort x \<Rightarrow> x | _ \<Rightarrow> 0) xs)"
| "array_of TInt xs = AInt (map (\<lambda>v. case v of VInt x \<Rightarrow> x | _ \<Rightarrow> 0) xs)"
| "array_of TLong xs = ALong (map (\<lambda>v. case v of VLong x \<Rightarrow> x | _ \<Rightarrow> 0) xs)"
| "array_of TUByte xs = AUByte (map (\<lambda>v. case v of VUByte x \<Rightarrow> x | _ \<Rightarrow> 0) xs)"
| "array_of TUShort xs = AUShort (map (\<lambda>v. case v of VUShort x \<Rightarrow> x | _ \<Rightarrow> 0) xs)"
| "array_of TUInt xs = AUInt (map (\<lambda>v. case v of VUInt x \<Rightarrow> x | _ \<Rightarrow> 0) xs)"
| "array_of TULong xs = AULong (map (\<lambda>v. case v of VULong x \<Rightarrow> x | _ \<Rightarrow> 0) xs)"
| "array_of TFloat xs = AFloat (map (\<lambda>v. case v of VFloat x \<Rightarrow> x | _ \<Rightarrow> 0) xs)"
| "array_of TDouble xs = ADouble (map (\<lambda>v. case v of VDouble x \<Rightarrow> x | _ \<Rightarrow> 0) xs)"
| "array_of TString xs = AString (map (\<lambda>v. case v of VString x \<Rightarrow> x | _ \<Rightarrow> []) xs)"

lemma array_of_type: "array_type (array_of st xs) = st"
  by (cases st) simp_all

lemma array_of_values:
  "list_all (\<lambda>v. scalar_type_of v = st) xs \<Longrightarrow> array_values (array_of st xs) = xs"
  by (cases st; induction xs) (auto elim: scalar_type_of.elims)

lemma realised_array:
  assumes "list_all (\<lambda>v. scalar_type_of v = st) xs"
  shows "realised cv hb ord (ScalarArray st)
    (encode_size_into (of_nat (length xs)) ord @ concat (map (encode_scalar_value ord) xs))"
  using realisedI [of "ScalarArray st" "PScalarArrayTyped (array_of st xs)" cv hb ord]
    encode_typed_step(2) [of cv hb ord "array_of st xs"] assms
  by (simp add: array_of_type array_of_values encode_array_elementwise)

lemma realised_members:
  assumes "list_all2 (\<lambda>f b. realised cv hb ord (snd f) b) (sf_fields sf) bss"
  shows "realised cv hb ord (Structure sid sf) (concat bss)"
proof -
  have "\<exists>ms. members_typed (typed (\<lambda>_. True)) fs ms \<and>
      bss = map (\<lambda>((_, c), _, x). encode_pv_field cv hb ord x c) (zip fs ms)"
    if "list_all2 (\<lambda>f b. realised cv hb ord (snd f) b) fs bss" for fs bss
    using that
  proof (induction rule: list_all2_induct)
    case (Cons f fs b bss)
    then obtain ms w where "members_typed (typed (\<lambda>_. True)) fs ms"
      "bss = map (\<lambda>((_, c), _, x). encode_pv_field cv hb ord x c) (zip fs ms)"
      "typed (\<lambda>_. True) (snd f) w" "b = encode_pv_field cv hb ord w (snd f)"
      by (auto simp: realised_def)
    then show ?case
      by (intro exI [of _ "(fst f, w) # ms"]) (auto simp: members_typed_def split: prod.splits)
  qed (simp add: members_typed_def)
  from this [OF assms] obtain ms where ms: "members_typed (typed (\<lambda>_. True)) (sf_fields sf) ms"
    "bss = map (\<lambda>((_, c), _, x). encode_pv_field cv hb ord x c) (zip (sf_fields sf) ms)"
    by blast
  then have "concat bss = encode_pv_field cv hb ord (PStructure (PvStructure sid ms)) (Structure sid sf)"
    by (simp add: encode_typed_step encode_members_typed [OF ms(1)])
  with ms(1) show ?thesis by (auto simp: realised_def has_type_Structure)
qed

lemma realised_structure:
  assumes "\<And>i name child v. i < length (sf_fields sf) \<Longrightarrow> sf_fields sf ! i = (name, child) \<Longrightarrow>
    member_at s i name = Some v \<or> v = default_value_for child \<and> member_at s i name = None \<Longrightarrow>
    realised cv hb ord child (encode_pv_field cv hb ord v child)"
  shows "realised cv hb ord (Structure sid sf)
    (encode_members_with (encode_pv_field cv hb ord) s (sf_fields sf))"
  unfolding encode_members_with_def
  by (rule realised_members)
    (auto simp: list_all2_conv_all_nth nth_enumerate_eq intro!: assms split: option.split prod.split)

text \<open>The elements of an array are replaced one by one.\<close>

lemma choose_items:
  assumes "\<And>x. x \<in> set items \<Longrightarrow> \<exists>y. f x = g y \<and> (\<forall>z. y = Some z \<longrightarrow> P z)"
  shows "\<exists>ys. length ys = length items \<and> map f items = map g ys \<and> (\<forall>z. Some z \<in> set ys \<longrightarrow> P z)"
proof -
  from assms have "\<forall>x \<in> set items. \<exists>y. f x = g y \<and> (\<forall>z. y = Some z \<longrightarrow> P z)" by blast
  from list_all2_choice [OF this]
  obtain ys where ys: "list_all2 (\<lambda>x y. f x = g y \<and> (\<forall>z. y = Some z \<longrightarrow> P z)) items ys" by blast
  then have "length ys = length items \<and> map f items = map g ys \<and> (\<forall>z. Some z \<in> set ys \<longrightarrow> P z)"
    by (induction rule: list_all2_induct) auto
  then show ?thesis by blast
qed

lemma realised_structure_array:
  assumes "\<And>s. Some s \<in> set items \<Longrightarrow> realised cv hb ord (Structure sid sf) (body s)"
  shows "realised cv hb ord (StructureArray sid sf)
    (encode_size_into (of_nat (length items)) ord @
     concat (map (\<lambda>x. case x of None \<Rightarrow> put_u8 0x00 | Some s \<Rightarrow> put_u8 0x01 @ body s) items))"
    (is "realised _ _ _ _ (_ @ concat (map ?f items))")
proof -
  let ?g = "\<lambda>x. case x of None \<Rightarrow> put_u8 0x00
        | Some s \<Rightarrow> put_u8 0x01 @ encode_pv_field cv hb ord (PStructure s) (Structure sid sf)"
  let ?P = "\<lambda>s. typed (\<lambda>_. True) (Structure sid sf) (PStructure s)"
  have "\<exists>y. ?f x = ?g y \<and> (\<forall>s. y = Some s \<longrightarrow> ?P s)" if x: "x \<in> set items" for x
  proof (cases x)
    case (Some s)
    then obtain ms where "?P (PvStructure sid ms)"
      "body s = encode_pv_field cv hb ord (PStructure (PvStructure sid ms)) (Structure sid sf)"
      using assms [of s] x by (auto simp: realised_def has_type_Structure)
    with Some show ?thesis by (intro exI [of _ "Some (PvStructure sid ms)"]) simp
  qed (auto intro!: exI [of _ None])
  from choose_items [of items ?f ?g, OF this] obtain ys where
    "length ys = length items" "map ?f items = map ?g ys" "\<forall>s. Some s \<in> set ys \<longrightarrow> ?P s" by blast
  then show ?thesis
    using realisedI [of "StructureArray sid sf" "PStructureArray ys" cv hb ord]
    by (simp add: has_type_StructureArray encode_typed_step(4))
qed

lemma realised_union:
  "realised cv hb ord (Union sid vs) (put_u8 0xFF)"
  "i < length vs \<Longrightarrow> realised cv hb ord (snd (vs ! i)) b \<Longrightarrow>
     realised cv hb ord (Union sid vs) (encode_size_into (of_nat i) ord @ b)"
proof -
  have "union_index (- 1) vs = None" by (simp add: union_index_def)
  then show "realised cv hb ord (Union sid vs) (put_u8 0xFF)"
    using realisedI [of "Union sid vs" "PUnion (- 1) [] PNull" cv hb ord]
    by (simp add: has_type_Union encode_typed_step)
next
  assume i: "i < length vs" and "realised cv hb ord (snd (vs ! i)) b"
  then obtain w where w: "typed (\<lambda>_. True) (snd (vs ! i)) w" "b = encode_pv_field cv hb ord w (snd (vs ! i))"
    by (auto simp: realised_def)
  have "union_index (int i) vs = Some i" using i by (simp add: union_index_def)
  then have "typed (\<lambda>_. True) (Union sid vs) (PUnion (int i) (fst (vs ! i)) w)"
    "encode_pv_field cv hb ord (PUnion (int i) (fst (vs ! i)) w) (Union sid vs) =
       encode_size_into (of_nat i) ord @ b"
    using w by (auto simp: has_type_Union encode_typed_step)
  then show "realised cv hb ord (Union sid vs) (encode_size_into (of_nat i) ord @ b)"
    by (auto simp: realised_def)
qed

lemma realised_union_array:
  assumes "\<And>it i. Some it \<in> set items \<Longrightarrow> union_index (ui_selector it) vs = Some i \<Longrightarrow>
    realised cv hb ord (snd (vs ! i)) (body it i)"
  shows "realised cv hb ord (UnionArray sid vs)
    (encode_size_into (of_nat (length items)) ord @
     concat (map (\<lambda>x. case x of
         None \<Rightarrow> put_u8 0x00
       | Some it \<Rightarrow>
           (case union_index (ui_selector it) vs of
              Some idx \<Rightarrow> put_u8 0x01 @ encode_size_into (of_nat idx) ord @ body it idx
            | None \<Rightarrow> put_u8 0x00)) items))"
    (is "realised _ _ _ _ (_ @ concat (map ?f items))")
proof -
  let ?g = "\<lambda>x. case x of
         None \<Rightarrow> put_u8 0x00
       | Some it \<Rightarrow>
           (case union_index (ui_selector it) vs of
              Some idx \<Rightarrow>
                put_u8 0x01 @ encode_size_into (of_nat idx) ord @
                encode_pv_field cv hb ord (ui_value it) (snd (vs ! idx))
            | None \<Rightarrow> put_u8 0x00)"
  let ?P = "\<lambda>it. item_typed (\<lambda>_. True) vs it"
  have "\<exists>y. ?f x = ?g y \<and> (\<forall>it. y = Some it \<longrightarrow> ?P it)" if x: "x \<in> set items" for x
  proof (cases "\<exists>it i. x = Some it \<and> union_index (ui_selector it) vs = Some i")
    case True
    then obtain it i where it: "x = Some it" "union_index (ui_selector it) vs = Some i" by blast
    then obtain w where "typed (\<lambda>_. True) (snd (vs ! i)) w" "body it i = encode_pv_field cv hb ord w (snd (vs ! i))"
      using assms [of it i] x by (auto simp: realised_def)
    with it show ?thesis
      by (intro exI [of _ "Some (UnionItem (ui_selector it) (fst (vs ! i)) w)"]) (simp add: item_typed_def)
  qed (auto intro!: exI [of _ None] split: option.split)
  from choose_items [of items ?f ?g, OF this] obtain ys where
    "length ys = length items" "map ?f items = map ?g ys" "\<forall>it. Some it \<in> set ys \<longrightarrow> ?P it" by blast
  then show ?thesis
    using realisedI [of "UnionArray sid vs" "PUnionArray ys" cv hb ord]
    by (simp add: has_type_UnionArray encode_typed_step)
qed

lemma realised_variant:
  "realised cv hb ord Variant (put_u8 0xFF)"
  "realised cv hb ord d b \<Longrightarrow> realised cv hb ord Variant (encode_type_desc ord d @ b)"
proof -
  show "realised cv hb ord Variant (put_u8 0xFF)"
    using realisedI [of Variant "PVariant (VariantValue None PNull)" cv hb ord]
    by (simp add: has_type_Variant encode_typed_step)
next
  assume "realised cv hb ord d b"
  then obtain w where "typed (\<lambda>_. True) d w" "b = encode_pv_field cv hb ord w d"
    by (auto simp: realised_def)
  then show "realised cv hb ord Variant (encode_type_desc ord d @ b)"
    using realisedI [of Variant "PVariant (VariantValue (Some d) w)" cv hb ord]
    by (simp add: has_type_Variant encode_typed_step)
qed

lemma realised_variant_array:
  assumes "\<And>vv d. Some vv \<in> set items \<Longrightarrow> vv_desc vv = Some d \<Longrightarrow> realised cv hb ord d (body vv d)"
  shows "realised cv hb ord VariantArray
    (encode_size_into (of_nat (length items)) ord @
     concat (map (\<lambda>x. case x of
         None \<Rightarrow> put_u8 0x00
       | Some it \<Rightarrow>
           (case vv_desc it of
              Some d \<Rightarrow> put_u8 0x01 @ encode_type_desc ord d @ body it d
            | None \<Rightarrow> put_u8 0x00)) items))"
    (is "realised _ _ _ _ (_ @ concat (map ?f items))")
proof -
  let ?g = "\<lambda>x. case x of
         None \<Rightarrow> put_u8 0x00
       | Some it \<Rightarrow>
           (case vv_desc it of
              Some d \<Rightarrow>
                put_u8 0x01 @ encode_type_desc ord d @ encode_pv_field cv hb ord (vv_value it) d
            | None \<Rightarrow> put_u8 0x00)"
  let ?P = "\<lambda>vv. any_typed (\<lambda>_. True) vv"
  have "\<exists>y. ?f x = ?g y \<and> (\<forall>vv. y = Some vv \<longrightarrow> ?P vv)" if x: "x \<in> set items" for x
  proof (cases "\<exists>vv d. x = Some vv \<and> vv_desc vv = Some d")
    case True
    then obtain vv d where vv: "x = Some vv" "vv_desc vv = Some d" by blast
    then obtain w where "typed (\<lambda>_. True) d w" "body vv d = encode_pv_field cv hb ord w d"
      using assms [of vv d] x by (auto simp: realised_def)
    with vv show ?thesis
      by (intro exI [of _ "Some (VariantValue (Some d) w)"]) (simp add: any_typed_def)
  qed (auto intro!: exI [of _ None] split: option.split)
  from choose_items [of items ?f ?g, OF this] obtain ys where
    "length ys = length items" "map ?f items = map ?g ys" "\<forall>vv. Some vv \<in> set ys \<longrightarrow> ?P vv" by blast
  then show ?thesis
    using realisedI [of VariantArray "PVariantArray ys" cv hb ord]
    by (simp add: has_type_VariantArray encode_typed_step)
qed

lemma realised_scalar: "realised cv hb ord (Scalar st) (encode_scalar_value ord sv)" if "scalar_type_of sv = st"
  using realisedI [of "Scalar st" "PScalar sv" cv hb ord] encode_typed_step(1) [of cv hb ord sv] that by simp

lemma realised_empty:
  "realised cv hb ord (ScalarArray st) (encode_size_into 0 ord)"
  "realised cv hb ord (StructureArray sid sf) (encode_size_into 0 ord)"
  "realised cv hb ord (UnionArray sid vs) (encode_size_into 0 ord)"
  "realised cv hb ord VariantArray (encode_size_into 0 ord)"
  using realised_array [of st "[]" cv hb ord] realised_structure_array [of "[]" cv hb ord sid sf]
    realised_union_array [of "[]" vs cv hb ord _ sid] realised_variant_array [of "[]" cv hb ord]
  by simp_all

lemma generic_realised:
  assumes IH: "\<And>v' d'. (Inl (cv, hb, ord, v', d'), Inr (cv, hb, ord, v, d)) \<in> enc_order \<Longrightarrow>
    realised cv hb ord d' (encode_pv_field cv hb ord v' d')"
  shows "realised cv hb ord d (encode_pv_field_generic cv hb ord v d)"
proof -
  have coerced: "list_all (\<lambda>w. scalar_type_of w = st) (map (\<lambda>v. coerce_scalar cv v st) xs)" for st xs
    by (simp add: list_all_iff scalar_coerced)
  note array = realised_array [OF coerced, of cv hb ord, simplified, unfolded comp_def]
  have zero: "scalar_type_of (zero_scalar st) = st" for st by (cases st) simp_all
  show ?thesis
  proof (cases d)
    case (Structure sid sf)
    have "realised cv hb ord child (encode_pv_field cv hb ord (default_value_for child) child)"
      if "(name, child) \<in> set (sf_fields sf)" for name child
      using IH enc_order_default [OF that] by (simp add: Structure)
    then show ?thesis
      unfolding Structure encode_pv_field_generic.simps [of _ _ _ v] field_desc.case
      by (intro realised_members) (auto simp: list_all2_conv_all_nth split: prod.split dest: nth_mem)
  next
    case (Union sid vs)
    have "realised cv hb ord (Union sid vs)
        (encode_size_into (of_nat i) ord @ encode_pv_field cv hb ord v (snd (vs ! i)))"
      if "position (\<lambda>c. value_fits_desc v (snd c)) vs = Some i" for i
      using IH [of v "snd (vs ! i)"] enc_order_union(3) [OF that] position_Some [OF that]
      by (auto simp: Union intro: realised_union)
    then show ?thesis
      unfolding Union encode_pv_field_generic.simps [of _ _ _ v] field_desc.case
      by (auto intro: realised_union split: pv_field.split option.split)
  next
    case Variant
    have "realised cv hb ord Variant (encode_type_desc ord c @ encode_pv_field cv hb ord v c)"
      if "wire_descriptor v = Some c" for c
      using IH [of v c] enc_order_any(3) [OF that] by (auto simp: Variant intro: realised_variant)
    then show ?thesis
      unfolding Variant encode_pv_field_generic.simps [of _ _ _ v] field_desc.case
      by (auto intro: realised_variant split: pv_field.split option.split)
  qed (subst encode_pv_field_generic.simps,
      auto simp: zero scalar_coerced Let_def intro: realised_scalar realised_empty array split: pv_field.split)+
qed

lemma encode_realised_step:
  assumes IH: "\<And>v' d'. (Inl (cv, hb, ord, v', d'), Inl (cv, hb, ord, v, d)) \<in> enc_order \<Longrightarrow>
      realised cv hb ord d' (encode_pv_field cv hb ord v' d')"
    and gen: "(Inr (cv, hb, ord, v, d), Inl (cv, hb, ord, v, d)) \<in> enc_order \<Longrightarrow>
      realised cv hb ord d (encode_pv_field_generic cv hb ord v d)"
  shows "realised cv hb ord d (encode_pv_field cv hb ord v d)"
proof -
  have gen: "realised cv hb ord d (encode_pv_field_generic cv hb ord v d)"
    if "d \<noteq> Variant \<or> (\<forall>vv. v \<noteq> PVariant vv)"
    using that by (intro gen enc_orderI)
  note enc = encode_pv_field.simps [of cv hb ord v d]
  have inner: "realised cv hb ord (Structure sid sf)
      (encode_members_with (encode_pv_field cv hb ord) s (sf_fields sf))"
    if "d = Structure sid sf \<and> v = PStructure s \<or>
      d = StructureArray sid sf \<and> (\<exists>items. v = PStructureArray items \<and> Some s \<in> set items)" for sid sf s
    using that by (intro realised_structure) (auto intro!: IH enc_order_member)
  show ?thesis
  proof (cases d)
    case (Scalar st)
    show ?thesis
      using gen unfolding enc unfolding Scalar field_desc.case
      by (auto simp: scalar_coerced intro!: realised_scalar split: pv_field.split)
  next
    case (ScalarArray st)
    have "realised cv hb ord (ScalarArray st) (encode_size_into (of_nat (length (array_values arr))) ord @
        encode_typed_scalar_array hb ord arr)" if "array_type arr = st" for arr
      using realisedI [of "ScalarArray st" "PScalarArrayTyped arr" cv hb ord]
        encode_typed_step(2) [of cv hb ord arr] that by simp
    then show ?thesis
      using gen realised_array [of st _ cv hb ord] unfolding enc unfolding ScalarArray field_desc.case
      by (auto split: pv_field.split)
  next
    case (Structure sid sf)
    show ?thesis
      using gen inner [of sid sf] unfolding enc unfolding Structure field_desc.case
      by (auto split: pv_field.split)
  next
    case (StructureArray sid sf)
    show ?thesis
      using gen inner [of sid sf] unfolding enc unfolding StructureArray field_desc.case
      by (auto intro!: realised_structure_array split: pv_field.split)
  next
    case (Union sid vs)
    have "realised cv hb ord (Union sid vs)
        (encode_size_into (of_nat i) ord @ encode_pv_field cv hb ord x (snd (vs ! i)))"
      if "v = PUnion sel nm x" "union_index sel vs = Some i" for sel nm x i
      using that IH enc_order_union(1)
      by (intro realised_union) (auto simp: Union union_index_def split: if_splits)
    then show ?thesis
      using gen realised_union(1) [of cv hb ord sid vs] unfolding enc unfolding Union field_desc.case
      by (auto split: pv_field.split option.split)
  next
    case (UnionArray sid vs)
    have "realised cv hb ord (snd (vs ! i)) (encode_pv_field cv hb ord (ui_value it) (snd (vs ! i)))"
      if "v = PUnionArray items" "Some it \<in> set items" "union_index (ui_selector it) vs = Some i" for items it i
      using that IH enc_order_union(2) by (simp add: UnionArray)
    then show ?thesis
      using gen unfolding enc unfolding UnionArray field_desc.case
      by (auto intro!: realised_union_array split: pv_field.split)
  next
    case Variant
    have "realised cv hb ord Variant (encode_type_desc ord c @ encode_pv_field cv hb ord (vv_value vv) c)"
      if "v = PVariant vv" "vv_desc vv = Some c" for vv c
      using that IH enc_order_any(1) by (intro realised_variant) (simp add: Variant)
    then show ?thesis
      using gen realised_variant(1) [of cv hb ord] unfolding enc unfolding Variant field_desc.case
      by (auto split: pv_field.split option.split)
  next
    case VariantArray
    have "realised cv hb ord c (encode_pv_field cv hb ord (vv_value vv) c)"
      if "v = PVariantArray items" "Some vv \<in> set items" "vv_desc vv = Some c" for items vv c
      using that IH enc_order_any(2) by (simp add: VariantArray)
    then show ?thesis
      using gen unfolding enc unfolding VariantArray field_desc.case
      by (auto intro!: realised_variant_array split: pv_field.split)
  qed
qed

lemma encode_realised: "realised cv hb ord d (encode_pv_field cv hb ord v d)"
proof -
  have "case x of
      Inl (cv, hb, ord, v, d) \<Rightarrow> realised cv hb ord d (encode_pv_field cv hb ord v d)
    | Inr (cv, hb, ord, v, d) \<Rightarrow> realised cv hb ord d (encode_pv_field_generic cv hb ord v d)" for x
  proof (induction x rule: wf_induct_rule [OF wf_enc_order])
    case (1 x)
    show ?case
    proof (cases x)
      case (Inl y)
      obtain cv hb ord v d where y: "y = (cv, hb, ord, v, d)" by (cases y)
      show ?thesis
        using encode_realised_step [of cv hb ord v d] 1 unfolding Inl y by fastforce
    next
      case (Inr y)
      obtain cv hb ord v d where y: "y = (cv, hb, ord, v, d)" by (cases y)
      show ?thesis
        using generic_realised [of cv hb ord v d] 1 unfolding Inr y by fastforce
    qed
  qed
  from this [of "Inl (cv, hb, ord, v, d)"] show ?thesis by simp
qed

end
