(* ===== verification/Pva_Delta.thy ===== *)
theory Pva_Delta
  imports Pva_Value_Correct
begin

text \<open>
  Partial values (\<^verbatim>\<open>epics-pva-rs/src/pvdata/{encode,value_check,monitor_squash}.rs\<close>).
  A monitor update or a put carries a changed set in the depth-first bit
  numbering and only the marked parts of the value; a set structure bit means
  the whole subtree.  \<open>overlay\<close> is the abstract operation behind the
  receivers: the marked parts of one value on top of another value.
\<close>

section \<open>Encoder\<close>

fun encode_marked ::
  "conv_ops \<Rightarrow> bool \<Rightarrow> byte_order \<Rightarrow> pv_field \<Rightarrow> field_desc \<Rightarrow> bit_set \<Rightarrow> nat \<Rightarrow> byte list"
and encode_marked_members ::
  "conv_ops \<Rightarrow> bool \<Rightarrow> byte_order \<Rightarrow> pv_field \<Rightarrow> named_fields \<Rightarrow> nat \<Rightarrow> bit_set \<Rightarrow> nat \<Rightarrow> byte list"
where
  "encode_marked cv hb ord value desc bs bit_offset =
     (case desc of
        Structure _ (StructFields fs _) \<Rightarrow>
          if bitset_get bs bit_offset then encode_pv_field cv hb ord value desc
          else encode_marked_members cv hb ord value fs 0 bs (bit_offset + 1)
      | _ \<Rightarrow> encode_pv_field cv hb ord value desc)"
| "encode_marked_members cv hb ord value [] i bs child_bit = []"
| "encode_marked_members cv hb ord value ((name, child) # fs) i bs child_bit =
     (let span = total_bits child in
      (if bitset_any_in bs child_bit (child_bit + span) then
         encode_marked cv hb ord
           (case (case value of PStructure s \<Rightarrow> member_at s i name | _ \<Rightarrow> None) of
              Some v \<Rightarrow> v | None \<Rightarrow> default_value_for child)
           child bs child_bit
       else []) @
      encode_marked_members cv hb ord value fs (i + 1) bs (child_bit + span))"

definition encode_pv_field_with_bitset ::
  "conv_ops \<Rightarrow> bool \<Rightarrow> byte_order \<Rightarrow> pv_field \<Rightarrow> field_desc \<Rightarrow> bit_set \<Rightarrow> nat \<Rightarrow> byte list" where
  "encode_pv_field_with_bitset cv hb ord value desc bs bit_offset =
     (if bitset_any_in bs bit_offset (bit_offset + total_bits desc)
      then encode_marked cv hb ord value desc bs bit_offset else [])"

section \<open>Decoders\<close>

fun decode_with_bitset ::
  "bool \<Rightarrow> byte_order \<Rightarrow> field_desc \<Rightarrow> bit_set \<Rightarrow> nat \<Rightarrow> (decode_error, pv_field) decoder"
and decode_members_with_bitset ::
  "bool \<Rightarrow> byte_order \<Rightarrow> named_fields \<Rightarrow> bit_set \<Rightarrow> nat \<Rightarrow> named_values \<Rightarrow> (decode_error, named_values) decoder"
where
  "decode_with_bitset hb ord desc bits bit_offset bs =
     (case desc of
        Structure sid (StructFields fs _) \<Rightarrow>
          if bitset_get bits bit_offset then decode_pv_field hb ord desc bs
          else if \<not> bitset_any_in bits bit_offset (bit_offset + total_bits desc)
          then Inr (default_value_for desc, bs)
          else and_then (decode_members_with_bitset hb ord fs bits (bit_offset + 1) [] bs) (\<lambda>(ms, bs).
            Inr (PStructure (PvStructure sid ms), bs))
      | _ \<Rightarrow>
          if bitset_get bits bit_offset then decode_pv_field hb ord desc bs
          else Inr (default_value_for desc, bs))"
| "decode_members_with_bitset hb ord [] bits child_bit acc bs = Inr (acc, bs)"
| "decode_members_with_bitset hb ord ((name, child) # fs) bits child_bit acc bs =
     and_then (decode_with_bitset hb ord child bits child_bit bs) (\<lambda>(v, bs).
     decode_members_with_bitset hb ord fs bits (child_bit + total_bits child) (acc @ [(name, v)]) bs)"

fun decode_with_bitset_cached ::
  "bool \<Rightarrow> byte_order \<Rightarrow> field_desc \<Rightarrow> bit_set \<Rightarrow> nat \<Rightarrow> type_cache \<Rightarrow> byte list \<Rightarrow>
     (decode_error + pv_field \<times> byte list) \<times> type_cache"
and decode_members_with_bitset_cached ::
  "bool \<Rightarrow> byte_order \<Rightarrow> named_fields \<Rightarrow> bit_set \<Rightarrow> nat \<Rightarrow> named_values \<Rightarrow> type_cache \<Rightarrow> byte list \<Rightarrow>
     (decode_error + named_values \<times> byte list) \<times> type_cache"
where
  "decode_with_bitset_cached hb ord desc bits bit_offset cache bs =
     (case desc of
        Structure sid (StructFields fs _) \<Rightarrow>
          if bitset_get bits bit_offset then decode_pv_field_cached hb ord desc cache bs
          else if \<not> bitset_any_in bits bit_offset (bit_offset + total_bits desc)
          then (Inr (default_value_for desc, bs), cache)
          else and_then_st (decode_members_with_bitset_cached hb ord fs bits (bit_offset + 1) [] cache bs)
            (\<lambda>(ms, bs) cache. (Inr (PStructure (PvStructure sid ms), bs), cache))
      | _ \<Rightarrow>
          if bitset_get bits bit_offset then decode_pv_field_cached hb ord desc cache bs
          else (Inr (default_value_for desc, bs), cache))"
| "decode_members_with_bitset_cached hb ord [] bits child_bit acc cache bs = (Inr (acc, bs), cache)"
| "decode_members_with_bitset_cached hb ord ((name, child) # fs) bits child_bit acc cache bs =
     and_then_st (decode_with_bitset_cached hb ord child bits child_bit cache bs) (\<lambda>(v, bs) cache.
     decode_members_with_bitset_cached hb ord fs bits (child_bit + total_bits child)
       (acc @ [(name, v)]) cache bs)"

text \<open>
  The in-place decoder: the result is the error or the unread input, the
  destination as it was left, and the cache.
\<close>

type_synonym 'a into_result = "(decode_error + byte list) \<times> 'a \<times> type_cache"

definition store_decoded ::
  "pv_field \<Rightarrow> (decode_error + pv_field \<times> byte list) \<times> type_cache \<Rightarrow> pv_field into_result" where
  "store_decoded dst r =
     (case r of
        (Inl e, cache) \<Rightarrow> (Inl e, dst, cache)
      | (Inr (v, bs), cache) \<Rightarrow> (Inr bs, v, cache))"

fun decode_with_bitset_into ::
  "bool \<Rightarrow> byte_order \<Rightarrow> pv_field \<Rightarrow> field_desc \<Rightarrow> bit_set \<Rightarrow> nat \<Rightarrow> type_cache \<Rightarrow> byte list \<Rightarrow>
     pv_field into_result"
and decode_members_into ::
  "bool \<Rightarrow> byte_order \<Rightarrow> named_values \<Rightarrow> named_fields \<Rightarrow> bit_set \<Rightarrow> nat \<Rightarrow> type_cache \<Rightarrow> byte list \<Rightarrow>
     named_values into_result"
where
  "decode_with_bitset_into hb ord dst desc bits bit_offset cache bs =
     (case desc of
        Structure sid (StructFields fs _) \<Rightarrow>
          if bitset_get bits bit_offset then store_decoded dst (decode_pv_field_cached hb ord desc cache bs)
          else if \<not> bitset_any_in bits bit_offset (bit_offset + total_bits desc) then (Inr bs, dst, cache)
          else
            (case dst of
               PStructure (PvStructure sid' ms) \<Rightarrow>
                 if length ms = length fs then
                   (case decode_members_into hb ord ms fs bits (bit_offset + 1) cache bs of
                      (r, ms', cache') \<Rightarrow> (r, PStructure (PvStructure sid' ms'), cache'))
                 else store_decoded dst (decode_with_bitset_cached hb ord desc bits bit_offset cache bs)
             | _ \<Rightarrow> store_decoded dst (decode_with_bitset_cached hb ord desc bits bit_offset cache bs))
      | _ \<Rightarrow>
          if bitset_get bits bit_offset then store_decoded dst (decode_pv_field_cached hb ord desc cache bs)
          else (Inr bs, dst, cache))"
| "decode_members_into hb ord ((n, slot) # ms) ((name, child) # fs) bits child_bit cache bs =
     (case decode_with_bitset_into hb ord slot child bits child_bit cache bs of
        (Inl e, slot', cache') \<Rightarrow> (Inl e, (n, slot') # ms, cache')
      | (Inr bs', slot', cache') \<Rightarrow>
          (case decode_members_into hb ord ms fs bits (child_bit + total_bits child) cache' bs' of
             (r, ms', cache'') \<Rightarrow> (r, (n, slot') # ms', cache'')))"
| "decode_members_into hb ord ms fs bits child_bit cache bs = (Inr bs, ms, cache)"

declare encode_marked.simps [simp del] decode_with_bitset.simps [simp del]
  decode_with_bitset_cached.simps [simp del] decode_with_bitset_into.simps [simp del]

section \<open>Receivers\<close>

text \<open>\<^verbatim>\<open>Vec::swap_remove\<close>: the last element takes the place of the removed one.\<close>

definition swap_remove :: "nat \<Rightarrow> 'a list \<Rightarrow> 'a list" where
  "swap_remove i xs = (butlast xs)[i := last xs]"

fun fill_unmarked_from_prior :: "field_desc \<Rightarrow> bit_set \<Rightarrow> nat \<Rightarrow> pv_field \<Rightarrow> pv_field \<Rightarrow> pv_field"
and fill_members ::
  "named_fields \<Rightarrow> bit_set \<Rightarrow> nat \<Rightarrow> named_values \<Rightarrow> pv_structure option \<Rightarrow> named_values" where
  "fill_unmarked_from_prior desc bits bit_offset decoded prior =
     (case desc of
        Structure sid (StructFields fs _) \<Rightarrow>
          if bitset_get bits bit_offset then decoded
          else PStructure (PvStructure sid
            (fill_members fs bits (bit_offset + 1)
              (case decoded of PStructure s \<Rightarrow> ps_fields s | _ \<Rightarrow> [])
              (case prior of PStructure s \<Rightarrow> Some s | _ \<Rightarrow> None)))
      | _ \<Rightarrow> if bitset_get bits bit_offset then decoded else prior)"
| "fill_members [] bits child_bit children prior = []"
| "fill_members ((name, child) # fs) bits child_bit children prior =
     (let (decoded_child, children') =
            (case position (\<lambda>x. fst x = name) children of
               Some idx \<Rightarrow> (snd (children ! idx), swap_remove idx children)
             | None \<Rightarrow> (default_value_for child, children));
          prior_child =
            (case (case prior of None \<Rightarrow> None | Some s \<Rightarrow> get_field s name) of
               Some v \<Rightarrow> v | None \<Rightarrow> default_value_for child)
      in (name, fill_unmarked_from_prior child bits child_bit decoded_child prior_child) #
         fill_members fs bits (child_bit + total_bits child) children' prior)"

fun prune_to_marked :: "field_desc \<Rightarrow> bit_set \<Rightarrow> nat \<Rightarrow> pv_field \<Rightarrow> pv_field option"
and prune_members :: "named_fields \<Rightarrow> bit_set \<Rightarrow> nat \<Rightarrow> pv_structure option \<Rightarrow> named_values" where
  "prune_to_marked desc bits bit_offset decoded =
     (case desc of
        Structure sid (StructFields fs _) \<Rightarrow>
          if bitset_get bits bit_offset then Some decoded
          else
            (let out = prune_members fs bits (bit_offset + 1)
                   (case decoded of PStructure s \<Rightarrow> Some s | _ \<Rightarrow> None)
             in if out = [] then None else Some (PStructure (PvStructure sid out)))
      | _ \<Rightarrow> if bitset_get bits bit_offset then Some decoded else None)"
| "prune_members [] bits child_bit decoded = []"
| "prune_members ((name, child) # fs) bits child_bit decoded =
     (let decoded_child =
            (case (case decoded of None \<Rightarrow> None | Some s \<Rightarrow> get_field s name) of
               Some v \<Rightarrow> v | None \<Rightarrow> default_value_for child);
          rest = prune_members fs bits (child_bit + total_bits child) decoded
      in case prune_to_marked child bits child_bit decoded_child of
           Some kept \<Rightarrow> (name, kept) # rest
         | None \<Rightarrow> rest)"

declare fill_unmarked_from_prior.simps [simp del] prune_to_marked.simps [simp del]

section \<open>Descriptor check (value_check.rs)\<close>

datatype value_desc_mismatch =
    VariantMismatch string string
  | ScalarTypeMismatch scalar_type scalar_type
  | StructureIdMismatch "byte list" "byte list"
  | UnionSelectorOutOfRange int nat
  | MissingField "byte list"
  | UnexpectedField "byte list"

fun value_label :: "pv_field \<Rightarrow> string" where
  "value_label (PScalar _) = ''Scalar''"
| "value_label (PScalarArray _) = ''ScalarArray''"
| "value_label (PScalarArrayTyped _) = ''ScalarArrayTyped''"
| "value_label (PStructure _) = ''Structure''"
| "value_label (PStructureArray _) = ''StructureArray''"
| "value_label (PUnion _ _ _) = ''Union''"
| "value_label (PUnionArray _) = ''UnionArray''"
| "value_label (PVariant _) = ''Variant''"
| "value_label (PVariantArray _) = ''VariantArray''"
| "value_label PNull = ''Null''"

fun desc_label :: "field_desc \<Rightarrow> string" where
  "desc_label (Scalar _) = ''Scalar''"
| "desc_label (ScalarArray _) = ''ScalarArray''"
| "desc_label (Structure _ _) = ''Structure''"
| "desc_label (StructureArray _ _) = ''StructureArray''"
| "desc_label (Union _ _) = ''Union''"
| "desc_label (UnionArray _ _) = ''UnionArray''"
| "desc_label Variant = ''Variant''"
| "desc_label VariantArray = ''VariantArray''"

text \<open>A loop that stops at the first error.\<close>

primrec check_all :: "('a \<Rightarrow> 'e + unit) \<Rightarrow> 'a list \<Rightarrow> 'e + unit" where
  "check_all f [] = Inr ()"
| "check_all f (x # xs) = and_then (f x) (\<lambda>_. check_all f xs)"

lemma check_all_cong [fundef_cong]:
  "xs = ys \<Longrightarrow> (\<And>x. x \<in> set ys \<Longrightarrow> f x = g x) \<Longrightarrow> check_all f xs = check_all g ys"
proof -
  have "(\<And>x. x \<in> set ys \<Longrightarrow> f x = g x) \<Longrightarrow> check_all f ys = check_all g ys"
    by (induction ys) auto
  then show "xs = ys \<Longrightarrow> (\<And>x. x \<in> set ys \<Longrightarrow> f x = g x) \<Longrightarrow> check_all f xs = check_all g ys"
    by simp
qed

lemma check_all_Inr [simp]: "check_all f xs = Inr () \<longleftrightarrow> (\<forall>x \<in> set xs. f x = Inr ())"
  by (induction xs) (auto simp: and_then_eq_Inr)

definition structure_fields_match ::
  "(pv_field \<Rightarrow> field_desc \<Rightarrow> value_desc_mismatch + unit) \<Rightarrow> pv_structure \<Rightarrow> named_fields \<Rightarrow>
     value_desc_mismatch + unit" where
  "structure_fields_match matches s fs =
     and_then (check_all (\<lambda>(name, child). case get_field s name of
         Some v \<Rightarrow> matches v child
       | None \<Rightarrow> Inl (MissingField name)) fs) (\<lambda>_.
     check_all (\<lambda>(name, _).
         if list_ex (\<lambda>(n, _). n = name) fs then Inr () else Inl (UnexpectedField name)) (ps_fields s))"

lemma structure_fields_match_cong [fundef_cong]:
  assumes "s = s'" "fs = fs'" "\<And>v c. c \<in> snd ` set fs' \<Longrightarrow> f v c = g v c"
  shows "structure_fields_match f s fs = structure_fields_match g s' fs'"
proof -
  have "check_all (\<lambda>(name, child). case get_field s' name of
         Some v \<Rightarrow> f v child | None \<Rightarrow> Inl (MissingField name)) fs' =
      check_all (\<lambda>(name, child). case get_field s' name of
         Some v \<Rightarrow> g v child | None \<Rightarrow> Inl (MissingField name)) fs'"
    by (rule check_all_cong [OF refl]) (use assms(3) in \<open>force split: option.split\<close>)
  then show ?thesis by (simp add: structure_fields_match_def assms(1,2))
qed

lemma desc_member_size:
  "c \<in> snd ` set (sf_fields sf) \<Longrightarrow> size c < size (Structure sid sf)"
  "c \<in> snd ` set (sf_fields sf) \<Longrightarrow> size c < size (StructureArray sid sf)"
  "union_index sel vs = Some i \<Longrightarrow> size (snd (vs ! i)) < size (Union sid vs)"
  "union_index sel vs = Some i \<Longrightarrow> size (snd (vs ! i)) < size (UnionArray sid vs)"
  using size_child [of _ "Structure sid sf"] size_child [of _ "StructureArray sid sf"]
    size_union_member [of i vs sid]
  by (cases sf; auto simp: union_index_def split: if_splits)+

function value_matches_descriptor :: "pv_field \<Rightarrow> field_desc \<Rightarrow> value_desc_mismatch + unit" where
  "value_matches_descriptor value desc =
     (let mismatch = Inl (VariantMismatch (desc_label desc) (value_label value)) in
      case desc of
        Scalar st \<Rightarrow>
          (case value of
             PScalar v \<Rightarrow>
               if scalar_type_of v = st then Inr () else Inl (ScalarTypeMismatch st (scalar_type_of v))
           | _ \<Rightarrow> mismatch)
      | ScalarArray st \<Rightarrow>
          (case value of
             PScalarArray items \<Rightarrow>
               (case find (\<lambda>t. t \<noteq> st) (map scalar_type_of items) of
                  Some t \<Rightarrow> Inl (ScalarTypeMismatch st t)
                | None \<Rightarrow> Inr ())
           | PScalarArrayTyped arr \<Rightarrow>
               if array_type arr = st then Inr () else Inl (ScalarTypeMismatch st (array_type arr))
           | _ \<Rightarrow> mismatch)
      | Structure sid sf \<Rightarrow>
          (case value of
             PStructure s \<Rightarrow>
               if ps_struct_id s \<noteq> sid then Inl (StructureIdMismatch sid (ps_struct_id s))
               else structure_fields_match value_matches_descriptor s (sf_fields sf)
           | _ \<Rightarrow> mismatch)
      | StructureArray sid sf \<Rightarrow>
          (case value of
             PStructureArray items \<Rightarrow>
               check_all (\<lambda>x. case x of
                   None \<Rightarrow> Inr ()
                 | Some s \<Rightarrow>
                     if ps_struct_id s \<noteq> sid then Inl (StructureIdMismatch sid (ps_struct_id s))
                     else structure_fields_match value_matches_descriptor s (sf_fields sf)) items
           | _ \<Rightarrow> mismatch)
      | Union sid vs \<Rightarrow>
          (case value of
             PUnion selector nm v \<Rightarrow>
               if selector < 0 then Inr ()
               else
                 (case union_index selector vs of
                    Some i \<Rightarrow> value_matches_descriptor v (snd (vs ! i))
                  | None \<Rightarrow> Inl (UnionSelectorOutOfRange selector (length vs)))
           | _ \<Rightarrow> mismatch)
      | UnionArray sid vs \<Rightarrow>
          (case value of
             PUnionArray items \<Rightarrow>
               check_all (\<lambda>x. case x of
                   None \<Rightarrow> Inr ()
                 | Some it \<Rightarrow>
                     if ui_selector it < 0 then Inr ()
                     else
                       (case union_index (ui_selector it) vs of
                          Some i \<Rightarrow> value_matches_descriptor (ui_value it) (snd (vs ! i))
                        | None \<Rightarrow> Inl (UnionSelectorOutOfRange (ui_selector it) (length vs)))) items
           | _ \<Rightarrow> mismatch)
      | Variant \<Rightarrow> (case value of PVariant _ \<Rightarrow> Inr () | PNull \<Rightarrow> Inr () | _ \<Rightarrow> mismatch)
      | VariantArray \<Rightarrow> (case value of PVariantArray _ \<Rightarrow> Inr () | _ \<Rightarrow> mismatch))"
  by pat_completeness auto
termination
  by (relation "measure (\<lambda>(v, d). size d)", rule wf_measure)
    (hypsubst, unfold in_measure prod.case, rule desc_member_size; assumption)+

declare value_matches_descriptor.simps [simp del]

definition field_at :: "pv_structure \<Rightarrow> nat \<Rightarrow> byte list \<Rightarrow> pv_field option" where
  "field_at s i name =
     (if i < length (ps_fields s) \<and> fst (ps_fields s ! i) = name
      then Some (snd (ps_fields s ! i)) else get_field s name)"

text \<open>\<^verbatim>\<open>field_at_mut\<close>: the index of the slot.\<close>

definition field_at_mut :: "pv_structure \<Rightarrow> nat \<Rightarrow> byte list \<Rightarrow> nat option" where
  "field_at_mut s i name =
     (if i < length (ps_fields s) \<and> fst (ps_fields s ! i) = name then Some i
      else position (\<lambda>x. fst x = name) (ps_fields s))"

definition marked_below :: "bit_set \<Rightarrow> nat \<Rightarrow> nat \<Rightarrow> bool" where
  "marked_below marks start stop = list_ex (bitset_get marks) [start..<stop]"

fun check_marked :: "field_desc \<Rightarrow> bit_set \<Rightarrow> nat \<Rightarrow> pv_field \<Rightarrow> value_desc_mismatch + unit"
and check_marked_members ::
  "named_fields \<Rightarrow> bit_set \<Rightarrow> nat \<Rightarrow> nat \<Rightarrow> pv_structure \<Rightarrow> value_desc_mismatch + unit" where
  "check_marked desc marks b delta =
     (if bitset_get marks b then value_matches_descriptor delta desc
      else
        case desc of
          Structure _ (StructFields fs _) \<Rightarrow>
            (case delta of
               PStructure s \<Rightarrow> check_marked_members fs marks (b + 1) 0 s
             | _ \<Rightarrow>
                 if marked_below marks (b + 1) (b + total_bits desc)
                 then Inl (VariantMismatch (desc_label desc) (value_label delta)) else Inr ())
        | _ \<Rightarrow> Inr ())"
| "check_marked_members [] marks child_bit i s = Inr ()"
| "check_marked_members ((name, child) # fs) marks child_bit i s =
     (let span = total_bits child in
      and_then
        (case field_at s i name of
           Some x \<Rightarrow> check_marked child marks child_bit x
         | None \<Rightarrow>
             if marked_below marks child_bit (child_bit + span) then Inl (MissingField name) else Inr ())
        (\<lambda>_. check_marked_members fs marks (child_bit + span) (i + 1) s))"

fun copy_marked :: "field_desc \<Rightarrow> bit_set \<Rightarrow> nat \<Rightarrow> pv_field \<Rightarrow> pv_field \<Rightarrow> pv_field"
and copy_marked_members ::
  "named_fields \<Rightarrow> bit_set \<Rightarrow> nat \<Rightarrow> nat \<Rightarrow> pv_structure \<Rightarrow> pv_structure \<Rightarrow> pv_structure" where
  "copy_marked desc marks b delta cur =
     (if bitset_get marks b then delta
      else
        case desc of
          Structure _ (StructFields fs _) \<Rightarrow>
            (case (delta, cur) of
               (PStructure ds, PStructure cs) \<Rightarrow> PStructure (copy_marked_members fs marks (b + 1) 0 ds cs)
             | _ \<Rightarrow> cur)
        | _ \<Rightarrow> cur)"
| "copy_marked_members [] marks child_bit i ds cs = cs"
| "copy_marked_members ((name, child) # fs) marks child_bit i ds cs =
     copy_marked_members fs marks (child_bit + total_bits child) (i + 1) ds
       (case field_at ds i name of
          None \<Rightarrow> cs
        | Some d \<Rightarrow>
            (case field_at_mut cs i name of
               Some k \<Rightarrow>
                 PvStructure (ps_struct_id cs)
                   ((ps_fields cs)[k := (fst (ps_fields cs ! k),
                      copy_marked child marks child_bit d (snd (ps_fields cs ! k)))])
             | None \<Rightarrow>
                 PvStructure (ps_struct_id cs)
                   (ps_fields cs @ [(name, copy_marked child marks child_bit d d)])))"

definition apply_marked_delta ::
  "field_desc \<Rightarrow> bit_set \<Rightarrow> nat \<Rightarrow> pv_field \<Rightarrow> pv_field \<Rightarrow> (value_desc_mismatch + unit) \<times> pv_field" where
  "apply_marked_delta desc marks bit_offset delta cur =
     (case check_marked desc marks bit_offset delta of
        Inl e \<Rightarrow> (Inl e, cur)
      | Inr _ \<Rightarrow> (Inr (), copy_marked desc marks bit_offset delta cur))"

declare check_marked.simps [simp del] copy_marked.simps [simp del]

section \<open>Changed sets (encode.rs)\<close>

fun canonical_walk :: "field_desc \<Rightarrow> nat \<Rightarrow> bit_set \<Rightarrow> bit_set \<Rightarrow> bit_set"
and canonical_walk_members :: "named_fields \<Rightarrow> nat \<Rightarrow> bit_set \<Rightarrow> bit_set \<Rightarrow> bit_set" where
  "canonical_walk desc bit_offset selection out =
     (case desc of
        Structure _ (StructFields fs _) \<Rightarrow> canonical_walk_members fs (bit_offset + 1) selection out
      | _ \<Rightarrow> if bitset_get selection bit_offset then bitset_set out bit_offset else out)"
| "canonical_walk_members [] child_bit selection out = out"
| "canonical_walk_members ((_, child) # fs) child_bit selection out =
     canonical_walk_members fs (child_bit + total_bits child) selection
       (canonical_walk child child_bit selection out)"

declare canonical_walk.simps [simp del]

definition canonical_changed_bitset :: "field_desc \<Rightarrow> bit_set \<Rightarrow> bit_set" where
  "canonical_changed_bitset desc selection = canonical_walk desc 0 selection bitset_new"

definition marked_changed_bitset :: "field_desc \<Rightarrow> byte list list \<Rightarrow> bit_set" where
  "marked_changed_bitset desc marked_paths =
     foldl (\<lambda>out path.
       if path = [] then out
       else
         case bit_span_for_path desc path of
           Some (start, stop) \<Rightarrow> foldl bitset_set out [start..<stop]
         | None \<Rightarrow> out) bitset_new marked_paths"

definition marked_wire_changed_bitset :: "field_desc \<Rightarrow> byte list list \<Rightarrow> bit_set \<Rightarrow> bit_set" where
  "marked_wire_changed_bitset desc marked_paths request_mask =
     (let target = marked_changed_bitset desc marked_paths;
          selected = foldl (\<lambda>out b. if bitset_get request_mask b then bitset_set out b else out)
            bitset_new (bitset_iter target)
      in canonical_changed_bitset desc selected)"

section \<open>Squashing two queued monitor bodies (monitor\_squash.rs)\<close>

record monitor_body =
  mb_bytes :: "byte list"
  mb_order :: byte_order

datatype squash_error =
    OlderChanged decode_error | OlderValue decode_error | OlderOverrun decode_error
  | NewerChanged decode_error | NewerValue decode_error | NewerOverrun decode_error

fun map_err :: "('e \<Rightarrow> 'f) \<Rightarrow> 'e + 'a \<Rightarrow> 'f + 'a" where
  "map_err f (Inl e) = Inl (f e)"
| "map_err f (Inr x) = Inr x"

definition squash_monitor_bodies ::
  "conv_ops \<Rightarrow> bool \<Rightarrow> field_desc \<Rightarrow> monitor_body \<Rightarrow> monitor_body \<Rightarrow> byte_order \<Rightarrow> squash_error + byte list" where
  "squash_monitor_bodies cv hb intro older newer out_order =
     and_then (map_err OlderChanged (bitset_decode (mb_order older) (mb_bytes older))) (\<lambda>(changed_a, cur_a).
     and_then (map_err OlderValue (decode_with_bitset hb (mb_order older) intro changed_a 0 cur_a))
       (\<lambda>(value_a, cur_a).
     and_then (map_err OlderOverrun (bitset_decode (mb_order older) cur_a)) (\<lambda>(overrun_a, _).
     and_then (map_err NewerChanged (bitset_decode (mb_order newer) (mb_bytes newer))) (\<lambda>(changed_b, cur_b).
     case decode_with_bitset_into hb (mb_order newer) value_a intro changed_b 0 Map.empty cur_b of
       (Inl e, _, _) \<Rightarrow> Inl (NewerValue e)
     | (Inr cur_b, value, _) \<Rightarrow>
         and_then (map_err NewerOverrun (bitset_decode (mb_order newer) cur_b)) (\<lambda>(overrun_b, _).
         let changed = squash_changed intro changed_a changed_b;
             overrun = squash_overrun overrun_a overrun_b
         in Inr (bitset_write_into out_order changed @
                 encode_pv_field_with_bitset cv hb out_order value intro changed 0 @
                 bitset_write_into out_order overrun))))))"

end
