(* ===== verification/Pva_Delta_Correct.thy ===== *)
theory Pva_Delta_Correct
  imports Pva_Delta
begin

text \<open>
  Correctness of the partial-value codec.  The decoders, the client's merge
  with its prior value and the server's merge into its stored value are all
  \<open>overlay\<close>, the marked parts of one value on top of another.  From that
  follows that squashing two queued updates has the effect of delivering both
  in order.
\<close>

section \<open>The abstract operation\<close>

fun members_of :: "pv_field \<Rightarrow> named_values" where
  "members_of (PStructure s) = ps_fields s"
| "members_of _ = []"

fun overlay :: "field_desc \<Rightarrow> bit_set \<Rightarrow> nat \<Rightarrow> pv_field \<Rightarrow> pv_field \<Rightarrow> pv_field"
and overlay_members :: "named_fields \<Rightarrow> bit_set \<Rightarrow> nat \<Rightarrow> named_values \<Rightarrow> named_values \<Rightarrow> named_values" where
  "overlay d bits off v p =
     (if bitset_get bits off then v
      else
        case d of
          Structure sid (StructFields fs _) \<Rightarrow>
            PStructure (PvStructure sid (overlay_members fs bits (off + 1) (members_of v) (members_of p)))
        | _ \<Rightarrow> p)"
| "overlay_members ((n, c) # fs) bits off ((_, x) # vs) ((_, y) # ps) =
     (n, overlay c bits off x y) # overlay_members fs bits (off + total_bits c) vs ps"
| "overlay_members _ bits off vs ps = []"

declare overlay.simps [simp del]

text \<open>A value has the structure skeleton of a descriptor; leaves are free.\<close>

fun shaped :: "field_desc \<Rightarrow> pv_field \<Rightarrow> bool" and shaped_members :: "named_fields \<Rightarrow> named_values \<Rightarrow> bool" where
  "shaped d v =
     (case d of
        Structure sid (StructFields fs _) \<Rightarrow>
          (case v of PStructure s \<Rightarrow> ps_struct_id s = sid \<and> shaped_members fs (ps_fields s) | _ \<Rightarrow> False)
      | _ \<Rightarrow> True)"
| "shaped_members [] [] = True"
| "shaped_members ((n, c) # fs) ((m, x) # ms) = (n = m \<and> shaped c x \<and> shaped_members fs ms)"
| "shaped_members _ _ = False"

declare shaped.simps [simp del]

lemma shaped_members_Nil [simp]: "shaped_members [] ms \<longleftrightarrow> ms = []"
  by (cases ms) auto

lemma shaped_members_Cons:
  "shaped_members ((n, c) # fs) ms \<Longrightarrow> \<exists>x ms'. ms = (n, x) # ms' \<and> shaped c x \<and> shaped_members fs ms'"
  by (cases ms) auto

lemma shaped_leaf [simp]: "\<not> is_structure d \<Longrightarrow> shaped d v"
  by (subst shaped.simps) (cases d; simp)

lemma shaped_Structure:
  "shaped (Structure sid (StructFields fs n)) v \<longleftrightarrow>
     (\<exists>ms. v = PStructure (PvStructure sid ms) \<and> shaped_members fs ms)"
  by (subst shaped.simps) (auto split: pv_field.splits intro: pv_structure.collapse [symmetric])

lemma shaped_members_length: "shaped_members fs ms \<Longrightarrow> length ms = length fs"
  by (induction fs ms rule: shaped_shaped_members.induct(2) [where P = "\<lambda>_ _. True"]) auto

lemma shaped_members_names: "shaped_members fs ms \<Longrightarrow> map fst ms = map fst fs"
  by (induction fs ms rule: shaped_shaped_members.induct(2) [where P = "\<lambda>_ _. True"]) auto

lemma overlay_leaf: "\<not> is_structure d \<Longrightarrow> overlay d bits off v p = (if bitset_get bits off then v else p)"
  by (subst overlay.simps) (cases d; simp)

lemma overlay_Structure:
  "overlay (Structure sid (StructFields fs n)) bits off v p =
     (if bitset_get bits off then v
      else PStructure (PvStructure sid (overlay_members fs bits (off + 1) (members_of v) (members_of p))))"
  by (subst overlay.simps) simp

lemma typed_shaped:
  "typed ok d v \<Longrightarrow> shaped d v"
  "members_typed (typed ok) fs ms \<Longrightarrow> shaped_members fs ms"
proof (induction d and fs arbitrary: v and ms rule: desc_height_fields_height.induct)
  case (1 sid fs n)
  then show ?case by (auto simp: has_type_Structure shaped_Structure)
next
  case (7 n d fs)
  then show ?case by (cases ms) (auto simp: members_typed_def)
qed (auto simp: members_typed_def)

lemma default_shaped: "shaped d (default_value_for d)" "shaped_members fs (default_members fs)"
  by (induction d and fs rule: desc_height_fields_height.induct) (auto simp: shaped_Structure)

lemma overlay_shaped:
  "shaped d v \<Longrightarrow> shaped d p \<Longrightarrow> shaped d (overlay d bits off v p)"
  "shaped_members fs vs \<Longrightarrow> shaped_members fs ps \<Longrightarrow> shaped_members fs (overlay_members fs bits off vs ps)"
proof (induction d and fs arbitrary: off v p and off vs ps rule: desc_height_fields_height.induct)
  case (1 sid fs n)
  then show ?case by (auto simp: shaped_Structure overlay_Structure)
next
  case (7 n d fs)
  then show ?case by (cases vs; cases ps) auto
qed auto

lemma overlay_typed:
  "typed ok d v \<Longrightarrow> typed ok d p \<Longrightarrow> typed ok d (overlay d bits off v p)"
  "members_typed (typed ok) fs vs \<Longrightarrow> members_typed (typed ok) fs ps \<Longrightarrow>
     members_typed (typed ok) fs (overlay_members fs bits off vs ps)"
proof (induction d and fs arbitrary: off v p and off vs ps rule: desc_height_fields_height.induct)
  case (1 sid fs n)
  then show ?case by (auto simp: has_type_Structure overlay_Structure)
next
  case (7 n d fs)
  then show ?case by (cases vs; cases ps) (auto simp: members_typed_def)
qed (auto simp: overlay_leaf members_typed_def)

text \<open>The operation reads the set only through \<open>bitset_get\<close>.\<close>

lemma overlay_cong:
  "(\<And>i. bitset_get a i = bitset_get b i) \<Longrightarrow> overlay d a off v p = overlay d b off v p"
  "(\<And>i. bitset_get a i = bitset_get b i) \<Longrightarrow> overlay_members fs a off vs ps = overlay_members fs b off vs ps"
proof (induction d and fs arbitrary: off v p and off vs ps rule: desc_height_fields_height.induct)
  case (1 sid fs n)
  then show ?case by (simp add: overlay_Structure)
next
  case (7 n d fs)
  then show ?case by (cases vs; cases ps) auto
qed (auto simp: overlay_leaf)

lemma overlay_unmarked:
  "wf_desc d \<Longrightarrow> shaped d v \<Longrightarrow> shaped d p \<Longrightarrow> (\<And>i. off \<le> i \<Longrightarrow> i < off + total_bits d \<Longrightarrow> \<not> bitset_get bits i) \<Longrightarrow>
     overlay d bits off v p = p"
  "wf_fields fs \<Longrightarrow> shaped_members fs vs \<Longrightarrow> shaped_members fs ps \<Longrightarrow>
     (\<And>i. off \<le> i \<Longrightarrow> i < off + sum_list (map (\<lambda>(_, c). total_bits c) fs) \<Longrightarrow> \<not> bitset_get bits i) \<Longrightarrow>
     overlay_members fs bits off vs ps = ps"
proof (induction d and fs arbitrary: off v p and off vs ps rule: desc_height_fields_height.induct)
  case (1 sid fs n)
  then show ?case by (auto simp: overlay_Structure shaped_Structure)
next
  case (7 n d fs)
  then show ?case by (cases vs; cases ps) (auto simp: total_bits_pos)
qed (auto simp: overlay_leaf)

lemma overlay_overlay:
  "shaped d v \<Longrightarrow> shaped d q \<Longrightarrow> overlay d bits off (overlay d bits off v q) p = overlay d bits off v p"
  "shaped_members fs vs \<Longrightarrow> shaped_members fs qs \<Longrightarrow>
     overlay_members fs bits off (overlay_members fs bits off vs qs) ps = overlay_members fs bits off vs ps"
proof (induction d and fs arbitrary: off v q p and off vs qs ps rule: desc_height_fields_height.induct)
  case (1 sid fs n)
  then show ?case by (auto simp: overlay_Structure shaped_Structure)
next
  case (7 n d fs)
  then show ?case by (cases vs; cases qs; cases ps) auto
qed (auto simp: overlay_leaf)

section \<open>Codec\<close>

lemma encode_marked_leaf:
  "\<not> is_structure d \<Longrightarrow> encode_marked cv hb ord v d bits off = encode_pv_field cv hb ord v d"
  by (subst encode_marked.simps) (cases d; simp)

lemma encode_marked_Structure:
  "encode_marked cv hb ord v (Structure sid (StructFields fs n)) bits off =
     (if bitset_get bits off then encode_pv_field cv hb ord v (Structure sid (StructFields fs n))
      else encode_marked_members cv hb ord v fs 0 bits (off + 1))"
  by (subst encode_marked.simps) simp

lemma encode_marked_member:
  "encode_marked_members cv hb ord (PStructure (PvStructure sid (pre @ (name, x) # ms))) ((name, child) # fs)
     (length pre) bits b =
    encode_pv_field_with_bitset cv hb ord x child bits b @
    encode_marked_members cv hb ord (PStructure (PvStructure sid (pre @ (name, x) # ms))) fs
      (Suc (length pre)) bits (b + total_bits child)"
  by (simp add: encode_pv_field_with_bitset_def Let_def member_at_def)

lemma decode_cached_leaf:
  "\<not> is_structure d \<Longrightarrow> decode_with_bitset_cached hb ord d bits off cache bs =
     (if bitset_get bits off then decode_pv_field_cached hb ord d cache bs
      else (Inr (default_value_for d, bs), cache))"
  by (subst decode_with_bitset_cached.simps) (cases d; simp)

lemma decode_cached_Structure:
  "decode_with_bitset_cached hb ord (Structure sid (StructFields fs n)) bits off cache bs =
     (if bitset_get bits off then decode_pv_field_cached hb ord (Structure sid (StructFields fs n)) cache bs
      else if \<not> bitset_any_in bits off (off + n)
      then (Inr (default_value_for (Structure sid (StructFields fs n)), bs), cache)
      else and_then_st (decode_members_with_bitset_cached hb ord fs bits (off + 1) [] cache bs)
        (\<lambda>(ms, bs) cache. (Inr (PStructure (PvStructure sid ms), bs), cache)))"
  by (subst decode_with_bitset_cached.simps) simp

lemma decode_leaf:
  "\<not> is_structure d \<Longrightarrow> decode_with_bitset hb ord d bits off bs =
     (if bitset_get bits off then decode_pv_field hb ord d bs else Inr (default_value_for d, bs))"
  by (subst decode_with_bitset.simps) (cases d; simp)

lemma decode_Structure:
  "decode_with_bitset hb ord (Structure sid (StructFields fs n)) bits off bs =
     (if bitset_get bits off then decode_pv_field hb ord (Structure sid (StructFields fs n)) bs
      else if \<not> bitset_any_in bits off (off + n)
      then Inr (default_value_for (Structure sid (StructFields fs n)), bs)
      else and_then (decode_members_with_bitset hb ord fs bits (off + 1) [] bs)
        (\<lambda>(ms, bs). Inr (PStructure (PvStructure sid ms), bs)))"
  by (subst decode_with_bitset.simps) simp

text \<open>What a sender may put on the wire under a descriptor.\<close>

definition postable :: "field_desc \<Rightarrow> pv_field \<Rightarrow> bool" where
  "postable d v \<longleftrightarrow>
     has_type d v \<and> value_wire v \<and> wf_desc d \<and> desc_nodes d \<le> MAX_FIELD_NODES \<and>
     value_depth v \<le> MAX_FIELD_DEPTH"

definition postable_members :: "named_fields \<Rightarrow> named_values \<Rightarrow> bool" where
  "postable_members fs ms \<longleftrightarrow>
     members_typed has_type fs ms \<and> (\<forall>x \<in> set ms. value_wire (snd x) \<and> value_depth (snd x) \<le> MAX_FIELD_DEPTH) \<and>
     wf_fields fs \<and> fields_nodes fs \<le> MAX_FIELD_NODES"

lemma postable_Structure:
  assumes "postable (Structure sid (StructFields fs n)) v"
  shows "\<exists>ms. v = PStructure (PvStructure sid ms) \<and> postable_members fs ms"
proof -
  obtain ms where v: "v = PStructure (PvStructure sid ms)" "members_typed has_type fs ms"
    using assms by (auto simp: postable_def has_type_Structure)
  have "value_wire (snd x) \<and> value_depth (snd x) \<le> MAX_FIELD_DEPTH" if "x \<in> set ms" for x
    using assms that value_depth_PStructure [of 0 sid ms MAX_FIELD_DEPTH]
      value_wire_subvalue [of "PStructure (PvStructure sid ms)" "snd x"]
    by (auto simp: postable_def v(1) dest: Suc_leD)
  with v assms show ?thesis by (auto simp: postable_def postable_members_def)
qed

lemma postable_members_Nil [simp]: "postable_members [] ms \<longleftrightarrow> ms = []"
  by (auto simp: postable_members_def members_typed_def)

lemma postable_members_Cons:
  "postable_members ((n, c) # fs) ms \<Longrightarrow>
     \<exists>x ms'. ms = (n, x) # ms' \<and> postable c x \<and> postable_members fs ms'"
  by (auto simp: postable_members_def postable_def members_typed_def list_all2_Cons1)

lemma postable_decode:
  "postable d v \<Longrightarrow>
   decode_pv_field_cached hb ord d cache (encode_pv_field cv hb' ord v d @ rest) = (Inr (v, rest), cache)"
  "postable d v \<Longrightarrow> decode_pv_field hb ord d (encode_pv_field cv hb' ord v d @ rest) = Inr (v, rest)"
  using recoveredD [OF value_recovered, of v d 0 hb ord _ cv hb' rest]
  by (simp_all add: postable_def decode_pv_field_cached_def decode_pv_field_def)

lemma any_in_single [simp]: "bitset_any_in bits off (Suc off) \<longleftrightarrow> bitset_get bits off"
  by (auto simp: any_in_iff) (metis le_antisym less_Suc_eq_le)

lemma unmarked_root: "wf_desc d \<Longrightarrow> \<not> bitset_any_in bits off (off + total_bits d) \<Longrightarrow> \<not> bitset_get bits off"
  using total_bits_pos [of d] by (auto simp: any_in_iff)

lemma decode_encode_marked:
  "postable d v \<Longrightarrow>
     decode_with_bitset_cached hb ord d bits off cache
       (encode_pv_field_with_bitset cv hb' ord v d bits off @ rest) =
       (Inr (overlay d bits off v (default_value_for d), rest), cache)"
  "postable_members fs vs \<Longrightarrow> length pre = i \<Longrightarrow>
     decode_members_with_bitset_cached hb ord fs bits off acc cache
       (encode_marked_members cv hb' ord (PStructure (PvStructure sid (pre @ vs))) fs i bits off @ rest) =
       (Inr (acc @ overlay_members fs bits off vs (default_members fs), rest), cache)"
proof (induction d and fs arbitrary: v off rest and vs off acc pre i sid rest rule: desc_height_fields_height.induct)
  case (1 sid' fs n)
  let ?d = "Structure sid' (StructFields fs n)"
  obtain ms where v: "v = PStructure (PvStructure sid' ms)" and ms: "postable_members fs ms"
    using postable_Structure [OF 1(2)] by blast
  have shapes: "shaped ?d v" "wf_desc ?d" using 1(2) typed_shaped by (auto simp: postable_def)
  show ?case
  proof (cases "bitset_any_in bits off (off + total_bits ?d)")
    case True
    then show ?thesis
      using 1(1) [OF ms, of "[]"] postable_decode(1) [OF 1(2)]
      by (simp add: v encode_pv_field_with_bitset_def encode_marked_Structure decode_cached_Structure
          overlay_Structure)
  next
    case False
    then show ?thesis
      using overlay_unmarked(1) [OF shapes(2,1) default_shaped(1), of off bits] unmarked_root [OF shapes(2) False]
      by (auto simp: any_in_iff encode_pv_field_with_bitset_def decode_cached_Structure)
  qed
next
  case (7 n d fs)
  then obtain x ms where ms: "vs = (n, x) # ms" "postable d x" "postable_members fs ms"
    using postable_members_Cons by blast
  show ?case
    using 7(1) [OF ms(2)] 7(2) [where pre = "pre @ [(n, x)]", OF ms(3) refl] 7(4) [symmetric]
    by (simp add: ms(1) encode_marked_member del: encode_marked_members.simps)
qed (simp_all add: encode_pv_field_with_bitset_def encode_marked_leaf decode_cached_leaf
    overlay_leaf postable_decode)

lemma decode_encode_marked_uncached:
  "postable d v \<Longrightarrow>
     decode_with_bitset hb ord d bits off (encode_pv_field_with_bitset cv hb' ord v d bits off @ rest) =
       Inr (overlay d bits off v (default_value_for d), rest)"
  "postable_members fs vs \<Longrightarrow> length pre = i \<Longrightarrow>
     decode_members_with_bitset hb ord fs bits off acc
       (encode_marked_members cv hb' ord (PStructure (PvStructure sid (pre @ vs))) fs i bits off @ rest) =
       Inr (acc @ overlay_members fs bits off vs (default_members fs), rest)"
proof (induction d and fs arbitrary: v off rest and vs off acc pre i sid rest
    rule: desc_height_fields_height.induct)
  case (1 sid' fs n)
  let ?d = "Structure sid' (StructFields fs n)"
  obtain ms where v: "v = PStructure (PvStructure sid' ms)" and ms: "postable_members fs ms"
    using postable_Structure [OF 1(2)] by blast
  have shapes: "shaped ?d v" "wf_desc ?d" using 1(2) typed_shaped by (auto simp: postable_def)
  show ?case
  proof (cases "bitset_any_in bits off (off + total_bits ?d)")
    case True
    then show ?thesis
      using 1(1) [OF ms, of "[]"] postable_decode(2) [OF 1(2)]
      by (simp add: v encode_pv_field_with_bitset_def encode_marked_Structure decode_Structure
          overlay_Structure)
  next
    case False
    then show ?thesis
      using overlay_unmarked(1) [OF shapes(2,1) default_shaped(1), of off bits] unmarked_root [OF shapes(2) False]
      by (auto simp: any_in_iff encode_pv_field_with_bitset_def decode_Structure)
  qed
next
  case (7 n d fs)
  then obtain x ms where ms: "vs = (n, x) # ms" "postable d x" "postable_members fs ms"
    using postable_members_Cons by blast
  show ?case
    using 7(1) [OF ms(2)] 7(2) [where pre = "pre @ [(n, x)]", OF ms(3) refl] 7(4) [symmetric]
    by (simp add: ms(1) encode_marked_member del: encode_marked_members.simps)
qed (simp_all add: encode_pv_field_with_bitset_def encode_marked_leaf decode_leaf
    overlay_leaf postable_decode)

lemma into_leaf:
  "\<not> is_structure d \<Longrightarrow> decode_with_bitset_into hb ord dst d bits off cache bs =
     (if bitset_get bits off then store_decoded dst (decode_pv_field_cached hb ord d cache bs)
      else (Inr bs, dst, cache))"
  by (subst decode_with_bitset_into.simps) (cases d; simp)

lemma into_Structure:
  "length ms = length fs \<Longrightarrow>
   decode_with_bitset_into hb ord (PStructure (PvStructure sid' ms)) (Structure sid (StructFields fs n)) bits off cache bs =
     (if bitset_get bits off
      then store_decoded (PStructure (PvStructure sid' ms))
        (decode_pv_field_cached hb ord (Structure sid (StructFields fs n)) cache bs)
      else if \<not> bitset_any_in bits off (off + n) then (Inr bs, PStructure (PvStructure sid' ms), cache)
      else (case decode_members_into hb ord ms fs bits (off + 1) cache bs of
              (r, ms', cache') \<Rightarrow> (r, PStructure (PvStructure sid' ms'), cache')))"
  by (subst decode_with_bitset_into.simps) simp

lemma store_decoded_Inr [simp]: "store_decoded dst (Inr (v, bs), cache) = (Inr bs, v, cache)"
  by (simp add: store_decoded_def)

lemma decode_into_encode:
  "postable d v \<Longrightarrow> shaped d dst \<Longrightarrow>
     decode_with_bitset_into hb ord dst d bits off cache
       (encode_pv_field_with_bitset cv hb' ord v d bits off @ rest) =
       (Inr rest, overlay d bits off v dst, cache)"
  "postable_members fs vs \<Longrightarrow> shaped_members fs ds \<Longrightarrow> length pre = i \<Longrightarrow>
     decode_members_into hb ord ds fs bits off cache
       (encode_marked_members cv hb' ord (PStructure (PvStructure sid (pre @ vs))) fs i bits off @ rest) =
       (Inr rest, overlay_members fs bits off vs ds, cache)"
proof (induction d and fs arbitrary: v dst off rest and vs ds off pre i sid rest
    rule: desc_height_fields_height.induct)
  case (1 sid' fs n)
  let ?d = "Structure sid' (StructFields fs n)"
  obtain ms where v: "v = PStructure (PvStructure sid' ms)" and ms: "postable_members fs ms"
    using postable_Structure [OF 1(2)] by blast
  obtain ds where dst: "dst = PStructure (PvStructure sid' ds)" "shaped_members fs ds"
    using 1(3) by (auto simp: shaped_Structure)
  have shapes: "shaped ?d v" "wf_desc ?d" using 1(2) typed_shaped by (auto simp: postable_def)
  show ?case
  proof (cases "bitset_any_in bits off (off + total_bits ?d)")
    case True
    then show ?thesis
      using 1(1) [OF ms dst(2), of "[]"] postable_decode(1) [OF 1(2)]
      by (simp add: v dst into_Structure shaped_members_length encode_pv_field_with_bitset_def
          encode_marked_Structure overlay_Structure)
  next
    case False
    then show ?thesis
      using overlay_unmarked(1) [OF shapes(2,1) 1(3), of off bits] unmarked_root [OF shapes(2) False]
        shaped_members_length [OF dst(2)]
      by (auto simp: any_in_iff encode_pv_field_with_bitset_def into_Structure dst(1))
  qed
next
  case (7 n d fs)
  then obtain x ms where ms: "vs = (n, x) # ms" "postable d x" "postable_members fs ms"
    using postable_members_Cons by blast
  obtain y ds' where ds: "ds = (n, y) # ds'" "shaped d y" "shaped_members fs ds'"
    using shaped_members_Cons [OF 7(4)] by blast
  show ?case
    using 7(1) [OF ms(2) ds(2)] 7(2) [where pre = "pre @ [(n, x)]", OF ms(3) ds(3) refl] 7(5) [symmetric]
    by (simp add: ms(1) ds(1) encode_marked_member del: encode_marked_members.simps)
qed (simp_all add: encode_pv_field_with_bitset_def encode_marked_leaf into_leaf
    overlay_leaf postable_decode)

section \<open>Receivers\<close>

fun distinct_names :: "field_desc \<Rightarrow> bool" and fields_distinct_names :: "named_fields \<Rightarrow> bool" where
  "distinct_names (Structure _ (StructFields fs _)) = (distinct (map fst fs) \<and> fields_distinct_names fs)"
| "distinct_names (StructureArray _ (StructFields fs _)) = (distinct (map fst fs) \<and> fields_distinct_names fs)"
| "distinct_names (Union _ vs) = fields_distinct_names vs"
| "distinct_names (UnionArray _ vs) = fields_distinct_names vs"
| "distinct_names _ = True"
| "fields_distinct_names [] = True"
| "fields_distinct_names ((_, d) # fs) = (distinct_names d \<and> fields_distinct_names fs)"

lemma get_field_map_of: "get_field s name = map_of (ps_fields s) name"
proof -
  have "map_option snd (find (\<lambda>(n, _). n = name) xs) = map_of xs name" for xs :: named_values
    by (induction xs) auto
  then show ?thesis by (simp add: get_field_def)
qed

lemma position_unique:
  "distinct (map fst xs) \<Longrightarrow> (name, x) \<in> set xs \<Longrightarrow>
   \<exists>i. position (\<lambda>y. fst y = name) xs = Some i \<and> i < length xs \<and> xs ! i = (name, x)"
proof (induction xs)
  case (Cons y xs)
  then show ?case by (cases "fst y = name") (auto simp: image_iff)
qed simp

lemma swap_remove_set:
  assumes "distinct xs" "i < length xs"
  shows "set (swap_remove i xs) = set xs - {xs ! i}" "distinct (swap_remove i xs)"
proof -
  have xs: "xs = butlast xs @ [last xs]" using assms(2) by (cases xs rule: rev_cases) auto
  have d: "distinct (butlast xs)" "last xs \<notin> set (butlast xs)"
    using assms(1) by (subst (asm) xs, simp)+
  show "set (swap_remove i xs) = set xs - {xs ! i}"
  proof (cases "i < length (butlast xs)")
    case True
    then have "xs ! i = butlast xs ! i" by (simp add: nth_butlast)
    moreover have "butlast xs ! i \<in> set (butlast xs)" using True by (rule nth_mem)
    ultimately show ?thesis
      using d True by (subst (2) xs) (auto simp: swap_remove_def set_update_distinct)
  next
    case False
    then have "xs ! i = last xs" using assms(2)
      by (metis One_nat_def Suc_pred length_butlast length_greater_0_conv less_antisym less_nat_zero_code
          list.size(3) last_conv_nth)
    then show ?thesis using d False by (subst (2) xs) (auto simp: swap_remove_def list_update_beyond)
  qed
  show "distinct (swap_remove i xs)"
    using d by (auto simp: swap_remove_def distinct_list_update)
qed

lemma swap_remove_map: "map f (swap_remove i xs) = swap_remove i (map f xs)" if "xs \<noteq> []"
  using that by (simp add: swap_remove_def map_update map_butlast last_map)

lemma fill_leaf:
  "\<not> is_structure d \<Longrightarrow> fill_unmarked_from_prior d bits off w p = (if bitset_get bits off then w else p)"
  by (subst fill_unmarked_from_prior.simps) (cases d; simp)

lemma fill_Structure:
  "fill_unmarked_from_prior (Structure sid (StructFields fs n)) bits off (PStructure w) (PStructure p) =
     (if bitset_get bits off then PStructure w
      else PStructure (PvStructure sid (fill_members fs bits (off + 1) (ps_fields w) (Some p))))"
  by (subst fill_unmarked_from_prior.simps) simp

lemma fill_overlay:
  "shaped d w \<Longrightarrow> shaped d p \<Longrightarrow> distinct_names d \<Longrightarrow>
     fill_unmarked_from_prior d bits off w p = overlay d bits off w p"
  "shaped_members fs ws \<Longrightarrow> shaped_members fs ps \<Longrightarrow> fields_distinct_names fs \<Longrightarrow> distinct (map fst fs) \<Longrightarrow>
     distinct (map fst children) \<Longrightarrow> set children = set ws \<Longrightarrow>
     (\<And>x. x \<in> set ps \<Longrightarrow> get_field prior (fst x) = Some (snd x)) \<Longrightarrow>
     fill_members fs bits off children (Some prior) = overlay_members fs bits off ws ps"
proof (induction d and fs arbitrary: off w p and off ws ps children prior rule: desc_height_fields_height.induct)
  case (1 sid fs n)
  then obtain ws ps where ws: "w = PStructure (PvStructure sid ws)" "shaped_members fs ws"
    and ps: "p = PStructure (PvStructure sid ps)" "shaped_members fs ps" by (auto simp: shaped_Structure)
  have dist: "distinct (map fst ws)" "distinct (map fst ps)"
    using 1(4) ws(2) ps(2) by (simp_all add: shaped_members_names)
  then have "fill_members fs bits (off + 1) ws (Some (PvStructure sid ps)) = overlay_members fs bits (off + 1) ws ps"
    using 1(4) by (intro 1(1) ws ps) (auto simp: get_field_map_of)
  then show ?case by (simp add: ws(1) ps(1) fill_Structure overlay_Structure)
next
  case (7 n d fs)
  obtain x ws' where ws: "ws = (n, x) # ws'" "shaped d x" "shaped_members fs ws'"
    using shaped_members_Cons [OF 7(3)] by blast
  obtain y ps' where ps: "ps = (n, y) # ps'" "shaped d y" "shaped_members fs ps'"
    using shaped_members_Cons [OF 7(4)] by blast
  have names: "n \<notin> set (map fst ws')" "distinct (map fst ws')"
    using 7(6) shaped_members_names [OF ws(3)] by auto
  obtain i where i: "position (\<lambda>y. fst y = n) children = Some i" "i < length children" "children ! i = (n, x)"
    using position_unique [OF 7(7), of n x] 7(8) ws(1) by auto
  have "set (swap_remove i children) = set ws'"
    using swap_remove_set(1) [of children i] 7(7,8) i(2,3) ws(1) names
    by (auto simp: distinct_map rev_image_eqI)
  moreover have "distinct (map fst (swap_remove i children))"
    using swap_remove_set(2) [of "map fst children" i] 7(7) i(2) swap_remove_map [of children fst i] by force
  ultimately have "fill_members fs bits (off + total_bits d) (swap_remove i children) (Some prior) =
      overlay_members fs bits (off + total_bits d) ws' ps'"
    using 7(5,6,9) ws(3) ps by (intro 7(2)) auto
  then show ?case
    using 7(1) [OF ws(2) ps(2)] 7(5) 7(9) [of "(n, y)"] i by (simp add: ws(1) ps(1))
qed (simp_all add: fill_leaf overlay_leaf)

lemma copy_leaf: "\<not> is_structure d \<Longrightarrow> copy_marked d bits off v p = (if bitset_get bits off then v else p)"
  by (subst copy_marked.simps) (cases d; simp)

lemma copy_Structure:
  "copy_marked (Structure sid (StructFields fs n)) bits off (PStructure v) (PStructure p) =
     (if bitset_get bits off then PStructure v
      else PStructure (copy_marked_members fs bits (off + 1) 0 v p))"
  by (subst copy_marked.simps) simp

lemma copy_overlay:
  "shaped d v \<Longrightarrow> shaped d p \<Longrightarrow> copy_marked d bits off v p = overlay d bits off v p"
  "shaped_members fs vs \<Longrightarrow> shaped_members fs ps \<Longrightarrow> length pre = i \<Longrightarrow> length pre' = i \<Longrightarrow>
     copy_marked_members fs bits off i (PvStructure sid (pre @ vs)) (PvStructure sid' (pre' @ ps)) =
       PvStructure sid' (pre' @ overlay_members fs bits off vs ps)"
proof (induction d and fs arbitrary: off v p and off vs ps pre pre' i sid sid'
    rule: desc_height_fields_height.induct)
  case (1 sid fs n)
  then show ?case
    using 1(1) [where pre = "[]" and pre' = "[]" and i = 0]
    by (auto simp: shaped_Structure copy_Structure overlay_Structure)
next
  case (7 n d fs)
  obtain x vs' where vs: "vs = (n, x) # vs'" "shaped d x" "shaped_members fs vs'"
    using shaped_members_Cons [OF 7(3)] by blast
  obtain y ps' where ps: "ps = (n, y) # ps'" "shaped d y" "shaped_members fs ps'"
    using shaped_members_Cons [OF 7(4)] by blast
  have at: "field_at (PvStructure sid (pre @ vs)) i n = Some x"
    "field_at_mut (PvStructure sid' (pre' @ ps)) i n = Some i"
    using 7(5,6) by (auto simp: field_at_def field_at_mut_def vs(1) ps(1) nth_append)
  have "(pre' @ ps) ! i = (n, y)" "(pre' @ ps)[i := z] = pre' @ z # ps'" for z
    using 7(6) by (auto simp: ps(1) nth_append list_update_append)
  with at show ?case
    using 7(1) [OF vs(2) ps(2)] 7(5,6) vs(1)
      7(2) [where pre = "pre @ [(n, x)]" and pre' = "pre' @ [(n, overlay d bits off x y)]", OF vs(3) ps(3)]
    by (simp add: ps(1))
qed (simp_all add: copy_leaf overlay_leaf)

lemma members_typed_names: "members_typed P fs ms \<Longrightarrow> map fst ms = map fst fs"
  unfolding members_typed_def by (induction fs ms rule: list_all2_induct) auto

lemma members_typed_member:
  "members_typed P fs ms \<Longrightarrow> (n, c) \<in> set fs \<Longrightarrow> \<exists>x. (n, x) \<in> set ms \<and> P c x"
  unfolding members_typed_def by (induction fs ms rule: list_all2_induct) auto

lemma member_lookup:
  assumes "members_typed P fs ms" "distinct (map fst fs)" "(n, c) \<in> set fs"
  shows "\<exists>x. get_field (PvStructure sid ms) n = Some x \<and> P c x"
  using members_typed_member [OF assms(1,3)] assms(2) members_typed_names [OF assms(1)]
  by (auto simp: get_field_map_of)

lemma distinct_names_member:
  "distinct_names d \<Longrightarrow> x \<in> set (desc_children d) \<Longrightarrow> distinct_names (snd x)"
proof -
  have "fields_distinct_names fs \<Longrightarrow> x \<in> set fs \<Longrightarrow> distinct_names (snd x)" for fs
    by (induction fs) auto
  then show "distinct_names d \<Longrightarrow> x \<in> set (desc_children d) \<Longrightarrow> distinct_names (snd x)"
    by (cases d rule: desc_children.cases) auto
qed

lemma typed_fields_match:
  assumes "members_typed (typed ok) fs ms" "distinct (map fst fs)"
    "\<And>n c x. (n, c) \<in> set fs \<Longrightarrow> typed ok c x \<Longrightarrow> m x c = Inr ()"
  shows "structure_fields_match m (PvStructure sid ms) fs = Inr ()"
proof -
  have "n \<in> fst ` set fs" if "(n, x) \<in> set ms" for n x
    using that members_typed_names [OF assms(1)] by (metis image_eqI list.set_map fst_conv)
  with assms(3) member_lookup [OF assms(1,2), of _ _ sid] show ?thesis
    by (fastforce simp: structure_fields_match_def and_then_eq_Inr list_ex_iff)
qed

lemma typed_matches: "typed ok d v \<Longrightarrow> distinct_names d \<Longrightarrow> value_matches_descriptor v d = Inr ()"
proof (induction "size d" arbitrary: d v rule: less_induct)
  case less
  have IH: "value_matches_descriptor x (snd c) = Inr ()" if "c \<in> set (desc_children d)" "typed ok (snd c) x" for c x
    using less.hyps [OF size_child [OF that(1)] that(2)] distinct_names_member [OF less.prems(2) that(1)] by blast
  have member: "value_matches_descriptor x (snd (vs ! i)) = Inr ()"
    if "desc_children d = vs" "union_index sel vs = Some i" "typed ok (snd (vs ! i)) x" for vs sel i x
    using that IH [of "vs ! i" x] by (auto simp: union_index_def split: if_splits)
  have fields: "structure_fields_match value_matches_descriptor (PvStructure sid ms) fs = Inr ()"
    if "desc_children d = fs" "distinct (map fst fs)" "members_typed (typed ok) fs ms" for sid fs ms
    using IH that by (intro typed_fields_match [OF that(3,2)]) auto
  show ?case
  proof (cases d)
    case (Scalar st)
    with less.prems show ?thesis
      by (subst value_matches_descriptor.simps) (cases v; auto simp: typed.simps [of ok "Scalar st"])
  next
    case (ScalarArray st)
    with less.prems show ?thesis
      by (subst value_matches_descriptor.simps) (cases v; auto simp: typed.simps [of ok "ScalarArray st"])
  next
    case (Structure sid sf)
    with less.prems fields show ?thesis
      by (subst value_matches_descriptor.simps) (cases sf; auto simp: has_type_Structure)
  next
    case (StructureArray sid sf)
    obtain fs n where sf: "sf = StructFields fs n" by (cases sf)
    obtain items where items: "v = PStructureArray items"
      "\<And>s. Some s \<in> set items \<Longrightarrow> typed ok (Structure sid sf) (PStructure s)"
      using less.prems(1) by (auto simp: StructureArray has_type_StructureArray)
    have "ps_struct_id s = sid \<and> structure_fields_match value_matches_descriptor s fs = Inr ()"
      if "Some s \<in> set items" for s
      using items(2) [OF that] fields less.prems(2) by (auto simp: has_type_Structure StructureArray sf)
    then show ?thesis
      by (subst value_matches_descriptor.simps) (auto simp: StructureArray sf items(1) split: option.split)
  next
    case (Union sid vs)
    with less.prems member show ?thesis
      by (subst value_matches_descriptor.simps) (auto simp: has_type_Union)
  next
    case (UnionArray sid vs)
    with less.prems member show ?thesis
      by (subst value_matches_descriptor.simps)
        (fastforce simp: has_type_UnionArray item_typed_def split: option.splits)
  next
    case Variant
    with less.prems show ?thesis
      by (subst value_matches_descriptor.simps) (auto simp: has_type_Variant)
  next
    case VariantArray
    with less.prems show ?thesis
      by (subst value_matches_descriptor.simps) (auto simp: has_type_VariantArray)
  qed
qed

lemma check_leaf:
  "\<not> is_structure d \<Longrightarrow> check_marked d bits off v = (if bitset_get bits off then value_matches_descriptor v d else Inr ())"
  by (subst check_marked.simps) (cases d; simp)

lemma check_Structure:
  "check_marked (Structure sid (StructFields fs n)) bits off (PStructure s) =
     (if bitset_get bits off then value_matches_descriptor (PStructure s) (Structure sid (StructFields fs n))
      else check_marked_members fs bits (off + 1) 0 s)"
  by (subst check_marked.simps) simp

lemma check_marked_typed:
  "typed ok d v \<Longrightarrow> distinct_names d \<Longrightarrow> check_marked d bits off v = Inr ()"
  "members_typed (typed ok) fs vs \<Longrightarrow> fields_distinct_names fs \<Longrightarrow> length pre = i \<Longrightarrow>
     check_marked_members fs bits off i (PvStructure sid (pre @ vs)) = Inr ()"
proof (induction d and fs arbitrary: off v and off vs pre i sid rule: desc_height_fields_height.induct)
  case (1 sid fs n)
  then obtain vs where vs: "v = PStructure (PvStructure sid vs)" "members_typed (typed ok) fs vs"
    by (auto simp: has_type_Structure)
  then show ?case
    using 1(1) [where pre = "[]" and i = 0, OF vs(2)] typed_matches [OF 1(2,3)] 1(3) by (simp add: check_Structure)
next
  case (7 n d fs)
  then obtain x vs' where vs: "vs = (n, x) # vs'" "typed ok d x" "members_typed (typed ok) fs vs'"
    by (auto simp: members_typed_def list_all2_Cons1)
  have "field_at (PvStructure sid (pre @ vs)) i n = Some x"
    using 7(5) by (auto simp: field_at_def vs(1) nth_append)
  with 7(1) [OF vs(2)] 7(2) [where pre = "pre @ [(n, x)]", OF vs(3)] 7(4,5) show ?case
    by (simp add: vs(1))
qed (simp_all add: check_leaf typed_matches)

text \<open>The server's merge accepts a well-typed delta and overlays it.\<close>

lemma apply_delta_overlay:
  assumes "typed ok d v" "distinct_names d" "shaped d cur"
  shows "apply_marked_delta d bits off v cur = (Inr (), overlay d bits off v cur)"
  using check_marked_typed(1) [OF assms(1,2)] copy_overlay(1) [OF typed_shaped(1) [OF assms(1)] assms(3)]
  by (simp add: apply_marked_delta_def)

text \<open>A delta that fails the check leaves the stored value as it was.\<close>

lemma apply_delta_rejected: "fst (apply_marked_delta d bits off v cur) = Inl e \<Longrightarrow> snd (apply_marked_delta d bits off v cur) = cur"
  by (auto simp: apply_marked_delta_def split: sum.splits)

section \<open>The encoder reads only marked parts\<close>

lemma any_in_cong: "(\<And>i. bitset_get a i = bitset_get b i) \<Longrightarrow> bitset_any_in a x y = bitset_any_in b x y"
  by (simp add: any_in_iff)

lemma encode_set_cong:
  "(\<And>i. bitset_get a i = bitset_get b i) \<Longrightarrow>
     encode_pv_field_with_bitset cv hb ord v d a off = encode_pv_field_with_bitset cv hb ord v d b off"
  "(\<And>i. bitset_get a i = bitset_get b i) \<Longrightarrow>
     encode_marked_members cv hb ord w fs k a off = encode_marked_members cv hb ord w fs k b off"
proof (induction d and fs arbitrary: off v and off w k rule: desc_height_fields_height.induct)
  case (1 sid fs n)
  then show ?case
    using any_in_cong [OF 1(2)] by (simp add: encode_pv_field_with_bitset_def encode_marked_Structure)
next
  case (7 n d fs)
  have "(if bitset_any_in a off (off + total_bits d) then encode_marked cv hb ord x d a off else []) =
    (if bitset_any_in b off (off + total_bits d) then encode_marked cv hb ord x d b off else [])" for x
    using 7(1) [OF 7(3), of x off] by (simp add: encode_pv_field_with_bitset_def)
  then show ?case using 7(2) [OF 7(3)] by (simp add: Let_def)
qed (simp_all add: encode_pv_field_with_bitset_def encode_marked_leaf any_in_cong)

lemma encode_overlay:
  "shaped d v \<Longrightarrow> shaped d p \<Longrightarrow>
     encode_pv_field_with_bitset cv hb ord (overlay d bits off v p) d bits off =
     encode_pv_field_with_bitset cv hb ord v d bits off"
  "shaped_members fs vs \<Longrightarrow> shaped_members fs ps \<Longrightarrow> length pre = i \<Longrightarrow> length pre' = i \<Longrightarrow>
     encode_marked_members cv hb ord (PStructure (PvStructure sid (pre' @ overlay_members fs bits off vs ps))) fs i bits off =
     encode_marked_members cv hb ord (PStructure (PvStructure sid' (pre @ vs))) fs i bits off"
proof (induction d and fs arbitrary: off v p and off vs ps pre pre' i sid sid'
    rule: desc_height_fields_height.induct)
  case (1 sid fs n)
  then show ?case
    using 1(1) [where pre = "[]" and pre' = "[]" and i = 0]
    by (auto simp: shaped_Structure overlay_Structure encode_pv_field_with_bitset_def encode_marked_Structure)
next
  case (7 n d fs)
  obtain x vs' where vs: "vs = (n, x) # vs'" "shaped d x" "shaped_members fs vs'"
    using shaped_members_Cons [OF 7(3)] by blast
  obtain y ps' where ps: "ps = (n, y) # ps'" "shaped d y" "shaped_members fs ps'"
    using shaped_members_Cons [OF 7(4)] by blast
  show ?case
    using 7(1) [OF vs(2) ps(2)] 7(5,6) encode_marked_member [of cv hb ord _ pre n x]
      encode_marked_member [of cv hb ord _ pre' n "overlay d bits off x y"]
      7(2) [where pre = "pre @ [(n, x)]" and pre' = "pre' @ [(n, overlay d bits off x y)]", OF vs(3) ps(3)]
    by (simp add: vs(1) ps(1) del: encode_marked_members.simps)
qed (simp_all add: encode_pv_field_with_bitset_def encode_marked_leaf overlay_leaf)

section \<open>Squashing\<close>

lemma leaf_marked_range:
  "wf_desc d \<Longrightarrow> leaf_marked d src off w j \<Longrightarrow> off \<le> j \<and> j < off + total_bits d"
  "wf_fields fs \<Longrightarrow> leaf_marked_fields fs src off w j \<Longrightarrow>
     off \<le> j \<and> j < off + sum_list (map (\<lambda>(_, c). total_bits c) fs)"
proof (induction d and fs arbitrary: off w and off w rule: desc_height_fields_height.induct)
  case (1 sid fs n)
  then show ?case by (force simp: leaf_marked_structure)
next
  case (7 n d fs)
  then show ?case by (force simp: leaf_marked_fields_Cons)
qed (auto simp: leaf_marked_leaf leaf_marked_fields_Nil)

text \<open>
  \<open>latest\<close> is a value after an update: the update's whole value below a marked
  structure, the overlay elsewhere.
\<close>

abbreviation latest :: "field_desc \<Rightarrow> bit_set \<Rightarrow> nat \<Rightarrow> bool \<Rightarrow> pv_field \<Rightarrow> pv_field \<Rightarrow> pv_field" where
  "latest d bits off whole v p \<equiv> (if whole then v else overlay d bits off v p)"

abbreviation latest_members ::
  "named_fields \<Rightarrow> bit_set \<Rightarrow> nat \<Rightarrow> bool \<Rightarrow> named_values \<Rightarrow> named_values \<Rightarrow> named_values" where
  "latest_members fs bits off whole vs ps \<equiv> (if whole then vs else overlay_members fs bits off vs ps)"

lemma overlay_leaves:
  "wf_desc d \<Longrightarrow> shaped d v \<Longrightarrow> shaped d w \<Longrightarrow> shaped d q \<Longrightarrow> shaped d p \<Longrightarrow>
     (\<And>j. off \<le> j \<Longrightarrow> j < off + total_bits d \<Longrightarrow>
        bitset_get c j \<longleftrightarrow> leaf_marked d a off wa j \<or> leaf_marked d b off wb j) \<Longrightarrow>
     overlay d c off (latest d b off wb w (latest d a off wa v q)) p =
     latest d b off wb w (latest d a off wa v p)"
  "wf_fields fs \<Longrightarrow> shaped_members fs vs \<Longrightarrow> shaped_members fs ws \<Longrightarrow> shaped_members fs qs \<Longrightarrow>
     shaped_members fs ps \<Longrightarrow>
     (\<And>j. off \<le> j \<Longrightarrow> j < off + sum_list (map (\<lambda>(_, c). total_bits c) fs) \<Longrightarrow>
        bitset_get c j \<longleftrightarrow> leaf_marked_fields fs a off wa j \<or> leaf_marked_fields fs b off wb j) \<Longrightarrow>
     overlay_members fs c off (latest_members fs b off wb ws (latest_members fs a off wa vs qs)) ps =
     latest_members fs b off wb ws (latest_members fs a off wa vs ps)"
proof (induction d and fs arbitrary: off v w q p wa wb and off vs ws qs ps wa wb
    rule: desc_height_fields_height.induct)
  case (1 sid fs n)
  let ?d = "Structure sid (StructFields fs n)"
  obtain vs ws qs ps where s: "v = PStructure (PvStructure sid vs)" "shaped_members fs vs"
    "w = PStructure (PvStructure sid ws)" "shaped_members fs ws"
    "q = PStructure (PvStructure sid qs)" "shaped_members fs qs"
    "p = PStructure (PvStructure sid ps)" "shaped_members fs ps"
    using 1(3-6) by (auto simp: shaped_Structure)
  have wf: "wf_fields fs" "n = 1 + sum_list (map (\<lambda>(_, c). total_bits c) fs)" using 1(2) by simp_all
  have "\<not> bitset_get c off"
    using 1(7) [of off] wf leaf_marked_range(2) [OF wf(1), of _ "off + 1" _ off] by (auto simp: leaf_marked_structure)
  moreover have "overlay_members fs c (off + 1)
      (latest_members fs b (off + 1) (wb \<or> bitset_get b off) ws
        (latest_members fs a (off + 1) (wa \<or> bitset_get a off) vs qs)) ps =
      latest_members fs b (off + 1) (wb \<or> bitset_get b off) ws
        (latest_members fs a (off + 1) (wa \<or> bitset_get a off) vs ps)"
    using 1(7) wf by (intro 1(1) s) (auto simp: leaf_marked_structure)
  ultimately show ?case
    by (cases wa; cases wb; cases "bitset_get a off"; cases "bitset_get b off")
      (simp_all add: s overlay_Structure)
next
  case (7 n d fs)
  obtain x1 vs' where vs: "vs = (n, x1) # vs'" "shaped d x1" "shaped_members fs vs'"
    using shaped_members_Cons [OF 7(4)] by blast
  obtain x2 ws' where ws: "ws = (n, x2) # ws'" "shaped d x2" "shaped_members fs ws'"
    using shaped_members_Cons [OF 7(5)] by blast
  obtain x3 qs' where qs: "qs = (n, x3) # qs'" "shaped d x3" "shaped_members fs qs'"
    using shaped_members_Cons [OF 7(6)] by blast
  obtain x4 ps' where ps: "ps = (n, x4) # ps'" "shaped d x4" "shaped_members fs ps'"
    using shaped_members_Cons [OF 7(7)] by blast
  have wf: "wf_desc d" "wf_fields fs" using 7(3) by simp_all
  have heads: "overlay d c off (latest d b off wb x2 (latest d a off wa x1 x3)) x4 =
      latest d b off wb x2 (latest d a off wa x1 x4)"
  proof (rule 7(1) [OF wf(1) vs(2) ws(2) qs(2) ps(2)])
    fix j assume j: "off \<le> j" "j < off + total_bits d"
    then have "\<not> leaf_marked_fields fs e (off + total_bits d) wh j" for e wh
      using leaf_marked_range(2) [OF wf(2)] by fastforce
    then show "bitset_get c j \<longleftrightarrow> leaf_marked d a off wa j \<or> leaf_marked d b off wb j"
      using 7(8) j by (simp add: leaf_marked_fields_Cons)
  qed
  have tails: "overlay_members fs c (off + total_bits d)
      (latest_members fs b (off + total_bits d) wb ws' (latest_members fs a (off + total_bits d) wa vs' qs')) ps' =
      latest_members fs b (off + total_bits d) wb ws' (latest_members fs a (off + total_bits d) wa vs' ps')"
  proof (rule 7(2) [OF wf(2) vs(3) ws(3) qs(3) ps(3)])
    fix j assume j: "off + total_bits d \<le> j"
      "j < off + total_bits d + sum_list (map (\<lambda>(_, c). total_bits c) fs)"
    then have "\<not> leaf_marked d e off wh j" for e wh
      using leaf_marked_range(1) [OF wf(1)] by fastforce
    then show "bitset_get c j \<longleftrightarrow> leaf_marked_fields fs a (off + total_bits d) wa j \<or>
        leaf_marked_fields fs b (off + total_bits d) wb j"
      using 7(8) j by (simp add: leaf_marked_fields_Cons)
  qed
  show ?case
    using heads tails by (cases wa; cases wb) (simp_all add: vs(1) ws(1) qs(1) ps(1))
qed (auto simp: overlay_leaf leaf_marked_leaf)

lemma overlay_squash:
  assumes "wf_desc d" "shaped d v" "shaped d w" "shaped d q" "shaped d p"
  shows "overlay d (squash_changed d a b) 0 (overlay d b 0 w (overlay d a 0 v q)) p =
    overlay d b 0 w (overlay d a 0 v p)"
  using overlay_leaves(1) [OF assms, of 0 "squash_changed d a b" a False b False]
  by (simp add: squash_changed_get)

lemma latest_wire:
  "value_wire v \<Longrightarrow> value_wire p \<Longrightarrow> shaped d v \<Longrightarrow> shaped d p \<Longrightarrow> value_wire (overlay d bits off v p)"
  "(\<forall>x \<in> set vs. value_wire (snd x)) \<Longrightarrow> (\<forall>x \<in> set ps. value_wire (snd x)) \<Longrightarrow>
     shaped_members fs vs \<Longrightarrow> shaped_members fs ps \<Longrightarrow>
     \<forall>x \<in> set (overlay_members fs bits off vs ps). value_wire (snd x)"
proof (induction d and fs arbitrary: off v p and off vs ps rule: desc_height_fields_height.induct)
  case (1 sid fs n)
  obtain vs ps where v: "v = PStructure (PvStructure sid vs)" "shaped_members fs vs"
    and p: "p = PStructure (PvStructure sid ps)" "shaped_members fs ps"
    using 1(4,5) by (auto simp: shaped_Structure)
  have "\<forall>x \<in> set (overlay_members fs bits (off + 1) vs ps). value_wire (snd x)"
    using 1(2,3) unfolding v(1) p(1) value_wire_unfold(3) pv_structure.sel by (rule 1(1) [OF _ _ v(2) p(2)])
  with 1(2) show ?case by (simp add: overlay_Structure v(1) p(1) value_wire_unfold(3) pv_structure.sel)
next
  case (7 n d fs)
  obtain x vs' where vs: "vs = (n, x) # vs'" "shaped d x" "shaped_members fs vs'"
    using shaped_members_Cons [OF 7(5)] by blast
  obtain y ps' where ps: "ps = (n, y) # ps'" "shaped d y" "shaped_members fs ps'"
    using shaped_members_Cons [OF 7(6)] by blast
  show ?case
    using 7(1) [OF _ _ vs(2) ps(2)] 7(2) [OF _ _ vs(3) ps(3)] 7(3,4) by (simp add: vs(1) ps(1))
qed (simp_all add: overlay_leaf)

lemma latest_depth:
  "k + value_depth v \<le> m \<Longrightarrow> k + value_depth p \<le> m \<Longrightarrow> shaped d v \<Longrightarrow> shaped d p \<Longrightarrow>
     k + value_depth (overlay d bits off v p) \<le> m"
  "(\<forall>x \<in> set vs. k + value_depth (snd x) \<le> m) \<Longrightarrow> (\<forall>x \<in> set ps. k + value_depth (snd x) \<le> m) \<Longrightarrow>
     shaped_members fs vs \<Longrightarrow> shaped_members fs ps \<Longrightarrow>
     \<forall>x \<in> set (overlay_members fs bits off vs ps). k + value_depth (snd x) \<le> m"
proof (induction d and fs arbitrary: k off v p and k off vs ps rule: desc_height_fields_height.induct)
  case (1 sid fs n)
  obtain vs ps where v: "v = PStructure (PvStructure sid vs)" "shaped_members fs vs"
    and p: "p = PStructure (PvStructure sid ps)" "shaped_members fs ps"
    using 1(4,5) by (auto simp: shaped_Structure)
  note depths = 1(2,3) [unfolded v(1) p(1) value_depth_PStructure]
  have "\<forall>x \<in> set (overlay_members fs bits (off + 1) vs ps). Suc k + value_depth (snd x) \<le> m"
    by (rule 1(1) [OF _ _ v(2) p(2)]) (use depths in blast)+
  with depths have "k + value_depth (PStructure (PvStructure sid (overlay_members fs bits (off + 1) vs ps))) \<le> m"
    unfolding value_depth_PStructure by blast
  with 1(2) show ?case by (simp add: overlay_Structure v(1) p(1))
next
  case (7 n d fs)
  obtain x vs' where vs: "vs = (n, x) # vs'" "shaped d x" "shaped_members fs vs'"
    using shaped_members_Cons [OF 7(5)] by blast
  obtain y ps' where ps: "ps = (n, y) # ps'" "shaped d y" "shaped_members fs ps'"
    using shaped_members_Cons [OF 7(6)] by blast
  have "k + value_depth (overlay d bits off x y) \<le> m"
    by (rule 7(1) [OF _ _ vs(2) ps(2)]) (use 7(3,4) in \<open>simp_all add: vs(1) ps(1)\<close>)
  moreover have "\<forall>x \<in> set (overlay_members fs bits (off + total_bits d) vs' ps'). k + value_depth (snd x) \<le> m"
    by (rule 7(2) [OF _ _ vs(3) ps(3)]) (use 7(3,4) in \<open>simp_all add: vs(1) ps(1)\<close>)
  ultimately show ?case by (simp add: vs(1) ps(1))
qed (simp_all add: overlay_leaf)

lemma postable_overlay:
  assumes "postable d v" "postable d p"
  shows "postable d (overlay d bits off v p)"
  using assms overlay_typed(1) [of desc_bounded d v p] latest_wire(1) [of v p d] latest_depth(1) [of 0 v _ p d]
    typed_shaped(1) [of desc_bounded d]
  by (auto simp: postable_def)

lemma overlay_same:
  "shaped d v \<Longrightarrow> overlay d bits off v v = v"
  "shaped_members fs vs \<Longrightarrow> overlay_members fs bits off vs vs = vs"
proof (induction d and fs arbitrary: off v and off vs rule: desc_height_fields_height.induct)
  case (1 sid fs n)
  then show ?case by (auto simp: shaped_Structure overlay_Structure)
next
  case (7 n d fs)
  then show ?case by (cases vs) auto
qed (auto simp: overlay_leaf)

text \<open>The size of a set in bytes.\<close>

lemma set_fits: "length (bit_bytes s) \<le> n \<Longrightarrow> i < 8 * n \<Longrightarrow> length (bit_bytes (bitset_set s i)) \<le> n"
  by (auto simp: bitset_set_def Let_def grow_def)

lemma foldl_set_fits:
  "length (bit_bytes s) \<le> n \<Longrightarrow> \<forall>i \<in> set xs. i < 8 * n \<Longrightarrow> length (bit_bytes (foldl bitset_set s xs)) \<le> n"
  by (induction xs arbitrary: s) (auto simp: set_fits)

lemma union_into_fits:
  "length (bit_bytes a) \<le> n \<Longrightarrow> length (bit_bytes b) \<le> n \<Longrightarrow> length (bit_bytes (union_into a b)) \<le> n"
  unfolding union_into_def by (rule foldl_set_fits) (auto simp: bitset_iter_set get_bit_iff)

lemma leaf_bits_fits:
  "wf_desc d \<Longrightarrow> off + total_bits d \<le> 8 * n \<Longrightarrow> length (bit_bytes out) \<le> n \<Longrightarrow>
     length (bit_bytes (leaf_bits d src off whole out)) \<le> n"
  "wf_fields fs \<Longrightarrow> off + sum_list (map (\<lambda>(_, c). total_bits c) fs) \<le> 8 * n \<Longrightarrow> length (bit_bytes out) \<le> n \<Longrightarrow>
     length (bit_bytes (leaf_bits_fields fs src off whole out)) \<le> n"
proof (induction d and fs arbitrary: off whole out and off whole out rule: desc_height_fields_height.induct)
  case (1 sid fs m)
  then show ?case by (simp add: leaf_bits_structure)
next
  case (7 m d fs)
  then show ?case by simp
qed (auto simp: leaf_bits_leaf set_fits)

lemma total_bits_nodes:
  "wf_desc d \<Longrightarrow> total_bits d \<le> desc_nodes d"
  "wf_fields fs \<Longrightarrow> sum_list (map (\<lambda>(_, c). total_bits c) fs) \<le> fields_nodes fs"
  by (induction d and fs rule: desc_height_fields_height.induct) auto

text \<open>The body of a monitor update, and what a reader makes of one.\<close>

definition monitor_data ::
  "conv_ops \<Rightarrow> bool \<Rightarrow> byte_order \<Rightarrow> field_desc \<Rightarrow> bit_set \<Rightarrow> pv_field \<Rightarrow> bit_set \<Rightarrow> byte list" where
  "monitor_data cv hb ord d changed v overrun =
     bitset_write_into ord changed @ encode_pv_field_with_bitset cv hb ord v d changed 0 @
     bitset_write_into ord overrun"

definition short_set :: "bit_set \<Rightarrow> bool" where
  "short_set s \<longleftrightarrow> length (bit_bytes s) < 2 ^ 32"

definition trimmed :: "bit_set \<Rightarrow> bit_set" where
  "trimmed s = \<lparr> bit_bytes = take (trim_len (bit_bytes s) (length (bit_bytes s))) (bit_bytes s) \<rparr>"

lemma trimmed_get [simp]: "bitset_get (trimmed s) i \<longleftrightarrow> bitset_get s i"
  by (simp add: trimmed_def get_trimmed)

lemma decode_set: "short_set s \<Longrightarrow> bitset_decode ord (bitset_write_into ord s @ rest) = Inr (trimmed s, rest)"
  by (simp add: short_set_def trimmed_def bitset_decode_write)

lemma trimmed_short: "short_set s \<Longrightarrow> short_set (trimmed s)"
  by (simp add: short_set_def trimmed_def)

lemma overlay_trimmed [simp]: "overlay d (trimmed s) off v p = overlay d s off v p"
  by (rule overlay_cong(1)) simp

lemma encode_trimmed [simp]:
  "encode_pv_field_with_bitset cv hb ord v d (trimmed s) off = encode_pv_field_with_bitset cv hb ord v d s off"
  by (rule encode_set_cong(1)) simp

lemma squash_changed_short: "wf_desc d \<Longrightarrow> desc_nodes d \<le> MAX_FIELD_NODES \<Longrightarrow> short_set (squash_changed d a b)"
proof -
  assume d: "wf_desc d" "desc_nodes d \<le> MAX_FIELD_NODES"
  have "length (bit_bytes (leaf_bits d s 0 False bitset_new)) \<le> MAX_FIELD_NODES" for s
    using d total_bits_nodes(1) [of d] by (intro leaf_bits_fits) (auto simp: bitset_new_def)
  then have "length (bit_bytes (squash_changed d a b)) \<le> MAX_FIELD_NODES"
    unfolding squash_changed_def by (intro union_into_fits)
  then show ?thesis by (simp add: short_set_def MAX_FIELD_NODES_def)
qed

lemma squash_overrun_short: "short_set a \<Longrightarrow> short_set b \<Longrightarrow> short_set (squash_overrun a b)"
  using union_into_fits [of a "2 ^ 32 - 1" b] by (simp add: short_set_def squash_overrun_def)

text \<open>
  The squashed body is, byte for byte, the body of one update: the newer value
  over the older one, with the leaves that either marked.
\<close>

lemma squash_encode:
  assumes "postable d v" "postable d w"
  shows "encode_pv_field_with_bitset cv hb ord (overlay d b 0 w (overlay d a 0 v (default_value_for d))) d
      (squash_changed d a b) 0 =
    encode_pv_field_with_bitset cv hb ord (overlay d b 0 w v) d (squash_changed d a b) 0"
proof -
  have s: "shaped d v" "shaped d w" "wf_desc d" using assms typed_shaped(1) by (auto simp: postable_def)
  let ?x = "\<lambda>q. overlay d b 0 w (overlay d a 0 v q)"
  have "overlay d (squash_changed d a b) 0 (?x (default_value_for d)) v = ?x v"
    by (rule overlay_squash [OF s(3) s(1,2) default_shaped(1) s(1)])
  then have "encode_pv_field_with_bitset cv hb ord (?x v) d (squash_changed d a b) 0 =
      encode_pv_field_with_bitset cv hb ord (?x (default_value_for d)) d (squash_changed d a b) 0"
    using encode_overlay(1) [of d "?x (default_value_for d)" v cv hb ord "squash_changed d a b" 0]
      overlay_shaped(1) s(1,2) default_shaped(1) by metis
  then show ?thesis by (simp add: overlay_same(1) [OF s(1)])
qed

lemma leaf_marked_cong:
  "(\<And>i. bitset_get a i = bitset_get b i) \<Longrightarrow> leaf_marked d a off w j = leaf_marked d b off w j"
  by (simp add: leaf_marked_def)

lemma squash_bodies:
  assumes v: "postable d v" and w: "postable d w"
    and sets: "short_set a" "short_set oa" "short_set b" "short_set ob"
  shows "\<exists>c o'. squash_monitor_bodies cv hb d
      \<lparr> mb_bytes = monitor_data cv hb' orda d a v oa @ resta, mb_order = orda \<rparr>
      \<lparr> mb_bytes = monitor_data cv hb'' ordb d b w ob @ restb, mb_order = ordb \<rparr> ord =
      Inr (monitor_data cv hb ord d c (overlay d b 0 w v) o') \<and>
    short_set c \<and> short_set o' \<and>
    (\<forall>j. bitset_get c j \<longleftrightarrow> bitset_get (squash_changed d a b) j) \<and>
    (\<forall>j. bitset_get o' j \<longleftrightarrow> bitset_get oa j \<or> bitset_get ob j)"
proof -
  let ?c = "squash_changed d (trimmed a) (trimmed b)" and ?o = "squash_overrun (trimmed oa) (trimmed ob)"
  have d: "wf_desc d" "desc_nodes d \<le> MAX_FIELD_NODES" "shaped d v" "shaped d w"
    using v w typed_shaped(1) by (auto simp: postable_def)
  have val: "shaped d (overlay d a 0 v (default_value_for d))" by (intro overlay_shaped d default_shaped)
  have older: "decode_with_bitset hb orda d (trimmed a) 0
      (encode_pv_field_with_bitset cv hb' orda v d a 0 @ rest) =
      Inr (overlay d a 0 v (default_value_for d), rest)" for rest
    using decode_encode_marked_uncached(1) [OF v, of hb orda "trimmed a" 0 cv hb' rest] by simp
  have newer: "decode_with_bitset_into hb ordb (overlay d a 0 v (default_value_for d)) d (trimmed b) 0 Map.empty
      (encode_pv_field_with_bitset cv hb'' ordb w d b 0 @ rest) =
      (Inr rest, overlay d b 0 w (overlay d a 0 v (default_value_for d)), Map.empty)" for rest
    using decode_into_encode(1) [OF w val, of hb ordb "trimmed b" 0 Map.empty cv hb'' rest] by simp
  have "squash_monitor_bodies cv hb d
      \<lparr> mb_bytes = monitor_data cv hb' orda d a v oa @ resta, mb_order = orda \<rparr>
      \<lparr> mb_bytes = monitor_data cv hb'' ordb d b w ob @ restb, mb_order = ordb \<rparr> ord =
      Inr (monitor_data cv hb ord d ?c (overlay d b 0 w v) ?o)"
    using squash_encode [OF v w, of cv hb ord "trimmed b" "trimmed a"]
    by (simp add: squash_monitor_bodies_def monitor_data_def decode_set sets older newer Let_def)
  moreover have "bitset_get ?c j \<longleftrightarrow> bitset_get (squash_changed d a b) j" for j
    by (simp add: squash_changed_get leaf_marked_cong [of "trimmed a" a] leaf_marked_cong [of "trimmed b" b])
  moreover have "bitset_get ?o j \<longleftrightarrow> bitset_get oa j \<or> bitset_get ob j" for j
    by (simp add: squash_overrun_def union_into_get)
  ultimately show ?thesis
    using squash_changed_short [OF d(1,2)] squash_overrun_short sets trimmed_short by blast
qed

lemma overlay_absorb:
  "shaped d v \<Longrightarrow> shaped d p \<Longrightarrow> overlay d bits off v (overlay d bits off v p) = overlay d bits off v p"
  "shaped_members fs vs \<Longrightarrow> shaped_members fs ps \<Longrightarrow>
     overlay_members fs bits off vs (overlay_members fs bits off vs ps) = overlay_members fs bits off vs ps"
proof (induction d and fs arbitrary: off v p and off vs ps rule: desc_height_fields_height.induct)
  case (1 sid fs n)
  then show ?case by (auto simp: overlay_Structure shaped_Structure)
next
  case (7 n d fs)
  then show ?case by (cases vs; cases ps) auto
qed (auto simp: overlay_leaf)

lemma overlay_squashed:
  assumes "postable d v" "postable d w" "shaped d p"
    and "\<forall>j. bitset_get c j \<longleftrightarrow> bitset_get (squash_changed d a b) j"
  shows "overlay d c 0 (overlay d b 0 w v) p = overlay d b 0 w (overlay d a 0 v p)"
proof -
  have s: "shaped d v" "shaped d w" "wf_desc d" using assms(1,2) typed_shaped(1) by (auto simp: postable_def)
  have "overlay d c 0 (overlay d b 0 w v) p = overlay d (squash_changed d a b) 0 (overlay d b 0 w v) p"
    using assms(4) by (intro overlay_cong(1)) blast
  then show ?thesis
    using overlay_squash [OF s(3) s(1,2) s(1) assms(3), of a b] by (simp add: overlay_same(1) [OF s(1)])
qed

section \<open>The receivers' contract\<close>

text \<open>
  What every reader of deltas promises: it overlays the marked parts on the
  value it holds.  The clients' laws follow once for all of them.
\<close>

locale delta_receiver =
  fixes receive :: "field_desc \<Rightarrow> bit_set \<Rightarrow> pv_field \<Rightarrow> pv_field \<Rightarrow> pv_field"
  assumes receive_overlay:
    "postable d v \<Longrightarrow> shaped d p \<Longrightarrow> distinct_names d \<Longrightarrow> receive d bits v p = overlay d bits 0 v p"
begin

lemma receive_shaped: "postable d v \<Longrightarrow> shaped d p \<Longrightarrow> distinct_names d \<Longrightarrow> shaped d (receive d bits v p)"
  by (simp add: receive_overlay overlay_shaped(1) typed_shaped(1) [where ok = desc_bounded] postable_def)

lemma receive_again:
  "postable d v \<Longrightarrow> shaped d p \<Longrightarrow> distinct_names d \<Longrightarrow>
   receive d bits v (receive d bits v p) = receive d bits v p"
  using receive_shaped [of d v p bits] overlay_absorb(1) [of d v p bits 0] typed_shaped(1) [of desc_bounded d v]
  by (simp add: receive_overlay postable_def)

lemma receive_squashed:
  assumes "postable d v" "postable d w" "shaped d p" "distinct_names d"
    and "\<forall>j. bitset_get c j \<longleftrightarrow> bitset_get (squash_changed d a b) j"
  shows "receive d c (overlay d b 0 w v) p = receive d b w (receive d a v p)"
  using overlay_squashed [OF assms(1-3,5)] postable_overlay [OF assms(2,1)] receive_shaped [OF assms(1,3,4), of a]
    assms(1-4) by (simp add: receive_overlay)

end

definition receive_in_place ::
  "conv_ops \<Rightarrow> bool \<Rightarrow> bool \<Rightarrow> byte_order \<Rightarrow> type_cache \<Rightarrow> field_desc \<Rightarrow> bit_set \<Rightarrow> pv_field \<Rightarrow> pv_field \<Rightarrow> pv_field" where
  "receive_in_place cv hb' hb ord cache d bits v p =
     fst (snd (decode_with_bitset_into hb ord p d bits 0 cache (encode_pv_field_with_bitset cv hb' ord v d bits 0)))"

definition receive_merged ::
  "conv_ops \<Rightarrow> bool \<Rightarrow> bool \<Rightarrow> byte_order \<Rightarrow> type_cache \<Rightarrow> field_desc \<Rightarrow> bit_set \<Rightarrow> pv_field \<Rightarrow> pv_field \<Rightarrow> pv_field" where
  "receive_merged cv hb' hb ord cache d bits v p =
     (case fst (decode_with_bitset_cached hb ord d bits 0 cache (encode_pv_field_with_bitset cv hb' ord v d bits 0)) of
        Inl _ \<Rightarrow> p
      | Inr (w, _) \<Rightarrow> fill_unmarked_from_prior d bits 0 w p)"

definition receive_stored :: "field_desc \<Rightarrow> bit_set \<Rightarrow> pv_field \<Rightarrow> pv_field \<Rightarrow> pv_field" where
  "receive_stored d bits v p = snd (apply_marked_delta d bits 0 v p)"

interpretation in_place: delta_receiver "receive_in_place cv hb' hb ord cache" for cv hb' hb ord cache
proof
  show "receive_in_place cv hb' hb ord cache d bits v p = overlay d bits 0 v p"
    if "postable d v" "shaped d p" "distinct_names d" for d v p bits
    using decode_into_encode(1) [OF that(1,2), of hb ord bits 0 cache cv hb' "[]"]
    by (simp add: receive_in_place_def)
qed

interpretation merged: delta_receiver "receive_merged cv hb' hb ord cache" for cv hb' hb ord cache
proof
  show "receive_merged cv hb' hb ord cache d bits v p = overlay d bits 0 v p"
    if "postable d v" "shaped d p" "distinct_names d" for d v p bits
  proof -
    have v: "shaped d v" using that(1) typed_shaped(1) by (auto simp: postable_def)
    show ?thesis
      using decode_encode_marked(1) [OF that(1), of hb ord bits 0 cache cv hb' "[]"]
        fill_overlay(1) [OF overlay_shaped(1) [OF v default_shaped(1)] that(2,3), of bits 0 bits 0]
        overlay_overlay(1) [OF v default_shaped(1), of bits 0 p]
      by (simp add: receive_merged_def)
  qed
qed

interpretation stored: delta_receiver receive_stored
proof
  show "receive_stored d bits v p = overlay d bits 0 v p"
    if "postable d v" "shaped d p" "distinct_names d" for d v p bits
    using apply_delta_overlay [of desc_bounded d v p bits 0] that by (simp add: receive_stored_def postable_def)
qed

end
