(* ===== verification/Pva_Frame.thy ===== *)
theory Pva_Frame
  imports Pva_Delta_Correct
begin

text \<open>
  Frames and the messages a client decodes
  (\<^verbatim>\<open>epics-pva-rs/src/decode.rs\<close>): cutting frames off a byte stream,
  reassembling segmented messages, and the decoders of the search,
  validation, channel and operation replies.  A frame is the parsed header
  with its payload; a cursor is the rest of the payload it has not read.
  Whether a buffer can grow is the argument \<open>can_grow\<close> of the reassembler
  (its present length and the number of bytes to append).
\<close>

section \<open>Errors and frames\<close>

datatype protocol_fault =
    ServerBitSet byte byte
  | ServerBitClear byte byte
  | SegmentViolation bool bool byte byte
  | MessageTooLarge nat nat
  | UnexpectedCommand byte
  | UnknownCommand byte
  | NotAnOpResponse command
  | DataWithoutIntrospection

datatype pva_error =
    ErrDecode decode_error
  | ErrNullAuthCount
  | ErrFinishTooShort nat
  | ErrFinishStatus decode_error
  | ErrProtocol protocol_fault
  | ErrExhausted

record frame =
  fr_header :: pva_header
  fr_payload :: "byte list"

definition frame_order :: "frame \<Rightarrow> byte_order" where
  "frame_order f = flags_byte_order (h_flags (fr_header f))"

datatype peer_role = RoleServer | RoleClient | RoleEither

definition HEADER_SIZE :: nat where "HEADER_SIZE = 8"

definition try_parse_frame_role :: "peer_role \<Rightarrow> byte list \<Rightarrow> pva_error + (frame \<times> nat) option" where
  "try_parse_frame_role role buf =
     (if length buf < HEADER_SIZE then Inr None
      else and_then (map_err ErrDecode (header_decode buf)) (\<lambda>(header, _).
        let from_server = is_server (h_flags header) in
        if role = RoleServer \<and> from_server
        then Inl (ErrProtocol (ServerBitSet (h_command header) (h_flags header)))
        else if role = RoleClient \<and> \<not> from_server
        then Inl (ErrProtocol (ServerBitClear (h_command header) (h_flags header)))
        else if is_control (h_flags header)
        then Inr (Some (\<lparr> fr_header = header, fr_payload = [] \<rparr>, HEADER_SIZE))
        else
          (let needed = HEADER_SIZE + unat (h_payload_length header) in
           if length buf < needed then Inr None
           else Inr (Some (\<lparr> fr_header = header,
                  fr_payload = take (needed - HEADER_SIZE) (drop HEADER_SIZE buf) \<rparr>, needed)))))"

definition try_parse_frame :: "byte list \<Rightarrow> pva_error + (frame \<times> nat) option" where
  "try_parse_frame buf = try_parse_frame_role RoleEither buf"

section \<open>Segment reassembly\<close>

record segment_assembler =
  sa_buf :: "byte list"
  sa_cmd :: byte
  sa_flags :: byte
  sa_expect :: bool

definition segment_assembler_default :: segment_assembler where
  "segment_assembler_default = \<lparr> sa_buf = [], sa_cmd = 0, sa_flags = 0, sa_expect = False \<rparr>"

definition try_extend :: "(nat \<Rightarrow> nat \<Rightarrow> bool) \<Rightarrow> byte list \<Rightarrow> byte list \<Rightarrow> pva_error + byte list" where
  "try_extend can_grow buf data =
     (if can_grow (length buf) (length data) then Inr (buf @ data) else Inl ErrExhausted)"

definition segment_push ::
  "(nat \<Rightarrow> nat \<Rightarrow> bool) \<Rightarrow> segment_assembler \<Rightarrow> frame \<Rightarrow> nat option \<Rightarrow>
     (pva_error + frame option) \<times> segment_assembler" where
  "segment_push can_grow sa f cap =
     (let h = fr_header f;
          seg = h_flags h AND FLAG_SEGMENT_MASK;
          continuation = (seg AND FLAG_SEGMENT_LAST \<noteq> 0)
      in
      if continuation \<noteq> sa_expect sa \<or> continuation \<and> h_command h \<noteq> sa_cmd sa
      then (Inl (ErrProtocol (SegmentViolation (sa_expect sa) continuation (h_command h) (sa_cmd sa))), sa)
      else if (case cap of None \<Rightarrow> False | Some c \<Rightarrow> sat_add (length (sa_buf sa)) (length (fr_payload f)) > c)
      then (Inl (ErrProtocol (MessageTooLarge (length (sa_buf sa) + length (fr_payload f)) (the cap))), sa)
      else if seg = 0 then (Inr (Some f), sa)
      else
        (let sa1 = (if seg = FLAG_SEGMENT_FIRST
                    then sa \<lparr> sa_expect := True, sa_cmd := h_command h,
                              sa_flags := h_flags h AND NOT FLAG_SEGMENT_MASK, sa_buf := [] \<rparr>
                    else sa)
         in case try_extend can_grow (sa_buf sa1) (fr_payload f) of
              Inl e \<Rightarrow> (Inl e, sa1)
            | Inr payload \<Rightarrow>
                if seg \<noteq> FLAG_SEGMENT_LAST then (Inr None, sa1 \<lparr> sa_buf := payload \<rparr>)
                else
                  (Inr (Some \<lparr> fr_header = \<lparr> h_version = h_version h, h_flags = sa_flags sa1,
                                h_command = sa_cmd sa1, h_payload_length = of_nat (length payload) \<rparr>,
                              fr_payload = payload \<rparr>),
                   sa1 \<lparr> sa_expect := False, sa_buf := [] \<rparr>)))"

section \<open>Handshake and channel replies\<close>

record search_response =
  sr_guid :: "byte list"
  sr_seq :: u32
  sr_ip :: ip_addr
  sr_port :: u16
  sr_protocol :: "byte list"
  sr_found :: bool
  sr_cids :: "u32 list"

definition expect_command :: "command \<Rightarrow> frame \<Rightarrow> (pva_error + 'a) \<Rightarrow> pva_error + 'a" where
  "expect_command c f r =
     (if h_command (fr_header f) \<noteq> command_code c
      then Inl (ErrProtocol (UnexpectedCommand (h_command (fr_header f)))) else r)"

definition decode_search_response :: "frame \<Rightarrow> pva_error + search_response" where
  "decode_search_response f =
     expect_command SearchResponse f (map_err ErrDecode (
       let ord = frame_order f in
       and_then (get_bytes 12 (fr_payload f)) (\<lambda>(guid, bs).
       and_then (get_u32 ord bs) (\<lambda>(seq, bs).
       and_then (get_bytes 16 bs) (\<lambda>(addr, bs).
       and_then (get_u16 ord bs) (\<lambda>(port, bs).
       and_then (decode_string ord bs) (\<lambda>(protocol, bs).
       and_then (get_u8 bs) (\<lambda>(found, bs).
       and_then (get_u16 ord bs) (\<lambda>(count, bs).
       and_then (decode_n (get_u32 ord) (unat count) bs) (\<lambda>(cids, bs).
       Inr \<lparr> sr_guid = guid, sr_seq = seq, sr_ip = ip_from_bytes_allow_unspec addr, sr_port = port,
             sr_protocol = unwrap_or_empty protocol, sr_found = (found \<noteq> 0), sr_cids = cids \<rparr>))))))))))"

record connection_validation_request =
  cv_buffer_size :: u32
  cv_registry_size :: u16
  cv_auth_methods :: "byte list list"

definition decode_connection_validation_request :: "frame \<Rightarrow> pva_error + connection_validation_request" where
  "decode_connection_validation_request f =
     expect_command ConnectionValidation f (
       let ord = frame_order f in
       and_then (map_err ErrDecode (get_u32 ord (fr_payload f))) (\<lambda>(buffer_size, bs).
       and_then (map_err ErrDecode (get_u16 ord bs)) (\<lambda>(registry_size, bs).
       and_then (map_err ErrDecode (decode_size ord bs)) (\<lambda>(size, bs).
       case size of
         None \<Rightarrow> Inl ErrNullAuthCount
       | Some count \<Rightarrow>
           and_then (map_err ErrDecode (decode_n (decode_string ord) (unat count) bs)) (\<lambda>(methods, bs).
           Inr \<lparr> cv_buffer_size = buffer_size, cv_registry_size = registry_size,
                 cv_auth_methods = map unwrap_or_empty methods \<rparr>)))))"

definition decode_connection_validated :: "frame \<Rightarrow> pva_error + status" where
  "decode_connection_validated f =
     expect_command ConnectionValidated f
       (map_err ErrDecode (and_then (status_decode (frame_order f) (fr_payload f)) (\<lambda>(st, _). Inr st)))"

record create_channel_response =
  cc_cid :: u32
  cc_sid :: u32
  cc_status :: status

definition decode_create_channel_response :: "frame \<Rightarrow> pva_error + create_channel_response" where
  "decode_create_channel_response f =
     expect_command CreateChannel f (map_err ErrDecode (
       let ord = frame_order f in
       and_then (get_u32 ord (fr_payload f)) (\<lambda>(cid, bs).
       and_then (get_u32 ord bs) (\<lambda>(sid, bs).
       and_then (status_decode ord bs) (\<lambda>(st, _).
       Inr \<lparr> cc_cid = cid, cc_sid = sid, cc_status = st \<rparr>)))))"

section \<open>Operation replies\<close>

record op_init_response =
  oi_ioid :: u32
  oi_subcmd :: byte
  oi_status :: status
  oi_field_name :: "byte list"
  oi_introspection :: field_desc

record op_data_response =
  od_ioid :: u32
  od_subcmd :: byte
  od_status :: status
  od_changed :: bit_set
  od_value :: pv_field
  od_overrun :: bit_set
  od_response_desc :: "field_desc option"

record op_status_response =
  os_ioid :: u32
  os_subcmd :: byte
  os_status :: status

datatype op_response =
    OpInit op_init_response
  | OpData op_data_response
  | OpStatus op_status_response

text \<open>
  \<^verbatim>\<open>monitor_finish_body\<close>: the status of a final frame and the offset of the
  update behind it, if there is one.
\<close>

definition monitor_finish_body :: "byte list \<Rightarrow> byte_order \<Rightarrow> pva_error + status \<times> nat option" where
  "monitor_finish_body payload ord =
     (if length payload \<le> 4 then Inl (ErrFinishTooShort (length payload))
      else and_then (map_err ErrFinishStatus (status_decode ord (drop 5 payload))) (\<lambda>(st, bs).
        let pos = length payload - length bs in
        Inr (st, if is_success st \<and> payload ! 4 AND 0x08 = 0 \<and> pos < length payload
                 then Some pos else None)))"

definition op_data_body_start :: "byte list \<Rightarrow> byte_order \<Rightarrow> command \<Rightarrow> byte \<Rightarrow> nat option" where
  "op_data_body_start payload ord cmd subcmd =
     (if cmd = Monitor then
        (if subcmd AND 0x10 \<noteq> 0
         then (case monitor_finish_body payload ord of Inl _ \<Rightarrow> None | Inr (_, body) \<Rightarrow> body)
         else Some 5)
      else if cmd = Put \<and> subcmd AND 0x40 = 0 then None
      else (case status_decode ord (drop 5 payload) of
              Inl _ \<Rightarrow> None
            | Inr (st, bs) \<Rightarrow> if is_success st then Some (length payload - length bs) else None))"

definition try_st :: "('e \<Rightarrow> 'f) \<Rightarrow> ('e + 'a) \<times> 's \<Rightarrow> ('f + 'a) \<times> 's" where
  "try_st w r = (map_err w (fst r), snd r)"

text \<open>The last part: a changed set, the marked parts of the value and, for a monitor, an overrun set.\<close>

definition decode_op_data ::
  "bool \<Rightarrow> byte_order \<Rightarrow> command \<Rightarrow> u32 \<Rightarrow> byte \<Rightarrow> status \<Rightarrow> field_desc \<Rightarrow> type_cache \<Rightarrow> byte list \<Rightarrow>
     (pva_error + op_response) \<times> type_cache" where
  "decode_op_data hb ord cmd ioid subcmd st intro cache bs =
     and_then_st (map_err ErrDecode (bitset_decode ord bs), cache) (\<lambda>(changed, bs) cache.
     and_then_st (try_st ErrDecode (decode_with_bitset_cached hb ord intro changed 0 cache bs)) (\<lambda>(v, bs) cache.
     and_then_st
       (if cmd = Monitor then map_err ErrDecode (bitset_decode ord bs) else Inr (bitset_new, bs), cache)
       (\<lambda>(overrun, bs) cache.
     (Inr (OpData \<lparr> od_ioid = ioid, od_subcmd = subcmd, od_status = st, od_changed = changed, od_value = v,
         od_overrun = overrun, od_response_desc = None \<rparr>), cache))))"

definition decode_op_rpc ::
  "bool \<Rightarrow> byte_order \<Rightarrow> u32 \<Rightarrow> byte \<Rightarrow> type_cache \<Rightarrow> byte list \<Rightarrow> (pva_error + op_response) \<times> type_cache" where
  "decode_op_rpc hb ord ioid subcmd cache bs =
     and_then_st (map_err ErrDecode (status_decode ord bs), cache) (\<lambda>(st, bs) cache.
     if \<not> is_success st
     then (Inr (OpStatus \<lparr> os_ioid = ioid, os_subcmd = subcmd, os_status = st \<rparr>), cache)
     else
       and_then_st (try_st ErrDecode (decode_type_desc_cached_opt ord cache bs)) (\<lambda>(desc, bs) cache.
       and_then_st
         (case desc of
            None \<Rightarrow> (Inr (PNull, bs), cache)
          | Some d \<Rightarrow> try_st ErrDecode (decode_pv_field_cached hb ord d cache bs))
         (\<lambda>(v, bs) cache.
       (Inr (OpData \<lparr> od_ioid = ioid, od_subcmd = subcmd, od_status = st,
           od_changed = bitset_set bitset_new 0, od_value = v, od_overrun = bitset_new,
           od_response_desc = desc \<rparr>), cache))))"

definition decode_op_init ::
  "byte_order \<Rightarrow> command \<Rightarrow> u32 \<Rightarrow> byte \<Rightarrow> type_cache \<Rightarrow> byte list \<Rightarrow> (pva_error + op_response) \<times> type_cache" where
  "decode_op_init ord cmd ioid subcmd cache bs =
     and_then_st (map_err ErrDecode (status_decode ord bs), cache) (\<lambda>(st, bs) cache.
     and_then_st
       (if \<not> is_success st \<or> cmd = Rpc then (Inr (Variant, bs), cache)
        else try_st ErrDecode (decode_type_desc_cached ord cache bs))
       (\<lambda>(intro, bs) cache.
     (Inr (OpInit \<lparr> oi_ioid = ioid, oi_subcmd = subcmd, oi_status = st, oi_field_name = [],
         oi_introspection = intro \<rparr>), cache)))"

definition decode_op_body ::
  "bool \<Rightarrow> byte_order \<Rightarrow> command \<Rightarrow> u32 \<Rightarrow> byte \<Rightarrow> field_desc option \<Rightarrow> status option \<Rightarrow> type_cache \<Rightarrow> byte list \<Rightarrow>
     (pva_error + op_response) \<times> type_cache" where
  "decode_op_body hb ord cmd ioid subcmd introspection finish_status cache bs =
     (if subcmd AND 0x08 \<noteq> 0 then decode_op_init ord cmd ioid subcmd cache bs
      else if cmd = Put \<and> subcmd AND 0x40 = 0 then
        and_then_st (map_err ErrDecode (status_decode ord bs), cache) (\<lambda>(st, bs) cache.
        (Inr (OpStatus \<lparr> os_ioid = ioid, os_subcmd = subcmd, os_status = st \<rparr>), cache))
      else if cmd = Rpc then decode_op_rpc hb ord ioid subcmd cache bs
      else
        and_then_st (ok_or (ErrProtocol DataWithoutIntrospection) introspection, cache) (\<lambda>intro cache.
        and_then_st
          (case finish_status of
             Some s \<Rightarrow> Inr (s, bs)
           | None \<Rightarrow>
               if cmd = Get \<or> cmd = Put then map_err ErrDecode (status_decode ord bs)
               else Inr (OkNoMsg, bs), cache)
          (\<lambda>(st, bs) cache.
        if (cmd = Get \<or> cmd = Put) \<and> \<not> is_success st
        then (Inr (OpStatus \<lparr> os_ioid = ioid, os_subcmd = subcmd, os_status = st \<rparr>), cache)
        else decode_op_data hb ord cmd ioid subcmd st intro cache bs)))"

definition decode_op_response_cached ::
  "bool \<Rightarrow> frame \<Rightarrow> field_desc option \<Rightarrow> type_cache \<Rightarrow> (pva_error + op_response) \<times> type_cache" where
  "decode_op_response_cached hb f introspection cache =
     and_then_st (ok_or (ErrProtocol (UnknownCommand (h_command (fr_header f))))
       (command_from_code (h_command (fr_header f))), cache) (\<lambda>cmd cache.
     if cmd \<notin> {Get, Put, Monitor, Rpc} then (Inl (ErrProtocol (NotAnOpResponse cmd)), cache)
     else
       (let ord = frame_order f in
        and_then_st (map_err ErrDecode (get_u32 ord (fr_payload f)), cache) (\<lambda>(ioid, bs) cache.
        and_then_st (map_err ErrDecode (get_u8 bs), cache) (\<lambda>(subcmd, bs) cache.
        if cmd = Monitor \<and> subcmd AND 0x10 \<noteq> 0 then
          and_then_st (monitor_finish_body (fr_payload f) ord, cache) (\<lambda>(st, body) cache.
          case body of
            None \<Rightarrow> (Inr (OpStatus \<lparr> os_ioid = ioid, os_subcmd = subcmd, os_status = st \<rparr>), cache)
          | Some start \<Rightarrow>
              decode_op_body hb ord cmd ioid subcmd introspection (Some st) cache (drop start (fr_payload f)))
        else decode_op_body hb ord cmd ioid subcmd introspection None cache bs))))"

definition decode_op_response :: "bool \<Rightarrow> frame \<Rightarrow> field_desc option \<Rightarrow> pva_error + op_response" where
  "decode_op_response hb f introspection = fst (decode_op_response_cached hb f introspection Map.empty)"

record get_field_response =
  gf_ioid :: u32
  gf_status :: status
  gf_introspection :: "field_desc option"

definition decode_get_field_response :: "frame \<Rightarrow> pva_error + get_field_response" where
  "decode_get_field_response f =
     expect_command GetField f (map_err ErrDecode (
       let ord = frame_order f in
       and_then (get_u32 ord (fr_payload f)) (\<lambda>(ioid, bs).
       and_then (status_decode ord bs) (\<lambda>(st, bs).
       if \<not> is_success st
       then Inr \<lparr> gf_ioid = ioid, gf_status = st, gf_introspection = None \<rparr>
       else and_then (decode_type_desc ord bs) (\<lambda>(d, bs).
         Inr \<lparr> gf_ioid = ioid, gf_status = st, gf_introspection = Some d \<rparr>)))))"

definition is_set_byte_order :: "pva_header \<Rightarrow> bool" where
  "is_set_byte_order h \<longleftrightarrow> is_control (h_flags h) \<and> h_command h = control_code SetByteOrder"

definition is_server_frame :: "byte \<Rightarrow> bool" where
  "is_server_frame flags = is_server flags"

section \<open>Framing\<close>

lemma map_err_Inr [simp]: "map_err f r = Inr x \<longleftrightarrow> r = Inr x"
  by (cases r) auto

lemma header_application_bits [simp]:
  "is_control (h_flags (header_application server ord command n)) = False"
  "is_server (h_flags (header_application server ord command n)) = server"
  "flags_byte_order (h_flags (header_application server ord command n)) = ord"
  "h_command (header_application server ord command n) = command"
  "h_payload_length (header_application server ord command n) = n"
  "h_version (header_application server ord command n) \<noteq> 0"
  by (simp_all add: header_application_def header_flags_new_bits PVA_VERSION_def)

definition app_frame :: "bool \<Rightarrow> byte_order \<Rightarrow> command \<Rightarrow> byte list \<Rightarrow> frame" where
  "app_frame server ord cmd payload =
     \<lparr> fr_header = header_application server ord (command_code cmd) (of_nat (length payload)),
       fr_payload = payload \<rparr>"

definition frame_bytes :: "frame \<Rightarrow> byte list" where
  "frame_bytes f = header_write_into (fr_header f) @ fr_payload f"

lemma app_frame_order [simp]: "frame_order (app_frame server ord cmd payload) = ord"
  by (simp add: frame_order_def app_frame_def)

text \<open>A frame written by one side is cut off the stream by the other, and only with the right direction bit.\<close>

lemma parse_app_frame:
  assumes "length payload < 2 ^ 32"
  shows "try_parse_frame_role role (frame_bytes (app_frame server ord cmd payload) @ rest) =
    (if role = RoleServer \<and> server \<or> role = RoleClient \<and> \<not> server
     then Inl (ErrProtocol ((if server then ServerBitSet else ServerBitClear)
       (command_code cmd) (h_flags (fr_header (app_frame server ord cmd payload)))))
     else Inr (Some (app_frame server ord cmd payload, 8 + length payload)))"
proof -
  have "unat (of_nat (length payload) :: u32) = length payload"
    using assms by (simp add: unat_of_nat_u32)
  then show ?thesis
    by (simp add: try_parse_frame_role_def frame_bytes_def app_frame_def HEADER_SIZE_def Let_def
        header_wire.dec_enc)
qed

section \<open>Reassembly\<close>

text \<open>The frames of a message cut into pieces.\<close>

definition piece_frame :: "pva_header \<Rightarrow> byte \<Rightarrow> byte list \<Rightarrow> frame" where
  "piece_frame h seg p =
     \<lparr> fr_header = h \<lparr> h_flags := h_flags h OR seg, h_payload_length := of_nat (length p) \<rparr>, fr_payload = p \<rparr>"

fun later_frames :: "pva_header \<Rightarrow> byte list list \<Rightarrow> frame list" where
  "later_frames h [] = []"
| "later_frames h [p] = [piece_frame h FLAG_SEGMENT_LAST p]"
| "later_frames h (p # ps) = piece_frame h FLAG_SEGMENT_MASK p # later_frames h ps"

fun message_frames :: "frame \<Rightarrow> byte list list \<Rightarrow> frame list" where
  "message_frames m (p # q # ps) =
     piece_frame (fr_header m) FLAG_SEGMENT_FIRST p # later_frames (fr_header m) (q # ps)"
| "message_frames m _ = [m]"

definition cut_of :: "nat \<Rightarrow> frame \<Rightarrow> byte list list \<Rightarrow> bool" where
  "cut_of c m ps \<longleftrightarrow>
     concat ps = fr_payload m \<and> unsegmented (h_flags (fr_header m)) \<and> length (fr_payload m) \<le> c \<and>
     h_payload_length (fr_header m) = of_nat (length (fr_payload m))"

fun segment_run ::
  "(nat \<Rightarrow> nat \<Rightarrow> bool) \<Rightarrow> nat option \<Rightarrow> segment_assembler \<Rightarrow> frame list \<Rightarrow>
     (pva_error + frame list) \<times> segment_assembler" where
  "segment_run g cap sa [] = (Inr [], sa)"
| "segment_run g cap sa (f # fs) =
     and_then_st (segment_push g sa f cap) (\<lambda>out sa.
     and_then_st (segment_run g cap sa fs) (\<lambda>ms sa.
     (Inr ((case out of None \<Rightarrow> ms | Some m \<Rightarrow> m # ms)), sa)))"

lemma piece_flags:
  assumes "unsegmented fl"
  shows "(fl OR FLAG_SEGMENT_FIRST) AND FLAG_SEGMENT_MASK = FLAG_SEGMENT_FIRST"
    "(fl OR FLAG_SEGMENT_LAST) AND FLAG_SEGMENT_MASK = FLAG_SEGMENT_LAST"
    "(fl OR FLAG_SEGMENT_MASK) AND FLAG_SEGMENT_MASK = FLAG_SEGMENT_MASK"
    "(fl OR FLAG_SEGMENT_FIRST) AND NOT FLAG_SEGMENT_MASK = fl"
proof -
  have fl: "fl AND 0x30 = 0" using assms by (simp add: unsegmented_def FLAG_SEGMENT_MASK_def)
  have "fl = fl AND NOT 0x30"
  proof -
    have "fl = (fl AND 0x30) OR (fl AND NOT 0x30)" by (simp add: bit_eq_iff bit_simps) blast
    then show ?thesis using fl by simp
  qed
  then show "(fl OR FLAG_SEGMENT_FIRST) AND NOT FLAG_SEGMENT_MASK = fl"
    by (simp add: FLAG_SEGMENT_FIRST_def FLAG_SEGMENT_MASK_def bit.conj_disj_distrib2)
  show "(fl OR FLAG_SEGMENT_FIRST) AND FLAG_SEGMENT_MASK = FLAG_SEGMENT_FIRST"
    "(fl OR FLAG_SEGMENT_LAST) AND FLAG_SEGMENT_MASK = FLAG_SEGMENT_LAST"
    "(fl OR FLAG_SEGMENT_MASK) AND FLAG_SEGMENT_MASK = FLAG_SEGMENT_MASK"
    using fl by (simp_all add: FLAG_SEGMENT_FIRST_def FLAG_SEGMENT_LAST_def FLAG_SEGMENT_MASK_def
        bit.conj_disj_distrib2)
qed

lemma segment_consts:
  "FLAG_SEGMENT_FIRST AND FLAG_SEGMENT_LAST = 0" "FLAG_SEGMENT_LAST AND FLAG_SEGMENT_LAST \<noteq> 0"
  "FLAG_SEGMENT_MASK AND FLAG_SEGMENT_LAST \<noteq> 0" "FLAG_SEGMENT_FIRST \<noteq> 0" "FLAG_SEGMENT_LAST \<noteq> 0"
  "FLAG_SEGMENT_MASK \<noteq> 0" "FLAG_SEGMENT_FIRST \<noteq> FLAG_SEGMENT_LAST" "FLAG_SEGMENT_MASK \<noteq> FLAG_SEGMENT_LAST"
  "FLAG_SEGMENT_MASK \<noteq> FLAG_SEGMENT_FIRST" "FLAG_SEGMENT_LAST \<noteq> FLAG_SEGMENT_FIRST"
  by (simp_all add: FLAG_SEGMENT_FIRST_def FLAG_SEGMENT_LAST_def FLAG_SEGMENT_MASK_def)

lemma and_then_st_assoc:
  "and_then_st (and_then_st r f) g = and_then_st r (\<lambda>x s. and_then_st (f x s) g)"
  by (cases r; cases "fst r") auto

lemma and_then_st_Inr [simp]: "and_then_st r (\<lambda>x s. (Inr x, s)) = r"
  by (cases r; cases "fst r") auto

lemma later_run:
  assumes "unsegmented (h_flags h)" "ps \<noteq> []" "\<And>a b. a + b \<le> c \<Longrightarrow> g a b" "c \<le> usize_max"
    and "sa_expect sa" "sa_cmd sa = h_command h" "sa_flags sa = h_flags h"
    and "sa_buf sa = b" "length b + length (concat ps) \<le> c"
  shows "segment_run g (Some c) sa (later_frames h ps @ fs) =
    and_then_st (segment_run g (Some c) (sa \<lparr> sa_expect := False, sa_buf := [] \<rparr>) fs) (\<lambda>ms sa.
      (Inr (\<lparr> fr_header = h \<lparr> h_payload_length := of_nat (length (b @ concat ps)) \<rparr>,
              fr_payload = b @ concat ps \<rparr> # ms), sa))"
  using assms
proof (induction h ps arbitrary: sa b rule: later_frames.induct)
  case (2 h p)
  then show ?case
    by (cases h) (simp add: segment_push_def piece_frame_def piece_flags segment_consts try_extend_def sat_add_exact Let_def)
next
  case (3 h p q ps)
  let ?sa = "sa \<lparr> sa_buf := b @ p \<rparr>"
  have "segment_push g sa (piece_frame h FLAG_SEGMENT_MASK p) (Some c) = (Inr None, ?sa)"
    using 3(2-10)
    by (simp add: segment_push_def piece_frame_def piece_flags segment_consts try_extend_def sat_add_exact Let_def)
  then show ?case using 3(1) [of ?sa "b @ p"] 3(2-10) by simp
qed simp

lemma message_run:
  assumes "cut_of c m ps" "\<And>a b. a + b \<le> c \<Longrightarrow> g a b" "c \<le> usize_max"
    and "\<not> sa_expect sa" "sa_buf sa = []"
  shows "\<exists>sa'. \<not> sa_expect sa' \<and> sa_buf sa' = [] \<and>
    segment_run g (Some c) sa (message_frames m ps @ fs) =
    and_then_st (segment_run g (Some c) sa' fs) (\<lambda>ms sa. (Inr (m # ms), sa))"
proof (cases "(m, ps)" rule: message_frames.cases)
  case (1 m' p q ps')
  then have mps: "ps = p # q # ps'" by simp
  define h where "h = fr_header m"
  let ?sa = "sa \<lparr> sa_expect := True, sa_cmd := h_command h, sa_flags := h_flags h, sa_buf := p \<rparr>"
  have c: "unsegmented (h_flags h)" "p @ concat (q # ps') = fr_payload m"
    "length (p @ concat (q # ps')) \<le> c" "h_payload_length h = of_nat (length (fr_payload m))"
    using assms(1) by (simp_all add: cut_of_def h_def mps)
  have p: "length p \<le> c" using c(3) by simp
  have m: "m = \<lparr> fr_header = h \<lparr> h_payload_length := of_nat (length (fr_payload m)) \<rparr>, fr_payload = fr_payload m \<rparr>"
    using c(4) by (simp add: h_def)
  have "segment_push g sa (piece_frame h FLAG_SEGMENT_FIRST p) (Some c) = (Inr None, ?sa)"
    using assms(2-5) c(1) p
    by (simp add: segment_push_def piece_frame_def piece_flags segment_consts try_extend_def sat_add_exact Let_def)
  moreover have "segment_run g (Some c) ?sa (later_frames h (q # ps') @ fs) =
      and_then_st (segment_run g (Some c) (?sa \<lparr> sa_expect := False, sa_buf := [] \<rparr>) fs) (\<lambda>ms sa.
        (Inr (\<lparr> fr_header = h \<lparr> h_payload_length := of_nat (length (p @ concat (q # ps'))) \<rparr>,
                fr_payload = p @ concat (q # ps') \<rparr> # ms), sa))"
    by (rule later_run) (use assms(2,3) c(1,3) in simp_all)
  note this [unfolded c(2), folded m]
  ultimately have "segment_run g (Some c) sa (message_frames m ps @ fs) =
      and_then_st (segment_run g (Some c) (?sa \<lparr> sa_expect := False, sa_buf := [] \<rparr>) fs)
        (\<lambda>ms sa. (Inr (m # ms), sa))"
    by (simp add: mps h_def [symmetric])
  then show ?thesis by (intro exI [of _ "?sa \<lparr> sa_expect := False, sa_buf := [] \<rparr>"]) simp
qed (use assms in \<open>auto simp: cut_of_def segment_push_def unsegmented_def sat_add_exact Let_def\<close>)

text \<open>Any number of messages, each cut at will, come out whole and in order.\<close>

lemma segments_run:
  assumes "\<And>a b. a + b \<le> c \<Longrightarrow> g a b" "c \<le> usize_max"
  shows "list_all (\<lambda>(m, ps). cut_of c m ps) ms \<Longrightarrow> \<not> sa_expect sa \<Longrightarrow> sa_buf sa = [] \<Longrightarrow>
    \<exists>sa'. \<not> sa_expect sa' \<and> sa_buf sa' = [] \<and>
      segment_run g (Some c) sa (concat (map (\<lambda>(m, ps). message_frames m ps) ms)) = (Inr (map fst ms), sa')"
proof (induction ms arbitrary: sa)
  case (Cons x ms)
  obtain m ps where x: "x = (m, ps)" by (cases x)
  let ?fs = "concat (map (\<lambda>(m, ps). message_frames m ps) ms)"
  have cut: "cut_of c m ps" using Cons.prems(1) by (simp add: x)
  obtain sa1 where sa1: "\<not> sa_expect sa1" "sa_buf sa1 = []"
    "segment_run g (Some c) sa (message_frames m ps @ ?fs) =
      and_then_st (segment_run g (Some c) sa1 ?fs) (\<lambda>ms sa. (Inr (m # ms), sa))"
    using message_run [where g = g and fs = ?fs, OF cut assms Cons.prems(2,3)] by blast
  with Cons.IH [of sa1] Cons.prems(1) show ?case by (auto simp: x)
qed simp

text \<open>
  What holds of the reassembler whatever arrives: outside a message the buffer
  is empty, and neither the buffer nor a message that comes out exceeds the cap.
\<close>

definition segment_inv :: "nat \<Rightarrow> segment_assembler \<Rightarrow> bool" where
  "segment_inv c sa \<longleftrightarrow> length (sa_buf sa) \<le> c \<and> (sa_expect sa \<or> sa_buf sa = [])"

lemma and_single_bit: "fl AND push_bit n 1 = (if bit fl n then push_bit n 1 else 0)" for fl :: byte
  by (rule bit_eqI) (auto simp: bit_simps)

lemma segment_bits:
  fixes fl :: byte
  assumes "(fl AND FLAG_SEGMENT_MASK) AND FLAG_SEGMENT_LAST = 0"
  shows "fl AND FLAG_SEGMENT_MASK = 0 \<or> fl AND FLAG_SEGMENT_MASK = FLAG_SEGMENT_FIRST"
proof -
  have split: "(0x30 :: byte) = 0x10 OR 0x20" by simp
  have "fl AND 0x20 = 0" using assms by (simp add: FLAG_SEGMENT_MASK_def FLAG_SEGMENT_LAST_def and.assoc)
  then have "fl AND 0x30 = fl AND 0x10" by (simp only: split bit.conj_disj_distrib) simp
  moreover have "fl AND 0x10 = 0 \<or> fl AND 0x10 = 0x10"
    using and_single_bit [of fl 4] by (simp split: if_splits)
  ultimately show ?thesis by (auto simp: FLAG_SEGMENT_MASK_def FLAG_SEGMENT_FIRST_def)
qed

lemma segment_push_inv:
  assumes "segment_inv c sa" "c < usize_max"
  shows "segment_inv c (snd (segment_push g sa f (Some c)))"
    and "fst (segment_push g sa f (Some c)) = Inr (Some m) \<Longrightarrow> length (fr_payload m) \<le> c"
proof -
  have sum: "sat_add a b \<le> c \<Longrightarrow> a + b \<le> c" for a b
    using assms(2) by (auto simp: sat_add_def min_def split: if_splits)
  show "segment_inv c (snd (segment_push g sa f (Some c)))"
    using assms(1) segment_bits [of "h_flags (fr_header f)"] sum [of "length (sa_buf sa)" "length (fr_payload f)"]
    by (auto simp: segment_push_def segment_inv_def try_extend_def Let_def not_less split: sum.splits if_splits)
  show "length (fr_payload m) \<le> c" if "fst (segment_push g sa f (Some c)) = Inr (Some m)"
    using that assms(1) sum [of "length (sa_buf sa)" "length (fr_payload f)"]
    by (auto simp: segment_push_def segment_inv_def try_extend_def Let_def not_less split: sum.splits if_splits)
qed

section \<open>Monitor frames\<close>

text \<open>The payload of a monitor update, and what the client decodes from it.\<close>

definition monitor_payload :: "byte_order \<Rightarrow> u32 \<Rightarrow> byte list \<Rightarrow> byte list" where
  "monitor_payload ord ioid body = put_u32 ioid ord @ put_u8 0x00 @ body"

lemma decode_monitor_update:
  assumes "postable d v" "short_set changed" "short_set overrun" "frame_order f = ord"
    and "h_command (fr_header f) = command_code Monitor"
    and "fr_payload f = monitor_payload ord ioid (monitor_data cv hb' ord d changed v overrun)"
  shows "decode_op_response hb f (Some d) = Inr (OpData
    \<lparr> od_ioid = ioid, od_subcmd = 0, od_status = OkNoMsg, od_changed = trimmed changed,
      od_value = overlay d changed 0 v (default_value_for d), od_overrun = trimmed overrun,
      od_response_desc = None \<rparr>)"
proof -
  have val: "decode_with_bitset_cached hb ord d (trimmed changed) 0 Map.empty
      (encode_pv_field_with_bitset cv hb' ord v d changed 0 @ rest) =
      (Inr (overlay d changed 0 v (default_value_for d), rest), Map.empty)" for rest
    using decode_encode_marked(1) [OF assms(1), of hb ord "trimmed changed" 0 Map.empty cv hb' rest] by simp
  have overrun: "bitset_decode ord (bitset_write_into ord overrun) = Inr (trimmed overrun, [])"
    using decode_set [OF assms(3), of ord "[]"] by simp
  show ?thesis
    using assms(4-6)
    by (simp add: decode_op_response_def decode_op_response_cached_def decode_op_body_def decode_op_data_def
        monitor_payload_def monitor_data_def command_from_code_def get_put put_u8_def decode_set assms(2) val
        overrun try_st_def Let_def)
qed

end
