(* ===== verification/Pva_Monitor.thy ===== *)
theory Pva_Monitor
  imports Pva_Frame
begin

text \<open>
  Monitors from end to end (\<^verbatim>\<open>epics-pva-rs\<close>): the server's bounded queue
  and frame builder (\<^verbatim>\<open>server_native/tcp.rs\<close>), the client's backlog with
  its squash and the tickets that order callbacks and replies
  (\<^verbatim>\<open>client_native/monitor_queue.rs\<close>), and the body of the client's drain
  loop (\<^verbatim>\<open>client_native/ops_v2.rs\<close>).  Each critical section is one
  operation on an explicit state; the interleaving of the tasks is the order
  of the operations.  Counters that only count events are naturals, the ones
  on the wire and the acknowledgement count are words.
\<close>

section \<open>The client's backlog (monitor\_queue.rs)\<close>

definition BODY_AT :: nat where "BODY_AT = 5"

definition is_data :: "frame \<Rightarrow> bool" where
  "is_data f \<longleftrightarrow> length (fr_payload f) > BODY_AT \<and> fr_payload f ! 4 = 0x00"

record backlog =
  bl_q :: "(frame \<times> nat) list"
  bl_limit :: nat
  bl_pipeline :: bool
  bl_intro :: "field_desc option"
  bl_n_squash :: nat
  bl_max_queue :: nat
  bl_closed :: bool

definition backlog_new :: "nat \<Rightarrow> bool \<Rightarrow> backlog" where
  "backlog_new limit pipeline =
     \<lparr> bl_q = [], bl_limit = max limit 1, bl_pipeline = pipeline, bl_intro = None, bl_n_squash = 0,
       bl_max_queue = 0, bl_closed = False \<rparr>"

definition backlog_arm :: "backlog \<Rightarrow> field_desc \<Rightarrow> backlog" where
  "backlog_arm b intro = b \<lparr> bl_intro := Some intro \<rparr>"

definition frame_body :: "frame \<Rightarrow> monitor_body" where
  "frame_body f = \<lparr> mb_bytes = drop BODY_AT (fr_payload f), mb_order = frame_order f \<rparr>"

text \<open>\<^verbatim>\<open>Inner::push\<close>, with the tickets it drops.\<close>

definition inner_push :: "conv_ops \<Rightarrow> bool \<Rightarrow> backlog \<Rightarrow> frame \<Rightarrow> nat \<Rightarrow> backlog \<times> nat list" where
  "inner_push cv hb b f ticket =
     (let append = (b \<lparr> bl_q := bl_q b @ [(f, ticket)] \<rparr>, []) in
      if \<not> is_data f \<or> bl_pipeline b \<or> length (bl_q b) < bl_limit b then append
      else
        case (if bl_q b \<noteq> [] \<and> is_data (fst (last (bl_q b))) then bl_intro b else None) of
          None \<Rightarrow> append
        | Some intro \<Rightarrow>
            (case squash_monitor_bodies cv hb intro (frame_body (fst (last (bl_q b)))) (frame_body f)
                (frame_order f) of
               Inl reason \<Rightarrow> append
             | Inr body \<Rightarrow>
                 (let payload = take BODY_AT (fr_payload f) @ body;
                      header = header_application True (frame_order f) (h_command (fr_header f))
                        (of_nat (length payload));
                      tail = (\<lparr> fr_header = header, fr_payload = payload \<rparr>, snd (last (bl_q b)))
                  in (b \<lparr> bl_q := butlast (bl_q b) @ [tail], bl_n_squash := bl_n_squash b + 1 \<rparr>, [ticket]))))"

definition backlog_push :: "conv_ops \<Rightarrow> bool \<Rightarrow> backlog \<Rightarrow> frame \<Rightarrow> nat \<Rightarrow> backlog \<times> nat list" where
  "backlog_push cv hb b f ticket =
     (if bl_closed b then (b, [ticket])
      else
        (case inner_push cv hb b f ticket of
           (b', dropped) \<Rightarrow>
             (b' \<lparr> bl_max_queue := max (bl_max_queue b') (length (bl_q b')) \<rparr>, dropped)))"

definition backlog_close :: "backlog \<Rightarrow> backlog" where
  "backlog_close b = b \<lparr> bl_closed := True \<rparr>"

definition backlog_abandon :: "backlog \<Rightarrow> backlog \<times> nat list" where
  "backlog_abandon b = (b \<lparr> bl_closed := True, bl_q := [] \<rparr>, map snd (bl_q b))"

text \<open>One pass of the \<^verbatim>\<open>recv\<close> loop: a frame, the end, or a wait for the next notification.\<close>

datatype recv_result = Got frame nat | Ended | Waits

definition backlog_recv :: "backlog \<Rightarrow> recv_result \<times> backlog" where
  "backlog_recv b =
     (case bl_q b of
        (f, ticket) # q \<Rightarrow> (Got f ticket, b \<lparr> bl_q := q \<rparr>)
      | [] \<Rightarrow> (if bl_closed b then Ended else Waits, b))"

definition backlog_counters :: "backlog \<Rightarrow> nat \<times> u32 \<times> u32" where
  "backlog_counters b = (bl_n_squash b, of_nat (bl_max_queue b), of_nat (length (bl_q b)))"

section \<open>Delivery fence (monitor\_queue.rs)\<close>

text \<open>The outstanding tickets in ascending order, each with the waker of a loop that awaits its turn.\<close>

record tickets =
  tk_next :: nat
  tk_outstanding :: "(nat \<times> nat option) list"

definition fence_new :: tickets where
  "fence_new = \<lparr> tk_next = 0, tk_outstanding = [] \<rparr>"

fun btree_insert :: "nat \<Rightarrow> 'v \<Rightarrow> (nat \<times> 'v) list \<Rightarrow> (nat \<times> 'v) list" where
  "btree_insert k v [] = [(k, v)]"
| "btree_insert k v ((k', v') # m) =
     (if k < k' then (k, v) # (k', v') # m
      else if k = k' then (k, v) # m
      else (k', v') # btree_insert k v m)"

definition btree_remove :: "nat \<Rightarrow> (nat \<times> 'v) list \<Rightarrow> (nat \<times> 'v) list" where
  "btree_remove k m = filter (\<lambda>(k', _). k' \<noteq> k) m"

definition fence_issue :: "tickets \<Rightarrow> nat \<times> tickets" where
  "fence_issue t =
     (tk_next t, t \<lparr> tk_next := tk_next t + 1,
        tk_outstanding := btree_insert (tk_next t) None (tk_outstanding t) \<rparr>)"

definition fence_point :: "tickets \<Rightarrow> nat option" where
  "fence_point t = (if tk_outstanding t = [] then None else Some (tk_next t))"

definition first_key :: "(nat \<times> 'v) list \<Rightarrow> nat option" where
  "first_key m = (case m of [] \<Rightarrow> None | (k, _) # _ \<Rightarrow> Some k)"

text \<open>One poll of \<^verbatim>\<open>Delivery::turn\<close>; \<open>None\<close> is the failed \<^verbatim>\<open>expect\<close>.\<close>

definition turn_poll :: "nat \<Rightarrow> nat \<Rightarrow> tickets \<Rightarrow> (bool \<times> tickets) option" where
  "turn_poll seq waker t =
     (if first_key (tk_outstanding t) = Some seq then Some (True, t)
      else if map_of (tk_outstanding t) seq = None then None
      else Some (False, t \<lparr> tk_outstanding := btree_insert seq (Some waker) (tk_outstanding t) \<rparr>))"

text \<open>\<^verbatim>\<open>Drop for Delivery\<close>: the waker to wake, and whether the waiting points are notified.\<close>

definition delivery_drop :: "nat \<Rightarrow> tickets \<Rightarrow> tickets \<times> nat option \<times> bool" where
  "delivery_drop seq t =
     (let oldest = (first_key (tk_outstanding t) = Some seq);
          m = btree_remove seq (tk_outstanding t)
      in if \<not> oldest then (t \<lparr> tk_outstanding := m \<rparr>, None, False)
         else
           (case m of
              [] \<Rightarrow> (t \<lparr> tk_outstanding := [] \<rparr>, None, True)
            | (k, waker) # m' \<Rightarrow> (t \<lparr> tk_outstanding := (k, None) # m' \<rparr>, waker, True)))"

definition point_reached :: "nat option \<Rightarrow> tickets \<Rightarrow> bool" where
  "point_reached point t =
     (case point of
        None \<Rightarrow> True
      | Some at \<Rightarrow> (case first_key (tk_outstanding t) of None \<Rightarrow> True | Some oldest \<Rightarrow> oldest \<ge> at))"

section \<open>The client's drain loop (ops\_v2.rs)\<close>

record monitor_flow =
  mf_pipeline :: bool
  mf_queue_size :: u32
  mf_ack_at :: u32

record subscription_stats =
  st_n_delivered :: nat
  st_n_acks :: nat
  st_max_events_per_ack :: u32
  st_n_srv_squash :: nat
  st_n_cli_squash :: nat
  st_max_queue :: u32
  st_n_queue :: u32

record drain_state =
  dr_prior :: "pv_field option"
  dr_events_since_ack :: u32
  dr_stats :: subscription_stats

text \<open>\<^verbatim>\<open>changed_bitset_to_marked_paths\<close>; the hash set is the set of the list.\<close>

definition child_path :: "byte list \<Rightarrow> byte list \<Rightarrow> byte list" where
  "child_path parent name = (if parent = [] then name else parent @ [0x2E] @ name)"

fun marked_walk :: "field_desc \<Rightarrow> nat \<Rightarrow> byte list \<Rightarrow> bool \<Rightarrow> bit_set \<Rightarrow> byte list list"
and marked_walk_members :: "named_fields \<Rightarrow> nat \<Rightarrow> byte list \<Rightarrow> bool \<Rightarrow> bit_set \<Rightarrow> byte list list" where
  "marked_walk desc bit_offset path ancestor_marked bits =
     (case desc of
        Structure _ (StructFields fs _) \<Rightarrow>
          marked_walk_members fs (bit_offset + 1) path (ancestor_marked \<or> bitset_get bits bit_offset) bits
      | _ \<Rightarrow>
          if (ancestor_marked \<or> bitset_get bits bit_offset) \<and> path \<noteq> [] then [path] else [])"
| "marked_walk_members [] child_bit path here_marked bits = []"
| "marked_walk_members ((name, child) # fs) child_bit path here_marked bits =
     marked_walk child child_bit (child_path path name) here_marked bits @
     marked_walk_members fs (child_bit + total_bits child) path here_marked bits"

declare marked_walk.simps [simp del]

definition changed_bitset_to_marked_paths :: "field_desc \<Rightarrow> bit_set \<Rightarrow> byte list set" where
  "changed_bitset_to_marked_paths desc bits = set (marked_walk desc 0 [] False bits)"

datatype drain_event = Callback pv_field "byte list set option" | SendAck u32

datatype drain_end = DrainFinished | DrainRemote status | DrainInvalid | DrainLost

text \<open>
  One turn of the loop on a received frame.  The counters are read from the
  backlog after the callback; \<open>sent\<close> says whether an acknowledgement could be
  sent.
\<close>

definition drain_step ::
  "bool \<Rightarrow> field_desc \<Rightarrow> monitor_flow \<Rightarrow> bool \<Rightarrow> nat \<times> u32 \<times> u32 \<Rightarrow> drain_state \<Rightarrow> frame \<Rightarrow>
     drain_state \<times> drain_event list \<times> drain_end option" where
  "drain_step hb intro flow sent counters s f =
     (case decode_op_response hb f (Some intro) of
        Inl e \<Rightarrow> (s, [], Some DrainInvalid)
      | Inr (OpInit _) \<Rightarrow> (s, [], Some DrainInvalid)
      | Inr (OpStatus st) \<Rightarrow>
          (s, [], Some (if is_success (os_status st) then DrainFinished else DrainRemote (os_status st)))
      | Inr (OpData d) \<Rightarrow>
          (let srv_squash = \<not> bitset_is_empty (od_overrun d);
               marked = (if dr_prior s \<noteq> None \<and> is_structure intro
                         then Some (changed_bitset_to_marked_paths intro (od_changed d)) else None);
               v = (case dr_prior s of
                      Some prev \<Rightarrow> fill_unmarked_from_prior intro (od_changed d) 0 (od_value d) prev
                    | None \<Rightarrow> od_value d);
               events = dr_events_since_ack s + 1;
               (n_cli_squash, max_queue, n_queue) = counters;
               st = dr_stats s;
               st = st \<lparr> st_n_delivered := st_n_delivered st + 1,
                         st_n_srv_squash := st_n_srv_squash st + (if srv_squash then 1 else 0),
                         st_n_cli_squash := n_cli_squash, st_max_queue := max_queue, st_n_queue := n_queue,
                         st_max_events_per_ack := max (st_max_events_per_ack st) events \<rparr>;
               s = \<lparr> dr_prior = Some v, dr_events_since_ack = events, dr_stats = st \<rparr>
           in
           if od_subcmd d AND 0x10 \<noteq> 0 then (s, [Callback v marked], Some DrainFinished)
           else if mf_pipeline flow \<and> events \<ge> mf_ack_at flow then
             (if \<not> sent then (s, [Callback v marked], Some DrainLost)
              else (s \<lparr> dr_events_since_ack := 0, dr_stats := st \<lparr> st_n_acks := st_n_acks st + 1 \<rparr> \<rparr>,
                    [Callback v marked, SendAck events], None))
           else (s, [Callback v marked], None)))"

section \<open>The server's queue and frames (tcp.rs)\<close>

text \<open>
  A shared mark set is known by its allocation; \<open>MShared\<close> carries the address
  beside the paths.
\<close>

datatype marks = MOwned "byte list list" | MShared nat "byte list list"

fun marks_paths :: "marks \<Rightarrow> byte list list" where
  "marks_paths (MOwned v) = v"
| "marks_paths (MShared _ v) = v"

fun same_set :: "marks \<Rightarrow> marks \<Rightarrow> bool" where
  "same_set (MShared a _) (MShared b _) = (a = b)"
| "same_set _ _ = False"

record monitor_update =
  mu_value :: pv_field
  mu_marked :: "marks option"
  mu_type_changed :: bool
  mu_overrun :: "byte list list"

definition type_change :: monitor_update where
  "type_change = \<lparr> mu_value = PNull, mu_marked = None, mu_type_changed = True, mu_overrun = [] \<rparr>"

definition push_new :: "'a list \<Rightarrow> 'a \<Rightarrow> 'a list" where
  "push_new xs x = (if x \<in> set xs then xs else xs @ [x])"

definition coalesce_monitor_update :: "monitor_update \<Rightarrow> monitor_update \<Rightarrow> monitor_update" where
  "coalesce_monitor_update older newer =
     (if mu_type_changed older \<or> mu_type_changed newer then type_change
      else
        (let overrun = foldl push_new (mu_overrun older) (mu_overrun newer);
             overrun =
               (case (mu_marked older, mu_marked newer) of
                  (Some a, Some b) \<Rightarrow>
                    foldl (\<lambda>o' p. if p \<in> set (marks_paths b) then push_new o' p else o') overrun (marks_paths a)
                | _ \<Rightarrow> overrun);
             marked =
               (case (mu_marked older, mu_marked newer) of
                  (Some a, Some b) \<Rightarrow>
                    if same_set a b then Some a
                    else Some (MOwned (foldl push_new (marks_paths a) (marks_paths b)))
                | _ \<Rightarrow> None)
         in \<lparr> mu_value = mu_value newer, mu_marked = marked, mu_type_changed = False, mu_overrun = overrun \<rparr>))"

definition read_changed_bitset :: "field_desc \<Rightarrow> bit_set \<Rightarrow> byte list list option \<Rightarrow> bit_set" where
  "read_changed_bitset intro request_mask marked =
     (case marked of
        Some paths \<Rightarrow> marked_wire_changed_bitset intro paths request_mask
      | None \<Rightarrow> canonical_changed_bitset intro request_mask)"

record queued_update =
  qu_update :: monitor_update
  qu_changed :: bit_set

text \<open>\<open>same\<close>: the two sets are one allocation, hence equal.\<close>

definition coalesce_queued_update :: "bool \<Rightarrow> queued_update \<Rightarrow> queued_update \<Rightarrow> queued_update" where
  "coalesce_queued_update same older newer =
     (let update = coalesce_monitor_update (qu_update older) (qu_update newer) in
      \<lparr> qu_update = update,
        qu_changed =
          (if mu_type_changed update then bitset_new
           else if same then qu_changed older
           else bitset_union_with (qu_changed older) (qu_changed newer)) \<rparr>)"

record monitor_stat =
  ms_max_queue :: nat
  ms_n_squash :: nat

definition stat_queued :: "monitor_stat \<Rightarrow> nat \<Rightarrow> monitor_stat" where
  "stat_queued st depth = (if depth > ms_max_queue st then st \<lparr> ms_max_queue := depth \<rparr> else st)"

definition stat_squashed :: "monitor_stat \<Rightarrow> monitor_stat" where
  "stat_squashed st = st \<lparr> ms_n_squash := ms_n_squash st + 1 \<rparr>"

text \<open>\<open>None\<close> is the failed \<^verbatim>\<open>expect\<close> on an empty queue with limit 0.\<close>

definition push_squash_monitor ::
  "('t \<Rightarrow> bool) \<Rightarrow> ('t \<Rightarrow> 't \<Rightarrow> 't) \<Rightarrow> nat \<Rightarrow> 't list \<times> monitor_stat \<Rightarrow> 't \<Rightarrow> ('t list \<times> monitor_stat) option" where
  "push_squash_monitor is_terminal coalesce limit ps ev =
     (case ps of
        (pending, st) \<Rightarrow>
          if is_terminal ev \<or> length pending < limit
          then Some (pending @ [ev], stat_queued st (length pending + 1))
          else if pending = [] then None
          else Some (butlast pending @ [coalesce (last pending) ev], stat_squashed st))"

record monitor_queue =
  mq_pending :: "queued_update list"
  mq_limit :: nat
  mq_first :: bool
  mq_intro :: field_desc
  mq_mask :: bit_set
  mq_unmarked_changed :: bit_set
  mq_shared_changed :: "(marks \<times> bit_set) list"
  mq_stat :: monitor_stat

definition SHARED_CHANGED_CAP :: nat where "SHARED_CHANGED_CAP = 8"

definition monitor_queue_new :: "nat \<Rightarrow> field_desc \<Rightarrow> bit_set \<Rightarrow> monitor_stat \<Rightarrow> monitor_queue" where
  "monitor_queue_new limit intro request_mask st =
     \<lparr> mq_pending = [], mq_limit = max limit 1, mq_first = True, mq_intro = intro, mq_mask = request_mask,
       mq_unmarked_changed = canonical_changed_bitset intro request_mask, mq_shared_changed = [], mq_stat = st \<rparr>"

definition wire_changed :: "monitor_queue \<Rightarrow> monitor_update \<Rightarrow> bit_set \<times> monitor_queue" where
  "wire_changed q ev =
     (if mu_type_changed ev then (bitset_new, q)
      else
        case mu_marked ev of
          None \<Rightarrow> (mq_unmarked_changed q, q)
        | Some m \<Rightarrow>
            (let resolved = marked_wire_changed_bitset (mq_intro q) (marks_paths m) (mq_mask q) in
             case m of
               MOwned _ \<Rightarrow> (resolved, q)
             | MShared _ _ \<Rightarrow>
                 (case find (\<lambda>(m', _). same_set m' m) (mq_shared_changed q) of
                    Some (_, bits) \<Rightarrow> (bits, q)
                  | None \<Rightarrow>
                      (let kept = (if length (mq_shared_changed q) = SHARED_CHANGED_CAP
                                   then tl (mq_shared_changed q) else mq_shared_changed q)
                       in (resolved, q \<lparr> mq_shared_changed := kept @ [(m, resolved)] \<rparr>)))))"

definition monitor_queue_seed :: "monitor_queue \<Rightarrow> monitor_update \<Rightarrow> monitor_queue" where
  "monitor_queue_seed q initial =
     (case wire_changed (q \<lparr> mq_first := False \<rparr>) initial of
        (changed, q') \<Rightarrow>
          (let pending = mq_pending q' @ [\<lparr> qu_update = initial, qu_changed = changed \<rparr>] in
           q' \<lparr> mq_pending := pending, mq_stat := stat_queued (mq_stat q') (length pending) \<rparr>))"

text \<open>
  \<^verbatim>\<open>MonitorQueue::push\<close>; \<open>same\<close> decides the sharing test of the coalescing
  and the outer \<open>None\<close> is the failed \<^verbatim>\<open>expect\<close>.
\<close>

definition monitor_queue_push ::
  "(queued_update \<Rightarrow> queued_update \<Rightarrow> bool) \<Rightarrow> monitor_queue \<Rightarrow> monitor_update \<Rightarrow> (bool \<times> monitor_queue) option" where
  "monitor_queue_push same q ev =
     (case wire_changed q ev of
        (changed, q1) \<Rightarrow>
          if \<not> (mq_first q1 \<or> mu_type_changed ev \<or> \<not> bitset_is_empty changed) then Some (False, q1)
          else
            map_option (\<lambda>(pending, st). (True, q1 \<lparr> mq_first := False, mq_pending := pending, mq_stat := st \<rparr>))
              (push_squash_monitor (\<lambda>e. mu_type_changed (qu_update e))
                (\<lambda>older newer. coalesce_queued_update (same older newer) older newer) (mq_limit q1)
                (mq_pending q1, mq_stat q1) \<lparr> qu_update = ev, qu_changed = changed \<rparr>))"

definition monitor_queue_pop :: "monitor_queue \<Rightarrow> queued_update option \<times> monitor_queue" where
  "monitor_queue_pop q =
     (case mq_pending q of
        [] \<Rightarrow> (None, q)
      | u # us \<Rightarrow> (Some u, q \<lparr> mq_pending := us \<rparr>))"

text \<open>The frame builders; the size hint only sizes an allocation.\<close>

definition build_monitor_payload ::
  "conv_ops \<Rightarrow> bool \<Rightarrow> u32 \<Rightarrow> field_desc \<Rightarrow> pv_field \<Rightarrow> bit_set \<Rightarrow> byte_order \<Rightarrow> byte list" where
  "build_monitor_payload cv hb ioid intro v changed ord =
     (let payload = put_u32 ioid ord @ put_u8 0x00 @ bitset_write_into ord changed @
            encode_pv_field_with_bitset cv hb ord v intro changed 0 @ bitset_write_into ord bitset_new;
          h = header_application True ord (command_code Monitor) (of_nat (length payload))
      in header_encode h @ payload)"

record raw_monitor_event =
  rm_body_bytes :: "byte list"
  rm_byte_order :: byte_order
  rm_type_changed :: bool

definition coalesce_raw_monitor_event ::
  "conv_ops \<Rightarrow> bool \<Rightarrow> field_desc \<Rightarrow> raw_monitor_event \<Rightarrow> raw_monitor_event \<Rightarrow> raw_monitor_event" where
  "coalesce_raw_monitor_event cv hb intro older newer =
     (if rm_type_changed older \<or> rm_type_changed newer
      then \<lparr> rm_body_bytes = [], rm_byte_order = rm_byte_order newer, rm_type_changed = True \<rparr>
      else
        case squash_monitor_bodies cv hb intro
            \<lparr> mb_bytes = rm_body_bytes older, mb_order = rm_byte_order older \<rparr>
            \<lparr> mb_bytes = rm_body_bytes newer, mb_order = rm_byte_order newer \<rparr> (rm_byte_order newer) of
          Inr body \<Rightarrow> \<lparr> rm_body_bytes = body, rm_byte_order = rm_byte_order newer, rm_type_changed = False \<rparr>
        | Inl reason \<Rightarrow> newer)"

definition build_monitor_payload_raw :: "u32 \<Rightarrow> raw_monitor_event \<Rightarrow> byte_order \<Rightarrow> byte list" where
  "build_monitor_payload_raw ioid ev ord =
     (let payload = put_u32 ioid ord @ put_u8 0x00 @ rm_body_bytes ev;
          h = header_application True ord (command_code Monitor) (of_nat (length payload))
      in header_write_into h @ payload)"

definition build_status_frame :: "u32 \<Rightarrow> byte \<Rightarrow> command \<Rightarrow> status \<Rightarrow> byte_order \<Rightarrow> byte list" where
  "build_status_frame ioid subcmd cmd st ord =
     (let payload = put_u32 ioid ord @ put_u8 subcmd @ status_write_into ord st;
          h = header_application True ord (command_code cmd) (of_nat (length payload))
      in header_write_into h @ payload)"

definition build_op_error_frame :: "command \<Rightarrow> u32 \<Rightarrow> byte \<Rightarrow> status \<Rightarrow> byte_order \<Rightarrow> byte list" where
  "build_op_error_frame cmd ioid subcmd st ord = build_status_frame ioid subcmd cmd st ord"

definition build_monitor_finish :: "u32 \<Rightarrow> byte_order \<Rightarrow> byte list" where
  "build_monitor_finish ioid ord = build_status_frame ioid 0x10 Monitor OkNoMsg ord"

definition build_monitor_error :: "u32 \<Rightarrow> byte list \<Rightarrow> byte_order \<Rightarrow> byte list" where
  "build_monitor_error ioid msg ord = build_status_frame ioid 0x10 Monitor (status_error msg) ord"

definition reencode_raw_monitor ::
  "conv_ops \<Rightarrow> bool \<Rightarrow> u32 \<Rightarrow> field_desc \<Rightarrow> raw_monitor_event \<Rightarrow> byte_order \<Rightarrow> decode_error + byte list" where
  "reencode_raw_monitor cv hb ioid intro ev ord =
     and_then (bitset_decode (rm_byte_order ev) (rm_body_bytes ev)) (\<lambda>(changed, bs).
     and_then (decode_with_bitset hb (rm_byte_order ev) intro changed 0 bs) (\<lambda>(v, bs).
     and_then (bitset_decode (rm_byte_order ev) bs) (\<lambda>(overrun, _).
     let payload = put_u32 ioid ord @ put_u8 0x00 @ bitset_write_into ord changed @
           encode_pv_field_with_bitset cv hb ord v intro changed 0 @ bitset_write_into ord overrun;
         h = header_application True ord (command_code Monitor) (of_nat (length payload))
     in Inr (header_write_into h @ payload))))"

datatype raw_frame = Forward "byte list" | Terminate "byte list" decode_error

text \<open>\<open>render\<close> turns the reason into the message of the error frame.\<close>

definition raw_monitor_frame ::
  "conv_ops \<Rightarrow> bool \<Rightarrow> (decode_error \<Rightarrow> byte list) \<Rightarrow> u32 \<Rightarrow> field_desc \<Rightarrow> raw_monitor_event \<Rightarrow> byte_order \<Rightarrow>
     raw_frame" where
  "raw_monitor_frame cv hb render ioid intro ev downstream =
     (if rm_byte_order ev \<noteq> downstream then
        (case reencode_raw_monitor cv hb ioid intro ev downstream of
           Inr p \<Rightarrow> Forward p
         | Inl reason \<Rightarrow> Terminate (build_monitor_error ioid (render reason) downstream) reason)
      else Forward (build_monitor_payload_raw ioid ev downstream))"

section \<open>The fence\<close>

text \<open>
  Runs of the fence.  \<open>live\<close> are the deliveries not yet dropped, \<open>parked\<close> the
  loops whose last poll was pending and that nothing has woken since, with the
  waker they left.
\<close>

inductive fence_run :: "tickets \<Rightarrow> nat set \<Rightarrow> (nat \<rightharpoonup> nat) \<Rightarrow> bool" where
  start: "fence_run fence_new {} Map.empty"
| issue: "fence_run t live parked \<Longrightarrow> fence_issue t = (seq, t') \<Longrightarrow> fence_run t' (insert seq live) parked"
| poll_ready: "fence_run t live parked \<Longrightarrow> seq \<in> live \<Longrightarrow> turn_poll seq w t = Some (True, t') \<Longrightarrow>
    fence_run t' live (parked(seq := None))"
| poll_pending: "fence_run t live parked \<Longrightarrow> seq \<in> live \<Longrightarrow> turn_poll seq w t = Some (False, t') \<Longrightarrow>
    fence_run t' live (parked(seq \<mapsto> w))"
| release: "fence_run t live parked \<Longrightarrow> seq \<in> live \<Longrightarrow> delivery_drop seq t = (t', wake, notified) \<Longrightarrow>
    fence_run t' (live - {seq}) (\<lambda>s. if s = seq \<or> parked s = wake then None else parked s)"

definition fence_ok :: "tickets \<Rightarrow> nat set \<Rightarrow> (nat \<rightharpoonup> nat) \<Rightarrow> bool" where
  "fence_ok t live parked \<longleftrightarrow>
     sorted_wrt (<) (map fst (tk_outstanding t)) \<and> set (map fst (tk_outstanding t)) = live \<and>
     (\<forall>s \<in> live. s < tk_next t) \<and>
     (\<forall>s w. parked s = Some w \<longrightarrow>
        (s, Some w) \<in> set (tk_outstanding t) \<and> first_key (tk_outstanding t) \<noteq> Some s)"

lemma btree_insert_snoc: "\<forall>x \<in> set m. fst x < k \<Longrightarrow> btree_insert k v m = m @ [(k, v)]"
  by (induction k v m rule: btree_insert.induct) auto

lemma btree_insert_present:
  "sorted_wrt (<) (map fst m) \<Longrightarrow> k \<in> fst ` set m \<Longrightarrow>
   map fst (btree_insert k v m) = map fst m \<and>
   set (btree_insert k v m) = {x \<in> set m. fst x \<noteq> k} \<union> {(k, v)}"
proof (induction k v m rule: btree_insert.induct)
  case (2 k v k' v' m)
  consider "k < k'" | "k = k'" | "k' < k" by linarith
  then show ?case
  proof cases
    case 1
    with 2(2,3) show ?thesis by fastforce
  next
    case 2
    with "2.prems" show ?thesis by fastforce
  next
    case 3
    with 2 show ?thesis by auto
  qed
qed simp

lemma first_key_map: "first_key m = (case map fst m of [] \<Rightarrow> None | k # _ \<Rightarrow> Some k)"
  by (auto simp: first_key_def split: list.splits)

lemma first_key_least:
  "sorted_wrt (<) (map fst m) \<Longrightarrow> first_key m = Some k \<longleftrightarrow> k \<in> fst ` set m \<and> (\<forall>x \<in> fst ` set m. k \<le> x)"
proof (cases m)
  case (Cons y m')
  moreover assume "sorted_wrt (<) (map fst m)"
  ultimately have "\<forall>x \<in> fst ` set m'. fst y < x" by simp
  then show ?thesis using Cons by (cases y) (force simp: first_key_def)
qed (simp add: first_key_def)

lemma remove_absent: "k \<notin> fst ` set m \<Longrightarrow> btree_remove k m = m"
  by (force simp: btree_remove_def filter_id_conv)

lemma drop_shape:
  assumes "sorted_wrt (<) (map fst (tk_outstanding t))" "delivery_drop seq t = (t', wake, notified)"
  obtains (younger) "first_key (tk_outstanding t) \<noteq> Some seq" "wake = None"
      "tk_outstanding t' = btree_remove seq (tk_outstanding t)" "tk_next t' = tk_next t"
    | (only) x where "tk_outstanding t = [(seq, x)]" "tk_outstanding t' = []" "wake = None" "tk_next t' = tk_next t"
    | (oldest) x k m where "tk_outstanding t = (seq, x) # (k, wake) # m" "tk_outstanding t' = (k, None) # m"
      "tk_next t' = tk_next t"
proof (cases "first_key (tk_outstanding t) = Some seq")
  case True
  then obtain x m where m: "tk_outstanding t = (seq, x) # m" by (auto simp: first_key_def split: list.splits)
  have "btree_remove seq m = m"
    using assms(1) by (intro remove_absent) (auto simp: m)
  then have rest: "btree_remove seq (tk_outstanding t) = m" by (simp add: m btree_remove_def)
  show ?thesis
  proof (cases m)
    case Nil
    then show ?thesis using assms(2) True rest by (intro only) (auto simp: delivery_drop_def m)
  next
    case (Cons y m')
    then show ?thesis
      using assms(2) True rest m by (intro oldest [of x "fst y" m']) (auto simp: delivery_drop_def split: prod.splits)
  qed
next
  case False
  then show ?thesis using assms(2) by (intro younger) (auto simp: delivery_drop_def Let_def)
qed

lemma first_key_remove: "first_key m \<noteq> Some k \<Longrightarrow> first_key (btree_remove k m) = first_key m"
  by (cases m) (auto simp: first_key_def btree_remove_def)

lemma fence_run_ok: "fence_run t live parked \<Longrightarrow> fence_ok t live parked"
proof (induction rule: fence_run.induct)
  case start
  then show ?case by (simp add: fence_ok_def fence_new_def)
next
  case (issue t live parked seq t')
  then have t': "tk_outstanding t' = tk_outstanding t @ [(tk_next t, None)]" "seq = tk_next t"
    "tk_next t' = Suc (tk_next t)"
    by (auto simp: fence_issue_def fence_ok_def intro!: btree_insert_snoc)
  have "first_key (tk_outstanding t') \<noteq> Some s" if "parked s = Some w" for s w
    using issue.IH that t' by (cases "tk_outstanding t") (auto simp: fence_ok_def first_key_def)
  then show ?case
    using issue.IH by (auto simp: fence_ok_def t' sorted_wrt_append less_Suc_eq)
next
  case (poll_ready t live parked seq w t')
  then show ?case by (auto simp: turn_poll_def fence_ok_def split: if_splits)
next
  case (poll_pending t live parked seq w t')
  have t': "t' = t \<lparr> tk_outstanding := btree_insert seq (Some w) (tk_outstanding t) \<rparr>"
    "first_key (tk_outstanding t) \<noteq> Some seq"
    using poll_pending.hyps(3) by (auto simp: turn_poll_def split: if_splits)
  show ?case
    using poll_pending.IH poll_pending.hyps(2) btree_insert_present [of "tk_outstanding t" seq "Some w"] t'
    by (auto simp: fence_ok_def first_key_map)
next
  case (release t live parked seq t' wake notified)
  have ok: "sorted_wrt (<) (map fst (tk_outstanding t))" "fst ` set (tk_outstanding t) = live"
    "\<forall>s \<in> live. s < tk_next t"
    "\<And>s w. parked s = Some w \<Longrightarrow> (s, Some w) \<in> set (tk_outstanding t) \<and> first_key (tk_outstanding t) \<noteq> Some s"
    using release.IH by (auto simp: fence_ok_def)
  from ok(1) release.hyps(3) show ?case
  proof (cases rule: drop_shape)
    case younger
    have "sorted_wrt (<) (map fst (tk_outstanding t'))"
      using ok(1) by (simp add: younger btree_remove_def sorted_wrt_map sorted_wrt_filter)
    moreover have "fst ` set (tk_outstanding t') = live - {seq}"
      using ok(2) by (auto simp: younger btree_remove_def)
    ultimately show ?thesis
      using ok(3,4) younger first_key_remove [OF younger(1)]
      by (auto simp: fence_ok_def btree_remove_def)
  next
    case (only x)
    then show ?thesis using ok by (auto simp: fence_ok_def)
  next
    case (oldest x k m)
    have "(s, Some w) \<in> set m" if "parked s = Some w" "s \<noteq> seq" "parked s \<noteq> wake" for s w
      using ok(4) [OF that(1)] that by (auto simp: oldest)
    moreover have "s \<noteq> k" if "(s, y) \<in> set m" for s y
      using ok(1) that by (auto simp: oldest)
    moreover have "live - {seq} = insert k (fst ` set m)"
      using ok(1,2) by (auto simp: oldest)
    ultimately show ?thesis
      using ok(1,3) by (auto simp: fence_ok_def oldest first_key_def split: if_splits)
  qed
qed

text \<open>What every run guarantees to the two kinds of waiters.\<close>

lemma fence_waiters:
  assumes "fence_run t live parked"
  shows "seq \<in> live \<Longrightarrow> \<exists>t'. turn_poll seq w t = Some (\<forall>s \<in> live. seq \<le> s, t')"
    and "point_reached (Some n) t \<longleftrightarrow> (\<forall>s \<in> live. n \<le> s)"
    and "fence_point t = None \<longleftrightarrow> live = {}"
    and "parked seq = Some w \<Longrightarrow> \<exists>s \<in> live. s < seq"
proof -
  have ok: "sorted_wrt (<) (map fst (tk_outstanding t))" "fst ` set (tk_outstanding t) = live"
    "\<And>s w. parked s = Some w \<Longrightarrow> (s, Some w) \<in> set (tk_outstanding t) \<and> first_key (tk_outstanding t) \<noteq> Some s"
    using fence_run_ok [OF assms] by (auto simp: fence_ok_def)
  note least = first_key_least [OF ok(1), unfolded ok(2)]
  show "\<exists>t'. turn_poll seq w t = Some (\<forall>s \<in> live. seq \<le> s, t')" if "seq \<in> live"
  proof -
    have "map_of (tk_outstanding t) seq \<noteq> None" using that ok(2) by (auto simp: map_of_eq_None_iff)
    then show ?thesis using least [of seq] that by (auto simp: turn_poll_def)
  qed
  show "point_reached (Some n) t \<longleftrightarrow> (\<forall>s \<in> live. n \<le> s)"
  proof (cases "first_key (tk_outstanding t)")
    case None
    then show ?thesis using ok(2) by (auto simp: point_reached_def first_key_def split: list.splits)
  next
    case (Some k)
    with least [of k] show ?thesis by (auto simp: point_reached_def intro: order_trans)
  qed
  show "fence_point t = None \<longleftrightarrow> live = {}" using ok(2) by (auto simp: fence_point_def)
  show "\<exists>s \<in> live. s < seq" if "parked seq = Some w"
    using ok(3) [OF that] least [of seq] ok(2) by (force simp: not_le)
qed

section \<open>The backlog on any frames\<close>

lemma write_nonempty [simp]: "bitset_write_into ord s \<noteq> []"
  by (simp add: bitset_write_into_def encode_size_into_def Let_def)

lemma case_into_Inr:
  "(case r of (Inl e, _, _) \<Rightarrow> Inl (w e) | (Inr bs, v, _) \<Rightarrow> f bs v) = Inr x \<longleftrightarrow>
   (\<exists>bs v c. r = (Inr bs, v, c) \<and> f bs v = Inr x)"
  by (cases r; cases "fst r") auto

lemma squash_nonempty: "squash_monitor_bodies cv hb d a b ord = Inr body \<Longrightarrow> body \<noteq> []"
  unfolding squash_monitor_bodies_def Let_def by (auto simp: and_then_eq_Inr case_into_Inr)

definition merged_frame :: "frame \<Rightarrow> byte list \<Rightarrow> frame" where
  "merged_frame f body =
     \<lparr> fr_header = header_application True (frame_order f) (h_command (fr_header f))
         (of_nat (length (take BODY_AT (fr_payload f) @ body))),
       fr_payload = take BODY_AT (fr_payload f) @ body \<rparr>"

lemma inner_push_cases:
  obtains (append) "inner_push cv hb b f t = (b \<lparr> bl_q := bl_q b @ [(f, t)] \<rparr>, [])"
    | (squash) q g t0 d body where "bl_q b = q @ [(g, t0)]" "is_data g" "is_data f" "\<not> bl_pipeline b"
      "bl_limit b \<le> length (bl_q b)" "bl_intro b = Some d"
      "squash_monitor_bodies cv hb d (frame_body g) (frame_body f) (frame_order f) = Inr body"
      "inner_push cv hb b f t =
        (b \<lparr> bl_q := q @ [(merged_frame f body, t0)], bl_n_squash := bl_n_squash b + 1 \<rparr>, [t])"
proof (cases "inner_push cv hb b f t = (b \<lparr> bl_q := bl_q b @ [(f, t)] \<rparr>, [])")
  case False
  then have f: "is_data f" "\<not> bl_pipeline b" "bl_limit b \<le> length (bl_q b)"
    by (auto simp: inner_push_def Let_def split: if_splits)
  with False have "bl_q b \<noteq> []" by (auto simp: inner_push_def Let_def split: if_splits)
  then obtain q g t0 where q: "bl_q b = q @ [(g, t0)]" by (metis append_butlast_last_id prod.collapse)
  with False f obtain d body where "is_data g" "bl_intro b = Some d"
    "squash_monitor_bodies cv hb d (frame_body g) (frame_body f) (frame_order f) = Inr body"
    by (auto simp: inner_push_def Let_def split: if_splits option.splits sum.splits)
  with q f show ?thesis
    by (intro squash) (auto simp: inner_push_def merged_frame_def Let_def)
qed

lemma merged_is_data: "is_data f \<Longrightarrow> body \<noteq> [] \<Longrightarrow> is_data (merged_frame f body)"
  by (auto simp: is_data_def merged_frame_def BODY_AT_def nth_append min_def)

datatype backlog_op = Push frame nat | Take

definition backlog_step :: "conv_ops \<Rightarrow> bool \<Rightarrow> backlog \<times> frame list \<Rightarrow> backlog_op \<Rightarrow> backlog \<times> frame list" where
  "backlog_step cv hb s op =
     (case op of
        Push f t \<Rightarrow> (fst (backlog_push cv hb (fst s) f t), snd s)
      | Take \<Rightarrow>
          (case backlog_recv (fst s) of
             (Got f t, b) \<Rightarrow> (b, snd s @ [f])
           | (_, b) \<Rightarrow> (b, snd s)))"

lemma backlog_step_simps:
  "backlog_step cv hb (b, got) (Push f t) = (fst (backlog_push cv hb b f t), got)"
  "bl_q b = [] \<Longrightarrow> backlog_step cv hb (b, got) Take = (b, got)"
  "bl_q b = x # q \<Longrightarrow> backlog_step cv hb (b, got) Take = (b \<lparr> bl_q := q \<rparr>, got @ [fst x])"
  by (auto simp: backlog_step_def backlog_recv_def split: prod.split)

fun pushed :: "backlog_op list \<Rightarrow> frame list" where
  "pushed [] = []"
| "pushed (Push f _ # ops) = f # pushed ops"
| "pushed (Take # ops) = pushed ops"

definition control_frames :: "frame list \<Rightarrow> frame list" where
  "control_frames fs = filter (\<lambda>f. \<not> is_data f) fs"

lemma control_frames_simps [simp]:
  "control_frames [] = []" "control_frames (f # fs) = (if is_data f then [] else [f]) @ control_frames fs"
  "control_frames (xs @ ys) = control_frames xs @ control_frames ys"
  by (simp_all add: control_frames_def)

lemma backlog_push_open:
  assumes "\<not> bl_closed b" "backlog_push cv hb b f t = (b', dropped)"
  shows "\<not> bl_closed b' \<and>
    control_frames (map fst (bl_q b')) = control_frames (map fst (bl_q b) @ [f]) \<and>
    length (bl_q b') + bl_n_squash b' = Suc (length (bl_q b) + bl_n_squash b) \<and>
    length (bl_q b') \<le> bl_max_queue b'"
proof (cases rule: inner_push_cases [of cv hb b f t])
  case append
  then show ?thesis using assms by (auto simp: backlog_push_def)
next
  case (squash q g t0 d body)
  have "is_data (merged_frame f body)" by (rule merged_is_data [OF squash(3) squash_nonempty [OF squash(7)]])
  with squash show ?thesis using assms by (auto simp: backlog_push_def control_frames_def)
qed

lemma backlog_run_frames:
  assumes "\<not> bl_closed b"
  shows "case foldl (backlog_step cv hb) (b, got) ops of (b', got') \<Rightarrow>
    control_frames (got' @ map fst (bl_q b')) = control_frames (got @ map fst (bl_q b)) @ control_frames (pushed ops) \<and>
    length got' + length (bl_q b') + bl_n_squash b' =
      length got + length (bl_q b) + bl_n_squash b + length (pushed ops)"
  using assms
proof (induction ops arbitrary: b got)
  case Nil
  then show ?case by (simp add: control_frames_def)
next
  case (Cons op ops)
  show ?case
  proof (cases op)
    case (Push f t)
    obtain b' dropped where b': "backlog_push cv hb b f t = (b', dropped)" by (cases "backlog_push cv hb b f t")
    show ?thesis
      using backlog_push_open [OF Cons.prems b'] Cons.IH [of b' got]
      by (auto simp: Push backlog_step_simps b' split: prod.splits)
  next
    case Take
    show ?thesis
    proof (cases "bl_q b")
      case Nil
      then show ?thesis using Cons.IH [OF Cons.prems, of got] by (simp add: Take backlog_step_simps)
    next
      case (Cons x q)
      then show ?thesis
        using Cons.IH [of "b \<lparr> bl_q := q \<rparr>" "got @ [fst x]"] Cons.prems
        by (auto simp: Take backlog_step_simps control_frames_def split: prod.splits)
    qed
  qed
qed

end
