(* ===== verification/Pva_Monitor_Correct.thy ===== *)
theory Pva_Monitor_Correct
  imports Pva_Monitor
begin

text \<open>
  What a subscription delivers.  Every frame in a backlog that holds updates
  stands for a mask and a value; pushing, squashing and draining act on those
  as \<open>overlay\<close> does, so however far the consumer lags it ends with the value
  that applying every update in order gives.  On the server the changed set
  queued with an update is the one its frame must carry.
\<close>

section \<open>Updates as frames\<close>

definition update_frame :: "conv_ops \<Rightarrow> field_desc \<Rightarrow> frame \<Rightarrow> bit_set \<Rightarrow> pv_field \<Rightarrow> bool" where
  "update_frame cv d f c v \<longleftrightarrow>
     postable d v \<and> short_set c \<and> h_command (fr_header f) = command_code Monitor \<and>
     (\<exists>hb ioid o'. short_set o' \<and>
        fr_payload f = monitor_payload (frame_order f) ioid (monitor_data cv hb (frame_order f) d c v o'))"

lemma payload_parts:
  "take BODY_AT (monitor_payload ord ioid body) = put_u32 ioid ord @ [0]"
  "drop BODY_AT (monitor_payload ord ioid body) = body"
  "monitor_payload ord ioid body ! 4 = 0"
  "length (monitor_payload ord ioid body) = 5 + length body"
proof -
  have n: "length (put_u32 ioid ord) = 4" by (simp add: wire_length)
  show "take BODY_AT (monitor_payload ord ioid body) = put_u32 ioid ord @ [0]"
    "drop BODY_AT (monitor_payload ord ioid body) = body"
    "monitor_payload ord ioid body ! 4 = 0"
    "length (monitor_payload ord ioid body) = 5 + length body"
    by (simp_all add: monitor_payload_def BODY_AT_def put_u8_def n nth_append)
qed

lemma update_is_data: "update_frame cv d f c v \<Longrightarrow> is_data f"
  by (auto simp: update_frame_def is_data_def payload_parts monitor_data_def BODY_AT_def)

lemma merged_order [simp]: "frame_order (merged_frame f body) = frame_order f"
  by (simp add: merged_frame_def frame_order_def)

text \<open>Two queued updates squash into one that has the effect of both.\<close>

lemma squash_updates:
  assumes "update_frame cv d g a v" "update_frame cv d f b w"
  obtains body c where
    "squash_monitor_bodies cv hb d (frame_body g) (frame_body f) (frame_order f) = Inr body"
    "update_frame cv d (merged_frame f body) c (overlay d b 0 w v)"
    "\<And>p. shaped d p \<Longrightarrow> overlay d c 0 (overlay d b 0 w v) p = overlay d b 0 w (overlay d a 0 v p)"
proof -
  from assms(1) obtain hb1 ioid1 oa where g: "postable d v" "short_set a" "short_set oa"
    "fr_payload g = monitor_payload (frame_order g) ioid1 (monitor_data cv hb1 (frame_order g) d a v oa)"
    unfolding update_frame_def by blast
  from assms(2) obtain hb2 ioid2 ob where f: "postable d w" "short_set b" "short_set ob"
    "h_command (fr_header f) = command_code Monitor"
    "fr_payload f = monitor_payload (frame_order f) ioid2 (monitor_data cv hb2 (frame_order f) d b w ob)"
    unfolding update_frame_def by blast
  obtain c o' where c: "squash_monitor_bodies cv hb d
      \<lparr> mb_bytes = monitor_data cv hb1 (frame_order g) d a v oa @ [], mb_order = frame_order g \<rparr>
      \<lparr> mb_bytes = monitor_data cv hb2 (frame_order f) d b w ob @ [], mb_order = frame_order f \<rparr> (frame_order f) =
      Inr (monitor_data cv hb (frame_order f) d c (overlay d b 0 w v) o')"
    "short_set c" "short_set o'" "\<forall>j. bitset_get c j \<longleftrightarrow> bitset_get (squash_changed d a b) j"
    using squash_bodies [OF g(1) f(1) g(2,3) f(2,3), of cv hb hb1 "frame_order g" "[]" hb2 "frame_order f" "[]"
        "frame_order f"] by blast
  let ?body = "monitor_data cv hb (frame_order f) d c (overlay d b 0 w v) o'"
  have "squash_monitor_bodies cv hb d (frame_body g) (frame_body f) (frame_order f) = Inr ?body"
    using c(1) by (simp add: frame_body_def g(4) f(5) payload_parts)
  moreover have "update_frame cv d (merged_frame f ?body) c (overlay d b 0 w v)"
  proof -
    have "fr_payload (merged_frame f ?body) = monitor_payload (frame_order f) ioid2 ?body"
      by (simp add: merged_frame_def f(5) payload_parts) (simp add: monitor_payload_def put_u8_def)
    then show ?thesis
      using postable_overlay [OF f(1) g(1)] c(2,3) f(4)
      by (auto simp: update_frame_def) (simp add: merged_frame_def)
  qed
  moreover have "overlay d c 0 (overlay d b 0 w v) p = overlay d b 0 w (overlay d a 0 v p)" if "shaped d p" for p
    by (rule overlay_squashed [OF g(1) f(1) that c(4)])
  ultimately show ?thesis by (rule that)
qed

section \<open>The backlog of updates\<close>

definition play :: "field_desc \<Rightarrow> (bit_set \<times> pv_field) list \<Rightarrow> pv_field \<Rightarrow> pv_field" where
  "play d posts p = foldl (\<lambda>p (c, v). overlay d c 0 v p) p posts"

lemma play_simps [simp]:
  "play d [] p = p" "play d ((c, v) # posts) p = play d posts (overlay d c 0 v p)"
  "play d (posts @ posts') p = play d posts' (play d posts p)"
  by (simp_all add: play_def)

definition holds_updates :: "conv_ops \<Rightarrow> field_desc \<Rightarrow> (frame \<times> nat) list \<Rightarrow> (bit_set \<times> pv_field) list \<Rightarrow> bool" where
  "holds_updates cv d q posts = list_all2 (\<lambda>(f, _) (c, v). update_frame cv d f c v) q posts"

lemma postable_shaped: "postable d v \<Longrightarrow> shaped d v"
  using typed_shaped(1) by (auto simp: postable_def)

lemma update_shaped: "update_frame cv d f c v \<Longrightarrow> shaped d v"
  by (auto simp: update_frame_def postable_shaped)

lemma play_shaped: "holds_updates cv d q posts \<Longrightarrow> shaped d p \<Longrightarrow> shaped d (play d posts p)"
  unfolding holds_updates_def
  by (induction q posts arbitrary: p rule: list_all2_induct)
    (auto simp: overlay_shaped(1) update_shaped)

lemma push_update:
  assumes "holds_updates cv d (bl_q b) posts" "update_frame cv d f c v" "bl_intro b = Some d" "\<not> bl_closed b"
  obtains posts' b' where "fst (backlog_push cv hb b f t) = b'" "holds_updates cv d (bl_q b') posts'"
    "\<forall>p. shaped d p \<longrightarrow> play d posts' p = overlay d c 0 v (play d posts p)" "posts' \<noteq> []"
    "bl_intro b' = Some d" "\<not> bl_closed b'" "bl_limit b' = bl_limit b" "bl_pipeline b' = bl_pipeline b"
    "bl_max_queue b' = max (bl_max_queue b) (length (bl_q b'))" "length (bl_q b') \<le> Suc (length (bl_q b))"
    "\<not> bl_pipeline b \<and> length (bl_q b) \<le> bl_limit b \<and> 0 < bl_limit b \<longrightarrow> length (bl_q b') \<le> bl_limit b"
proof (cases "bl_pipeline b \<or> length (bl_q b) < bl_limit b")
  case True
  then have "inner_push cv hb b f t = (b \<lparr> bl_q := bl_q b @ [(f, t)] \<rparr>, [])"
    by (auto simp: inner_push_def Let_def)
  with assms True show ?thesis
    by (intro that [of "fst (backlog_push cv hb b f t)" "posts @ [(c, v)]"])
      (auto simp: backlog_push_def holds_updates_def intro: list_all2_appendI)
next
  case False
  show ?thesis
  proof (cases "bl_q b" rule: rev_cases)
    case Nil
    then have "inner_push cv hb b f t = (b \<lparr> bl_q := bl_q b @ [(f, t)] \<rparr>, [])"
      by (auto simp: inner_push_def Let_def)
    with assms False Nil show ?thesis
      by (intro that [of "fst (backlog_push cv hb b f t)" "posts @ [(c, v)]"]) (auto simp: backlog_push_def holds_updates_def)
  next
    case (snoc q x)
    obtain g t0 where x: "x = (g, t0)" by (cases x)
    from assms(1) obtain posts0 a u where posts: "posts = posts0 @ [(a, u)]" "holds_updates cv d q posts0"
      "update_frame cv d g a u"
      by (auto simp: holds_updates_def snoc x list_all2_append1 list_all2_Cons1)
    obtain body c' where m: "squash_monitor_bodies cv hb d (frame_body g) (frame_body f) (frame_order f) = Inr body"
      "update_frame cv d (merged_frame f body) c' (overlay d c 0 v u)"
      "\<And>p. shaped d p \<Longrightarrow> overlay d c' 0 (overlay d c 0 v u) p = overlay d c 0 v (overlay d a 0 u p)"
      by (rule squash_updates [OF posts(3) assms(2), of hb]) blast
    have "inner_push cv hb b f t =
        (b \<lparr> bl_q := q @ [(merged_frame f body, t0)], bl_n_squash := bl_n_squash b + 1 \<rparr>, [t])"
      using False update_is_data [OF assms(2)] update_is_data [OF posts(3)] assms(3) m(1)
      by (simp add: inner_push_def snoc x merged_frame_def Let_def)
    with assms False m posts show ?thesis
      by (intro that [of "fst (backlog_push cv hb b f t)" "posts0 @ [(c', overlay d c 0 v u)]"])
        (auto simp: backlog_push_def holds_updates_def snoc x m(3) play_shaped [OF posts(2)]
          intro: list_all2_appendI)
  qed
qed

section \<open>Draining\<close>

definition held :: "field_desc \<Rightarrow> pv_field option \<Rightarrow> pv_field" where
  "held d prior = (case prior of None \<Rightarrow> default_value_for d | Some p \<Rightarrow> p)"

lemma drain_data:
  assumes "decode_op_response hb f (Some intro) = Inr (OpData r)" "od_subcmd r AND 0x10 = 0"
  shows "\<exists>s' evs. drain_step hb intro flow True counters s f = (s', evs, None) \<and>
    dr_prior s' = Some (case dr_prior s of
      Some prev \<Rightarrow> fill_unmarked_from_prior intro (od_changed r) 0 (od_value r) prev | None \<Rightarrow> od_value r)"
  using assms by (cases counters) (simp add: drain_step_def Let_def)

lemma drain_update:
  assumes "update_frame cv d f c v" "distinct_names d" "shaped d (held d (dr_prior s))"
  obtains s' evs where "drain_step hb d flow True counters s f = (s', evs, None)"
    "dr_prior s' = Some (overlay d c 0 v (held d (dr_prior s)))"
proof -
  from assms(1) obtain hb' ioid o' where f: "postable d v" "short_set c" "short_set o'"
    "h_command (fr_header f) = command_code Monitor"
    "fr_payload f = monitor_payload (frame_order f) ioid (monitor_data cv hb' (frame_order f) d c v o')"
    unfolding update_frame_def by blast
  note dec = decode_monitor_update [OF f(1,2,3) refl f(4,5), of hb]
  have v: "shaped d v" using f(1) by (rule postable_shaped)
  have "fill_unmarked_from_prior d (trimmed c) 0 (overlay d c 0 v (default_value_for d)) p = overlay d c 0 v p"
    if "shaped d p" for p
    using fill_overlay(1) [OF overlay_shaped(1) [OF v default_shaped(1)] that assms(2)]
      overlay_overlay(1) [OF v default_shaped(1)] by simp
  with drain_data [OF dec, of flow counters s] assms(3) show ?thesis
    by (auto simp: held_def intro: that split: option.splits)
qed

section \<open>A subscription from the server's frames to the callback\<close>

text \<open>What happens at the client: a frame of the server arrives, or the loop takes the next one from the backlog.\<close>

record post =
  po_ioid :: u32
  po_order :: byte_order
  po_changed :: bit_set
  po_value :: pv_field
  po_ticket :: nat

datatype client_op = Arrive post | Drain

definition post_bytes :: "conv_ops \<Rightarrow> bool \<Rightarrow> field_desc \<Rightarrow> post \<Rightarrow> byte list" where
  "post_bytes cv hs d p = build_monitor_payload cv hs (po_ioid p) d (po_value p) (po_changed p) (po_order p)"

definition client_step ::
  "conv_ops \<Rightarrow> bool \<Rightarrow> bool \<Rightarrow> field_desc \<Rightarrow> monitor_flow \<Rightarrow> backlog \<times> drain_state \<Rightarrow> client_op \<Rightarrow> backlog \<times> drain_state" where
  "client_step cv hs hb d flow st op =
     (case op of
        Arrive p \<Rightarrow>
          (case try_parse_frame_role RoleClient (post_bytes cv hs d p) of
             Inr (Some (f, _)) \<Rightarrow> (fst (backlog_push cv hb (fst st) f (po_ticket p)), snd st)
           | _ \<Rightarrow> st)
      | Drain \<Rightarrow>
          (case backlog_recv (fst st) of
             (Got f _, b) \<Rightarrow> (b, fst (drain_step hb d flow True (backlog_counters b) (snd st) f))
           | _ \<Rightarrow> st))"

fun posts_of :: "client_op list \<Rightarrow> post list" where
  "posts_of [] = []"
| "posts_of (Arrive p # ops) = p # posts_of ops"
| "posts_of (Drain # ops) = posts_of ops"

definition post_sendable :: "conv_ops \<Rightarrow> bool \<Rightarrow> field_desc \<Rightarrow> post \<Rightarrow> bool" where
  "post_sendable cv hs d p \<longleftrightarrow>
     postable d (po_value p) \<and> short_set (po_changed p) \<and> length (post_bytes cv hs d p) < 2 ^ 32"

lemma posts_of_append [simp]: "posts_of (ops @ ops') = posts_of ops @ posts_of ops'"
  by (induction ops rule: posts_of.induct) simp_all

lemma post_parsed:
  assumes "post_sendable cv hs d p"
  obtains f n where "try_parse_frame_role RoleClient (post_bytes cv hs d p) = Inr (Some (f, n))"
    "update_frame cv d f (po_changed p) (po_value p)"
proof -
  let ?payload = "monitor_payload (po_order p) (po_ioid p)
    (monitor_data cv hs (po_order p) d (po_changed p) (po_value p) bitset_new)"
  have b: "post_bytes cv hs d p = frame_bytes (app_frame True (po_order p) Monitor ?payload) @ []"
    by (simp add: post_bytes_def build_monitor_payload_def frame_bytes_def app_frame_def monitor_payload_def
        monitor_data_def header_encode_write_into Let_def)
  have "length ?payload \<le> length (post_bytes cv hs d p)"
    by (simp add: b frame_bytes_def app_frame_def)
  then have "length ?payload < 2 ^ 32" using assms unfolding post_sendable_def by linarith
  from parse_app_frame [OF this, of RoleClient True "po_order p" Monitor "[]"]
  have "try_parse_frame_role RoleClient (post_bytes cv hs d p) =
      Inr (Some (app_frame True (po_order p) Monitor ?payload, 8 + length ?payload))"
    by (simp only: b) simp
  moreover have "update_frame cv d (app_frame True (po_order p) Monitor ?payload) (po_changed p) (po_value p)"
  proof -
    have "h_command (fr_header (app_frame True (po_order p) Monitor ?payload)) = command_code Monitor"
      by (simp add: app_frame_def header_application_def)
    moreover have "short_set bitset_new" by (simp add: short_set_def bitset_new_def)
    moreover have "fr_payload (app_frame True (po_order p) Monitor ?payload) = ?payload"
      by (simp add: app_frame_def)
    ultimately show ?thesis using assms unfolding update_frame_def post_sendable_def app_frame_order by blast
  qed
  ultimately show ?thesis by (rule that)
qed

definition effect :: "field_desc \<Rightarrow> post list \<Rightarrow> pv_field" where
  "effect d ps = play d (map (\<lambda>p. (po_changed p, po_value p)) ps) (default_value_for d)"

lemma effect_snoc: "effect d (ps @ [p]) = overlay d (po_changed p) 0 (po_value p) (effect d ps)"
  by (simp add: effect_def)

definition caught_up :: "conv_ops \<Rightarrow> field_desc \<Rightarrow> nat \<Rightarrow> backlog \<times> drain_state \<Rightarrow> post list \<Rightarrow> bool" where
  "caught_up cv d limit st ps \<longleftrightarrow>
     bl_intro (fst st) = Some d \<and> \<not> bl_closed (fst st) \<and> bl_limit (fst st) = limit \<and> 0 < limit \<and>
     length (bl_q (fst st)) \<le> length ps \<and>
     (\<not> bl_pipeline (fst st) \<longrightarrow> length (bl_q (fst st)) \<le> limit \<and> bl_max_queue (fst st) \<le> limit) \<and>
     shaped d (held d (dr_prior (snd st))) \<and>
     (ps = [] \<longleftrightarrow> bl_q (fst st) = [] \<and> dr_prior (snd st) = None) \<and>
     (\<exists>posts. holds_updates cv d (bl_q (fst st)) posts \<and> play d posts (held d (dr_prior (snd st))) = effect d ps)"

lemma caught_up_arrive:
  assumes "caught_up cv d limit (b, s) ps" "post_sendable cv hs d p"
  shows "caught_up cv d limit (client_step cv hs hb d flow (b, s) (Arrive p)) (ps @ [p]) \<and>
    bl_pipeline (fst (client_step cv hs hb d flow (b, s) (Arrive p))) = bl_pipeline b"
proof -
  obtain f n where f: "try_parse_frame_role RoleClient (post_bytes cv hs d p) = Inr (Some (f, n))"
    "update_frame cv d f (po_changed p) (po_value p)"
    by (rule post_parsed [OF assms(2)])
  from assms(1) obtain posts where b: "holds_updates cv d (bl_q b) posts"
    "play d posts (held d (dr_prior s)) = effect d ps" "bl_intro b = Some d" "\<not> bl_closed b"
    "shaped d (held d (dr_prior s))"
    by (auto simp: caught_up_def)
  obtain posts' b' where b': "fst (backlog_push cv hb b f (po_ticket p)) = b'" "holds_updates cv d (bl_q b') posts'"
    "\<forall>v. shaped d v \<longrightarrow> play d posts' v = overlay d (po_changed p) 0 (po_value p) (play d posts v)" "posts' \<noteq> []"
    "bl_intro b' = Some d" "\<not> bl_closed b'" "bl_limit b' = bl_limit b" "bl_pipeline b' = bl_pipeline b"
    "bl_max_queue b' = max (bl_max_queue b) (length (bl_q b'))" "length (bl_q b') \<le> Suc (length (bl_q b))"
    "\<not> bl_pipeline b \<and> length (bl_q b) \<le> bl_limit b \<and> 0 < bl_limit b \<longrightarrow> length (bl_q b') \<le> bl_limit b"
    by (rule push_update [OF b(1) f(2) b(3,4), of hb "po_ticket p"])
  have "bl_q b' \<noteq> []" using b'(2,4) by (auto simp: holds_updates_def)
  moreover have "play d posts' (held d (dr_prior s)) = effect d (ps @ [p])"
    using b'(3) b(2,5) by (simp add: effect_snoc)
  moreover have "client_step cv hs hb d flow (b, s) (Arrive p) = (b', s)"
    by (simp add: client_step_def f(1) b'(1))
  ultimately show ?thesis
    using assms(1) b' unfolding caught_up_def by auto
qed

lemma caught_up_drain:
  assumes "caught_up cv d limit (b, s) ps" "distinct_names d"
  shows "caught_up cv d limit (client_step cv hs hb d flow (b, s) Drain) ps \<and>
    bl_pipeline (fst (client_step cv hs hb d flow (b, s) Drain)) = bl_pipeline b \<and>
    length (bl_q (fst (client_step cv hs hb d flow (b, s) Drain))) = length (bl_q b) - 1"
proof (cases "bl_q b")
  case Nil
  then have "client_step cv hs hb d flow (b, s) Drain = (b, s)"
    by (simp add: client_step_def backlog_recv_def)
  with assms(1) Nil show ?thesis by simp
next
  case (Cons x q)
  obtain f t where x: "x = (f, t)" by (cases x)
  from assms(1) obtain c v posts where b: "update_frame cv d f c v" "holds_updates cv d q posts"
    "play d posts (overlay d c 0 v (held d (dr_prior s))) = effect d ps" "shaped d (held d (dr_prior s))"
    by (auto simp: caught_up_def holds_updates_def Cons x list_all2_Cons1)
  let ?b = "b \<lparr> bl_q := q \<rparr>"
  obtain s' evs where s': "drain_step hb d flow True (backlog_counters ?b) s f = (s', evs, None)"
    "dr_prior s' = Some (overlay d c 0 v (held d (dr_prior s)))"
    by (rule drain_update [OF b(1) assms(2) b(4), of hb flow "backlog_counters ?b"])
  have "client_step cv hs hb d flow (b, s) Drain = (?b, s')"
    by (simp add: client_step_def backlog_recv_def Cons x s'(1))
  moreover have "shaped d (held d (dr_prior s'))"
    using overlay_shaped(1) [OF update_shaped [OF b(1)] b(4)] by (simp add: s'(2) held_def)
  moreover have "play d posts (held d (dr_prior s')) = effect d ps"
    using b(3) by (simp add: s'(2) held_def)
  ultimately show ?thesis
    using assms(1) b(2) s'(2) unfolding caught_up_def by (auto simp: Cons)
qed

lemma caught_up_run:
  assumes "caught_up cv d limit st ps" "distinct_names d" "list_all (post_sendable cv hs d) (posts_of ops)"
  shows "caught_up cv d limit (foldl (client_step cv hs hb d flow) st ops) (ps @ posts_of ops) \<and>
    bl_pipeline (fst (foldl (client_step cv hs hb d flow) st ops)) = bl_pipeline (fst st)"
  using assms(1,3)
proof (induction ops arbitrary: st ps)
  case (Cons op ops)
  obtain b s where st: "st = (b, s)" by (cases st)
  show ?case
  proof (cases op)
    case (Arrive p)
    with Cons.prems(2) have "post_sendable cv hs d p" "list_all (post_sendable cv hs d) (posts_of ops)" by auto
    with caught_up_arrive [OF Cons.prems(1) [unfolded st], of hs p hb flow] Cons.IH [of _ "ps @ [p]"]
    show ?thesis by (simp add: Arrive st)
  next
    case Drain
    with caught_up_drain [OF Cons.prems(1) [unfolded st] assms(2), of hs hb flow] Cons.IH [of _ ps] Cons.prems(2)
    show ?thesis by (simp add: st)
  qed
qed simp

lemma caught_up_drains:
  assumes "caught_up cv d limit st ps" "distinct_names d"
  shows "length (bl_q (fst (foldl (client_step cv hs hb d flow) st (replicate n Drain)))) = length (bl_q (fst st)) - n"
  using assms(1)
proof (induction n arbitrary: st)
  case (Suc n)
  obtain b s where st: "st = (b, s)" by (cases st)
  from caught_up_drain [OF Suc.prems [unfolded st] assms(2), of hs hb flow] Suc.IH show ?case
    by (simp add: st)
qed simp

lemma posts_of_drains [simp]: "posts_of (replicate n Drain) = []"
  by (induction n) simp_all

lemma caught_up_start:
  "dr_prior s = None \<Longrightarrow> caught_up cv d (max limit 1) (backlog_arm (backlog_new limit pipeline) d, s) []"
  using default_shaped(1) by (simp add: caught_up_def backlog_arm_def backlog_new_def held_def holds_updates_def effect_def)

lemma subscription_delivers:
  assumes "distinct_names d" "list_all (post_sendable cv hs d) (posts_of ops)" "dr_prior s = None"
    and "length (posts_of ops) \<le> n"
  shows "case foldl (client_step cv hs hb d flow) (backlog_arm (backlog_new limit pipeline) d, s)
      (ops @ replicate n Drain) of (b', s') \<Rightarrow>
    bl_q b' = [] \<and>
    dr_prior s' = (if posts_of ops = [] then None else Some (effect d (posts_of ops))) \<and>
    (pipeline \<or> bl_max_queue b' \<le> max limit 1)"
proof -
  let ?st = "(backlog_arm (backlog_new limit pipeline) d, s)"
  let ?mid = "foldl (client_step cv hs hb d flow) ?st ops"
  let ?final = "foldl (client_step cv hs hb d flow) ?st (ops @ replicate n Drain)"
  have mid: "caught_up cv d (max limit 1) ?mid (posts_of ops)"
    using caught_up_run [where hb = hb and flow = flow, OF caught_up_start [OF assms(3)] assms(1,2)] by simp
  then have "length (bl_q (fst ?mid)) \<le> n" using assms(4) by (simp add: caught_up_def)
  then have q: "bl_q (fst ?final) = []" using caught_up_drains [OF mid assms(1), of hs hb flow n] by simp
  have "caught_up cv d (max limit 1) ?final (posts_of ops)" "bl_pipeline (fst ?final) = pipeline"
    using caught_up_run [where hs = hs and hb = hb and flow = flow and ops = "ops @ replicate n Drain",
        OF caught_up_start [OF assms(3)] assms(1)]
      assms(2) by (simp_all add: backlog_arm_def backlog_new_def)
  with q show ?thesis
    by (auto simp: caught_up_def holds_updates_def held_def split: prod.splits option.splits)
qed

section \<open>The changed set queued with an update\<close>

text \<open>Which bits a descriptor's leaves have, and which of them a marked path selects.\<close>

fun leaf_at :: "field_desc \<Rightarrow> nat \<Rightarrow> nat \<Rightarrow> bool"
and leaf_at_members :: "named_fields \<Rightarrow> nat \<Rightarrow> nat \<Rightarrow> bool" where
  "leaf_at d off i =
     (case d of Structure _ (StructFields fs _) \<Rightarrow> leaf_at_members fs (off + 1) i | _ \<Rightarrow> i = off)"
| "leaf_at_members [] off i = False"
| "leaf_at_members ((_, c) # fs) off i = (leaf_at c off i \<or> leaf_at_members fs (off + total_bits c) i)"

declare leaf_at.simps [simp del]

definition path_selects :: "field_desc \<Rightarrow> byte list list \<Rightarrow> nat \<Rightarrow> bool" where
  "path_selects d paths i \<longleftrightarrow>
     (\<exists>p \<in> set paths. p \<noteq> [] \<and>
        (case bit_span_for_path d p of Some (start, stop) \<Rightarrow> start \<le> i \<and> i < stop | None \<Rightarrow> False))"

lemma canonical_get:
  "bitset_get (canonical_walk d off sel out) i \<longleftrightarrow> bitset_get out i \<or> leaf_at d off i \<and> bitset_get sel i"
  "bitset_get (canonical_walk_members fs off sel out) i \<longleftrightarrow>
     bitset_get out i \<or> leaf_at_members fs off i \<and> bitset_get sel i"
  by (induction d off sel out and fs off sel out rule: canonical_walk_canonical_walk_members.induct)
    (subst canonical_walk.simps, subst leaf_at.simps,
      auto simp: bs.get_set split: field_desc.splits struct_fields.splits)

lemma set_range_get:
  "bitset_get (foldl bitset_set out is) i \<longleftrightarrow> bitset_get out i \<or> i \<in> set is"
  by (induction "is" arbitrary: out) (auto simp: bs.get_set)

lemma marked_changed_get: "bitset_get (marked_changed_bitset d paths) i \<longleftrightarrow> path_selects d paths i"
proof -
  have "bitset_get (foldl (\<lambda>out path. if path = [] then out else case bit_span_for_path d path of
          Some (start, stop) \<Rightarrow> foldl bitset_set out [start..<stop] | None \<Rightarrow> out) out paths) i \<longleftrightarrow>
      bitset_get out i \<or> path_selects d paths i" for out
    by (induction paths arbitrary: out)
      (auto simp: path_selects_def set_range_get split: option.splits)
  then show ?thesis by (simp add: marked_changed_bitset_def bs.get_new)
qed

lemma select_get:
  "bitset_get (foldl (\<lambda>out b. if bitset_get rmask b then bitset_set out b else out) out is) i \<longleftrightarrow>
     bitset_get out i \<or> i \<in> set is \<and> bitset_get rmask i"
  by (induction "is" arbitrary: out) (auto simp: bs.get_set)

lemma read_changed_get:
  "bitset_get (read_changed_bitset d rmask marked) i \<longleftrightarrow>
     leaf_at d 0 i \<and> bitset_get rmask i \<and> (case marked of None \<Rightarrow> True | Some paths \<Rightarrow> path_selects d paths i)"
  by (auto simp: read_changed_bitset_def marked_wire_changed_bitset_def canonical_changed_bitset_def Let_def
      canonical_get select_get marked_changed_get bitset_iter_set bs.get_new split: option.splits)

lemma push_new_set: "set (foldl push_new xs ys) = set xs \<union> set ys"
  by (induction ys arbitrary: xs) (auto simp: push_new_def)

text \<open>
  Two shared sets of one address hold the same paths while both are alive: the
  queue keeps alive those it has cached and those of its pending updates.
\<close>

definition queue_marks :: "monitor_queue \<Rightarrow> marks set" where
  "queue_marks q = fst ` set (mq_shared_changed q) \<union> {m. \<exists>e \<in> set (mq_pending q). mu_marked (qu_update e) = Some m}"

definition arc_ok :: "monitor_queue \<Rightarrow> monitor_update \<Rightarrow> bool" where
  "arc_ok q ev \<longleftrightarrow>
     (\<forall>m. mu_marked ev = Some m \<longrightarrow> (\<forall>m' \<in> queue_marks q. same_set m' m \<longrightarrow> marks_paths m' = marks_paths m))"

text \<open>A pointer comparison tells only equal sets to be one allocation.\<close>

definition same_alloc :: "(queued_update \<Rightarrow> queued_update \<Rightarrow> bool) \<Rightarrow> bool" where
  "same_alloc same \<longleftrightarrow> (\<forall>a b. same a b \<longrightarrow> qu_changed a = qu_changed b)"

inductive queue_run :: "monitor_queue \<Rightarrow> bool" where
  start: "queue_run (monitor_queue_new limit intro rmask st)"
| seed: "queue_run q \<Longrightarrow> arc_ok q ev \<Longrightarrow> queue_run (monitor_queue_seed q ev)"
| push: "queue_run q \<Longrightarrow> arc_ok q ev \<Longrightarrow> same_alloc same \<Longrightarrow>
    monitor_queue_push same q ev = Some (queued, q') \<Longrightarrow> queue_run q'"
| pop: "queue_run q \<Longrightarrow> monitor_queue_pop q = (u, q') \<Longrightarrow> queue_run q'"

definition wire_of :: "monitor_queue \<Rightarrow> monitor_update \<Rightarrow> bit_set" where
  "wire_of q ev = read_changed_bitset (mq_intro q) (mq_mask q) (map_option marks_paths (mu_marked ev))"

definition entry_ok :: "monitor_queue \<Rightarrow> queued_update \<Rightarrow> bool" where
  "entry_ok q e \<longleftrightarrow>
     mu_type_changed (qu_update e) \<or> (\<forall>i. bitset_get (qu_changed e) i \<longleftrightarrow> bitset_get (wire_of q (qu_update e)) i)"

definition queue_ok :: "monitor_queue \<Rightarrow> bool" where
  "queue_ok q \<longleftrightarrow>
     0 < mq_limit q \<and> mq_unmarked_changed q = canonical_changed_bitset (mq_intro q) (mq_mask q) \<and>
     (\<forall>(m, bits) \<in> set (mq_shared_changed q). bits = marked_wire_changed_bitset (mq_intro q) (marks_paths m) (mq_mask q)) \<and>
     (\<forall>e \<in> set (mq_pending q). entry_ok q e)"

lemma wire_changed_ok:
  assumes "queue_ok q" "arc_ok q ev" "wire_changed q ev = (changed, q')"
  shows "mu_type_changed ev \<or> changed = wire_of q ev" "mu_type_changed ev \<Longrightarrow> changed = bitset_new"
    "queue_ok q'" "mq_pending q' = mq_pending q" "mq_limit q' = mq_limit q"
    "mq_intro q' = mq_intro q" "mq_mask q' = mq_mask q" "mq_first q' = mq_first q"
proof -
  have "(mu_type_changed ev \<or> changed = wire_of q ev) \<and> (mu_type_changed ev \<longrightarrow> changed = bitset_new) \<and>
      queue_ok q' \<and> mq_pending q' = mq_pending q \<and> mq_limit q' = mq_limit q \<and>
      mq_intro q' = mq_intro q \<and> mq_mask q' = mq_mask q \<and> mq_first q' = mq_first q"
  proof (cases "mu_type_changed ev \<or> (\<forall>a ps. mu_marked ev \<noteq> Some (MShared a ps))")
    case True
    with assms(1,3) show ?thesis
      by (auto simp: wire_changed_def wire_of_def read_changed_bitset_def queue_ok_def Let_def
          split: option.splits marks.splits if_splits)
  next
    case False
    then obtain a ps where ev: "\<not> mu_type_changed ev" "mu_marked ev = Some (MShared a ps)" by auto
    let ?bits = "marked_wire_changed_bitset (mq_intro q) ps (mq_mask q)"
    have wire: "wire_of q ev = ?bits" by (simp add: wire_of_def read_changed_bitset_def ev(2))
    show ?thesis
    proof (cases "find (\<lambda>(m', _). same_set m' (MShared a ps)) (mq_shared_changed q)")
      case None
      then have q': "changed = ?bits"
        "q' = q \<lparr> mq_shared_changed := (if length (mq_shared_changed q) = SHARED_CHANGED_CAP
            then tl (mq_shared_changed q) else mq_shared_changed q) @ [(MShared a ps, ?bits)] \<rparr>"
        using assms(3) by (auto simp: wire_changed_def ev Let_def)
      have tl: "set (tl xs) \<subseteq> set xs" for xs :: "(marks \<times> bit_set) list" by (cases xs) auto
      have "\<forall>x \<in> set (mq_pending q'). entry_ok q' x"
        using assms(1) by (simp add: q'(2) queue_ok_def entry_ok_def wire_of_def)
      with assms(1) wire ev show ?thesis
        by (auto simp: q' queue_ok_def dest: subsetD [OF tl] split: if_splits)
    next
      case (Some x)
      then obtain m' bits where x: "(m', bits) \<in> set (mq_shared_changed q)" "same_set m' (MShared a ps)" "x = (m', bits)"
        by (cases x) (fastforce simp: find_Some_iff in_set_conv_nth)
      have "m' \<in> queue_marks q" using x(1) unfolding queue_marks_def by force
      then have "marks_paths m' = ps" using assms(2) x(2) by (auto simp: arc_ok_def ev(2))
      then have "bits = ?bits" using assms(1) x(1) by (auto simp: queue_ok_def)
      moreover have "changed = bits" "q' = q"
        using assms(3) Some by (simp_all add: wire_changed_def ev Let_def x(3))
      ultimately show ?thesis using assms(1) wire ev by simp
    qed
  qed
  then show "mu_type_changed ev \<or> changed = wire_of q ev" "mu_type_changed ev \<Longrightarrow> changed = bitset_new"
    "queue_ok q'" "mq_pending q' = mq_pending q" "mq_limit q' = mq_limit q"
    "mq_intro q' = mq_intro q" "mq_mask q' = mq_mask q" "mq_first q' = mq_first q"
    by auto
qed

lemma path_selects_Un:
  "set xs = set ys \<union> set zs \<Longrightarrow> path_selects d xs i \<longleftrightarrow> path_selects d ys i \<or> path_selects d zs i"
  by (auto simp: path_selects_def)

lemma coalesced_wire:
  assumes "\<not> mu_type_changed a" "\<not> mu_type_changed b"
    and "\<And>m m'. mu_marked a = Some m \<Longrightarrow> mu_marked b = Some m' \<Longrightarrow> same_set m m' \<Longrightarrow> marks_paths m = marks_paths m'"
  shows "bitset_get (wire_of q (coalesce_monitor_update a b)) i \<longleftrightarrow>
    bitset_get (wire_of q a) i \<or> bitset_get (wire_of q b) i"
proof (cases "mu_marked a = None \<or> mu_marked b = None")
  case True
  then have "mu_marked (coalesce_monitor_update a b) = None"
    using assms(1,2) by (auto simp: coalesce_monitor_update_def Let_def split: option.splits)
  with True show ?thesis by (auto simp: wire_of_def read_changed_get)
next
  case False
  then obtain m m' where m: "mu_marked a = Some m" "mu_marked b = Some m'" by auto
  then obtain n where n: "mu_marked (coalesce_monitor_update a b) = Some n"
    "set (marks_paths n) = set (marks_paths m) \<union> set (marks_paths m')"
    using assms by (cases "same_set m m'") (auto simp: coalesce_monitor_update_def Let_def push_new_set)
  from path_selects_Un [OF n(2)] show ?thesis
    by (auto simp: wire_of_def read_changed_get m n(1))
qed

lemma coalesce_entry:
  assumes "entry_ok q a" "entry_ok q b" "same \<Longrightarrow> qu_changed a = qu_changed b"
    and "\<And>m m'. mu_marked (qu_update a) = Some m \<Longrightarrow> mu_marked (qu_update b) = Some m' \<Longrightarrow> same_set m m' \<Longrightarrow>
      marks_paths m = marks_paths m'"
  shows "entry_ok q (coalesce_queued_update same a b)"
proof (cases "mu_type_changed (qu_update a) \<or> mu_type_changed (qu_update b)")
  case True
  then show ?thesis
    by (auto simp: entry_ok_def coalesce_queued_update_def coalesce_monitor_update_def type_change_def)
next
  case False
  then have "\<not> mu_type_changed (coalesce_monitor_update (qu_update a) (qu_update b))"
    by (simp add: coalesce_monitor_update_def Let_def)
  moreover note coalesced_wire [of "qu_update a" "qu_update b", OF _ _ assms(4)]
  ultimately show ?thesis
    using False assms(1-3) by (auto simp: entry_ok_def coalesce_queued_update_def Let_def get_union_with)
qed

lemma queue_push:
  assumes "queue_ok q" "arc_ok q ev" "same_alloc same"
  obtains q' where
    "monitor_queue_push same q ev =
       Some (mq_first q \<or> mu_type_changed ev \<or> (\<exists>i. bitset_get (wire_of q ev) i), q')" "queue_ok q'"
proof -
  obtain changed q1 where w: "wire_changed q ev = (changed, q1)" by (cases "wire_changed q ev")
  note ok = wire_changed_ok [OF assms(1,2) w]
  have gate: "mq_first q1 \<or> mu_type_changed ev \<or> \<not> bitset_is_empty changed \<longleftrightarrow>
      mq_first q \<or> mu_type_changed ev \<or> (\<exists>i. bitset_get (wire_of q ev) i)"
    using ok(1,8) by (auto simp: is_empty_iff)
  let ?e = "\<lparr> qu_update = ev, qu_changed = changed \<rparr>"
  have wire: "wire_of q1 = wire_of q" using ok(6,7) by (simp add: wire_of_def fun_eq_iff)
  have e: "entry_ok q1 ?e" using ok(1) by (auto simp: entry_ok_def wire)
  show ?thesis
  proof (cases "mq_first q1 \<or> mu_type_changed ev \<or> \<not> bitset_is_empty changed")
    case False
    then show ?thesis
      using that [of q1] ok(3) gate by (simp add: monitor_queue_push_def w)
  next
    case True
    have step: "\<exists>pending st. push_squash_monitor (\<lambda>e. mu_type_changed (qu_update e))
        (\<lambda>older newer. coalesce_queued_update (same older newer) older newer) (mq_limit q1)
        (mq_pending q1, mq_stat q1) ?e = Some (pending, st) \<and> (\<forall>x \<in> set pending. entry_ok q1 x)"
    proof (cases "mu_type_changed ev \<or> length (mq_pending q1) < mq_limit q1")
      case True
      then show ?thesis using ok(3) e by (auto simp: push_squash_monitor_def queue_ok_def)
    next
      case False
      then obtain es a where q1: "mq_pending q1 = es @ [a]" using ok(3)
        by (cases "mq_pending q1" rule: rev_cases) (auto simp: queue_ok_def)
      have "entry_ok q1 (coalesce_queued_update (same a ?e) a ?e)"
      proof (rule coalesce_entry)
        show "entry_ok q1 a" using ok(3) by (simp add: queue_ok_def q1)
        show "qu_changed a = qu_changed ?e" if "same a ?e" using that assms(3) unfolding same_alloc_def by blast
        show "marks_paths m = marks_paths m'"
          if "mu_marked (qu_update a) = Some m" "mu_marked (qu_update ?e) = Some m'" "same_set m m'" for m m'
        proof -
          have "m \<in> queue_marks q" using that(1) ok(4) [symmetric] by (auto simp: queue_marks_def q1)
          then show ?thesis using that(2,3) assms(2) by (auto simp: arc_ok_def)
        qed
      qed (rule e)
      with False ok(3) show ?thesis by (auto simp: push_squash_monitor_def q1 queue_ok_def)
    qed
    then obtain pending st where p: "push_squash_monitor (\<lambda>e. mu_type_changed (qu_update e))
        (\<lambda>older newer. coalesce_queued_update (same older newer) older newer) (mq_limit q1)
        (mq_pending q1, mq_stat q1) ?e = Some (pending, st)" "\<forall>x \<in> set pending. entry_ok q1 x"
      by blast
    let ?q = "q1 \<lparr> mq_first := False, mq_pending := pending, mq_stat := st \<rparr>"
    have "queue_ok ?q" using ok(3) p(2) by (simp add: queue_ok_def entry_ok_def wire_of_def)
    with True gate p(1) show ?thesis
      using that [of ?q] by (simp add: monitor_queue_push_def w)
  qed
qed

lemma queue_run_ok: "queue_run q \<Longrightarrow> queue_ok q"
proof (induction rule: queue_run.induct)
  case (seed q ev)
  let ?q = "q \<lparr> mq_first := False \<rparr>"
  have "queue_ok ?q" "arc_ok ?q ev"
    using seed by (simp_all add: queue_ok_def entry_ok_def wire_of_def arc_ok_def queue_marks_def)
  note ok = wire_changed_ok [OF this]
  obtain changed q1 where w: "wire_changed ?q ev = (changed, q1)" by (cases "wire_changed ?q ev")
  show ?case
    using ok(1,3,6,7) [OF w] by (auto simp: monitor_queue_seed_def w queue_ok_def entry_ok_def wire_of_def Let_def)
next
  case (push q ev same queued q')
  from queue_push [OF push.IH push.hyps(2,3)] push.hyps(4) show ?case by auto
next
  case (pop q u q')
  then show ?case
    by (auto simp: monitor_queue_pop_def queue_ok_def entry_ok_def wire_of_def split: list.splits)
qed (simp add: monitor_queue_new_def queue_ok_def)

end
