(* ===== verification/Ca_Protocol.thy ===== *)
theory Ca_Protocol
  imports Epics_Prelude
begin

text \<open>
  Channel Access framing (\<^verbatim>\<open>epics-ca-rs/src/protocol.rs\<close>): the 16/24-byte
  message header, payload alignment, the element counts a client may put on
  the wire for a peer of a given minor version, and the frame of a put.  The
  DBR sizes come from \<^verbatim>\<open>epics-base-rs/src/types/{dbr,codec}.rs\<close>.  Values
  read from the environment are arguments of the definitions that read them.
\<close>

section \<open>Commands and versions\<close>

definition CA_PROTO_VERSION :: u16 where "CA_PROTO_VERSION = 0"
definition CA_PROTO_EVENT_ADD :: u16 where "CA_PROTO_EVENT_ADD = 1"
definition CA_PROTO_EVENT_CANCEL :: u16 where "CA_PROTO_EVENT_CANCEL = 2"
definition CA_PROTO_READ :: u16 where "CA_PROTO_READ = 3"
definition CA_PROTO_WRITE :: u16 where "CA_PROTO_WRITE = 4"
definition CA_PROTO_SEARCH :: u16 where "CA_PROTO_SEARCH = 6"
definition CA_PROTO_EVENTS_OFF :: u16 where "CA_PROTO_EVENTS_OFF = 8"
definition CA_PROTO_EVENTS_ON :: u16 where "CA_PROTO_EVENTS_ON = 9"
definition CA_PROTO_READ_SYNC :: u16 where "CA_PROTO_READ_SYNC = 10"
definition CA_PROTO_CLEAR_CHANNEL :: u16 where "CA_PROTO_CLEAR_CHANNEL = 12"
definition CA_PROTO_READ_NOTIFY :: u16 where "CA_PROTO_READ_NOTIFY = 15"
definition CA_PROTO_CREATE_CHAN :: u16 where "CA_PROTO_CREATE_CHAN = 18"
definition CA_PROTO_WRITE_NOTIFY :: u16 where "CA_PROTO_WRITE_NOTIFY = 19"
definition CA_PROTO_CLIENT_NAME :: u16 where "CA_PROTO_CLIENT_NAME = 20"
definition CA_PROTO_HOST_NAME :: u16 where "CA_PROTO_HOST_NAME = 21"
definition CA_PROTO_ECHO :: u16 where "CA_PROTO_ECHO = 23"

lemmas ca_command_defs =
  CA_PROTO_VERSION_def CA_PROTO_EVENT_ADD_def CA_PROTO_EVENT_CANCEL_def CA_PROTO_READ_def
  CA_PROTO_WRITE_def CA_PROTO_SEARCH_def CA_PROTO_EVENTS_OFF_def CA_PROTO_EVENTS_ON_def
  CA_PROTO_READ_SYNC_def CA_PROTO_CLEAR_CHANNEL_def CA_PROTO_READ_NOTIFY_def
  CA_PROTO_CREATE_CHAN_def CA_PROTO_WRITE_NOTIFY_def CA_PROTO_CLIENT_NAME_def
  CA_PROTO_HOST_NAME_def CA_PROTO_ECHO_def

definition CA_MINIMUM_SUPPORTED_VERSION :: u16 where "CA_MINIMUM_SUPPORTED_VERSION = 4"

definition is_legal_tcp_command :: "u16 \<Rightarrow> bool" where
  "is_legal_tcp_command cmmd \<longleftrightarrow>
     cmmd \<in> {CA_PROTO_VERSION, CA_PROTO_EVENT_ADD, CA_PROTO_EVENT_CANCEL, CA_PROTO_READ,
       CA_PROTO_WRITE, CA_PROTO_SEARCH, CA_PROTO_EVENTS_OFF, CA_PROTO_EVENTS_ON,
       CA_PROTO_READ_SYNC, CA_PROTO_CLEAR_CHANNEL, CA_PROTO_READ_NOTIFY, CA_PROTO_CREATE_CHAN,
       CA_PROTO_WRITE_NOTIFY, CA_PROTO_CLIENT_NAME, CA_PROTO_HOST_NAME, CA_PROTO_ECHO}"

definition minor_from :: "u32 \<Rightarrow> u16" where
  "minor_from version = (if unat version < 2 ^ 16 then ucast version else 0xFFFF)"

definition ca_v49 :: "u16 \<Rightarrow> bool" where "ca_v49 minor \<longleftrightarrow> minor \<ge> 9"
definition ca_v413 :: "u16 \<Rightarrow> bool" where "ca_v413 minor \<longleftrightarrow> minor \<ge> 13"

section \<open>Buffer limits\<close>

definition MAX_FRAME_BODY_BYTES :: nat where "MAX_FRAME_BODY_BYTES = 16 * 1024 * 1024"
definition MAX_TCP :: nat where "MAX_TCP = 1024 * 16"
definition COM_BUF_SIZE :: nat where "COM_BUF_SIZE = 0x4000"
definition CONTIGUOUS_FRAMES_TRIGGERING_FLOW_CONTROL :: nat where
  "CONTIGUOUS_FRAMES_TRIGGERING_FLOW_CONTROL = 10"
definition EXTENDED_EXTRA :: nat where "EXTENDED_EXTRA = 8"

text \<open>\<open>max_bytes\<close> is the value of \<^verbatim>\<open>EPICS_CA_MAX_ARRAY_BYTES\<close>.\<close>

definition max_array_bytes_buffer :: "int \<Rightarrow> nat" where
  "max_array_bytes_buffer max_bytes =
     (if max_bytes < 0 then MAX_TCP
      else max (sat_add (nat max_bytes) (16 + EXTENDED_EXTRA)) MAX_TCP)"

text \<open>\<open>env\<close> is \<^verbatim>\<open>EPICS_CA_AUTO_ARRAY_BYTES\<close>, when set.\<close>

definition auto_array_bytes :: "bool option \<Rightarrow> bool" where
  "auto_array_bytes env = (case env of None \<Rightarrow> True | Some b \<Rightarrow> b)"

definition max_recv_body_bytes :: "bool option \<Rightarrow> int \<Rightarrow> nat option" where
  "max_recv_body_bytes env max_bytes =
     (if auto_array_bytes env then None else Some (max_array_bytes_buffer max_bytes))"

definition max_frame_body_bytes :: "bool option \<Rightarrow> int \<Rightarrow> nat" where
  "max_frame_body_bytes env max_bytes =
     (case max_recv_body_bytes env max_bytes of None \<Rightarrow> MAX_FRAME_BODY_BYTES | Some n \<Rightarrow> n)"

definition max_contiguous_frames :: "int \<Rightarrow> nat" where
  "max_contiguous_frames max_bytes =
     (let bufs_per_array = max_array_bytes_buffer max_bytes div COM_BUF_SIZE
      in if bufs_per_array > 1
         then bufs_per_array * CONTIGUOUS_FRAMES_TRIGGERING_FLOW_CONTROL
         else CONTIGUOUS_FRAMES_TRIGGERING_FLOW_CONTROL)"

section \<open>Errors\<close>

datatype ca_error =
    HeaderTooShort nat
  | ExtendedHeaderIncomplete
  | UnsupportedType u16
  | TooLarge
  | BadCount

section \<open>DBR sizes (types/dbr.rs, types/codec.rs)\<close>

datatype db_field_type =
    FString | FShort | FFloat | FEnum | FChar | FLong | FDouble
  | FInt64 | FUInt64 | FUShort | FULong | FUChar

definition db_field_type_from_u16 :: "u16 \<Rightarrow> ca_error + db_field_type" where
  "db_field_type_from_u16 v =
     (case map_of [(0, FString), (1, FShort), (2, FFloat), (3, FEnum), (4, FChar), (5, FLong),
        (6, FDouble)] v of
        None \<Rightarrow> Inl (UnsupportedType v) | Some t \<Rightarrow> Inr t)"

fun db_element_size :: "db_field_type \<Rightarrow> nat" where
  "db_element_size FString = 40"
| "db_element_size FShort = 2"
| "db_element_size FEnum = 2"
| "db_element_size FUShort = 2"
| "db_element_size FFloat = 4"
| "db_element_size FLong = 4"
| "db_element_size FULong = 4"
| "db_element_size FChar = 1"
| "db_element_size FUChar = 1"
| "db_element_size FDouble = 8"
| "db_element_size FInt64 = 8"
| "db_element_size FUInt64 = 8"

fun sts_pad :: "db_field_type \<Rightarrow> byte list" where
  "sts_pad FChar = [0]"
| "sts_pad FUChar = [0]"
| "sts_pad FDouble = [0, 0, 0, 0]"
| "sts_pad FInt64 = [0, 0, 0, 0]"
| "sts_pad FUInt64 = [0, 0, 0, 0]"
| "sts_pad FULong = [0, 0, 0, 0]"
| "sts_pad _ = []"

fun time_pad :: "db_field_type \<Rightarrow> byte list" where
  "time_pad FShort = [0, 0]"
| "time_pad FEnum = [0, 0]"
| "time_pad FChar = [0, 0, 0]"
| "time_pad FUChar = [0, 0, 0]"
| "time_pad FDouble = [0, 0, 0, 0]"
| "time_pad FULong = [0, 0, 0, 0]"
| "time_pad _ = []"

definition MAX_UNITS_SIZE :: nat where "MAX_UNITS_SIZE = 8"
definition MAX_ENUM_STATES :: nat where "MAX_ENUM_STATES = 16"
definition MAX_ENUM_STRING_SIZE :: nat where "MAX_ENUM_STRING_SIZE = 26"

definition gr_ctrl_meta_size :: "db_field_type \<Rightarrow> bool \<Rightarrow> nat" where
  "gr_ctrl_meta_size native ctrl =
     (let n_limits = (if ctrl then 8 else 6);
          head = 4
      in case native of
           FString \<Rightarrow> head + length (sts_pad native)
         | FEnum \<Rightarrow> head + 2 + MAX_ENUM_STATES * MAX_ENUM_STRING_SIZE
         | FFloat \<Rightarrow> head + 4 + MAX_UNITS_SIZE + n_limits * 4
         | FDouble \<Rightarrow> head + 4 + MAX_UNITS_SIZE + n_limits * 8
         | FInt64 \<Rightarrow> head + 4 + MAX_UNITS_SIZE + n_limits * 8
         | FUInt64 \<Rightarrow> head + 4 + MAX_UNITS_SIZE + n_limits * 8
         | FULong \<Rightarrow> head + 4 + MAX_UNITS_SIZE + n_limits * 8
         | FShort \<Rightarrow> head + MAX_UNITS_SIZE + n_limits * 2
         | FLong \<Rightarrow> head + MAX_UNITS_SIZE + n_limits * 4
         | FUShort \<Rightarrow> head + MAX_UNITS_SIZE + n_limits * 4
         | FChar \<Rightarrow> head + MAX_UNITS_SIZE + n_limits + 1
         | FUChar \<Rightarrow> head + MAX_UNITS_SIZE + n_limits + 1)"

definition dbr_meta_size :: "nat \<Rightarrow> db_field_type \<Rightarrow> nat" where
  "dbr_meta_size dbr_type native =
     (if dbr_type \<le> 6 then 0
      else if dbr_type \<le> 13 then 4 + length (sts_pad native)
      else if dbr_type \<le> 20 then 12 + length (time_pad native)
      else if dbr_type \<le> 27 then gr_ctrl_meta_size native False
      else if dbr_type \<le> 34 then gr_ctrl_meta_size native True
      else if dbr_type = 35 \<or> dbr_type = 36 then 0
      else if dbr_type = 37 then 8
      else 0)"

definition dbr_buffer_size :: "nat \<Rightarrow> db_field_type \<Rightarrow> nat \<Rightarrow> nat" where
  "dbr_buffer_size dbr_type native cnt =
     (if dbr_type = 38 then 40
      else dbr_meta_size dbr_type native + db_element_size native * cnt)"

section \<open>Request counts\<close>

definition dbr_request_sizes :: "u16 \<Rightarrow> ca_error + nat \<times> nat" where
  "dbr_request_sizes dbr_type =
     and_then
       (if unat dbr_type \<le> 34 then
          (case db_field_type_from_u16 (dbr_type mod 7) of
             Inl _ \<Rightarrow> Inl (UnsupportedType dbr_type)
           | Inr native \<Rightarrow> Inr (dbr_buffer_size (unat dbr_type) native 1, db_element_size native))
        else if dbr_type = 35 \<or> dbr_type = 36 then Inr (2, 2)
        else if dbr_type = 37 then Inr (48, 40)
        else if dbr_type = 38 then Inr (40, 40)
        else Inl (UnsupportedType dbr_type))
       (\<lambda>(dbr_size, value_size). Inr (dbr_size, max value_size 1))"

definition read_max_bytes :: "u16 \<Rightarrow> nat" where
  "read_max_bytes peer_minor = (if ca_v49 peer_minor then 0xFFFFFFF0 else MAX_TCP)"

definition max_read_elements :: "nat \<Rightarrow> nat \<Rightarrow> u16 \<Rightarrow> nat" where
  "max_read_elements dbr_size value_size peer_minor =
     (read_max_bytes peer_minor - dbr_size) div value_size"

definition read_notify_wire_count :: "u32 \<Rightarrow> u32 \<Rightarrow> u16 \<Rightarrow> u16 \<Rightarrow> ca_error + u32" where
  "read_notify_wire_count requested native dbr_type peer_minor =
     and_then (dbr_request_sizes dbr_type) (\<lambda>(dbr_size, value_size).
     if unat requested > max_read_elements dbr_size value_size peer_minor then Inl TooLarge
     else Inr (if requested = 0 \<and> \<not> ca_v413 peer_minor then native else requested))"

definition subscription_cancel_wire_count :: "u32 \<Rightarrow> u32 \<Rightarrow> u16 \<Rightarrow> u32" where
  "subscription_cancel_wire_count requested native peer_minor =
     (if requested = 0 \<and> \<not> ca_v413 peer_minor \<or> requested > native then native else requested)"

definition subscription_wire_count :: "u32 \<Rightarrow> u32 \<Rightarrow> u16 \<Rightarrow> u16 \<Rightarrow> ca_error + u32" where
  "subscription_wire_count requested native dbr_type peer_minor =
     and_then (dbr_request_sizes dbr_type) (\<lambda>(dbr_size, value_size).
     let cnt = subscription_cancel_wire_count requested native peer_minor in
     if unat cnt > max_read_elements dbr_size value_size peer_minor then Inl TooLarge
     else Inr cnt)"

definition write_max_bytes :: "u16 \<Rightarrow> nat" where
  "write_max_bytes peer_minor = (if ca_v49 peer_minor then 0xFFFFFFFF else MAX_TCP - 16)"

definition check_write_request :: "u32 \<Rightarrow> u16 \<Rightarrow> u16 \<Rightarrow> ca_error + unit" where
  "check_write_request cnt dbr_type peer_minor =
     and_then (dbr_request_sizes dbr_type) (\<lambda>(dbr_size, value_size).
     if cnt = 1 then Inr ()
     else if unat cnt \<ge> (write_max_bytes peer_minor - 8 - dbr_size) div value_size then Inl BadCount
     else Inr ())"

section \<open>Header\<close>

record ca_header =
  cmmd :: u16
  postsize :: u16
  data_type :: u16
  count :: u16
  cid :: u32
  available :: u32
  extended_postsize :: "u32 option"
  extended_count :: "u32 option"

definition ca_header_new :: "u16 \<Rightarrow> ca_header" where
  "ca_header_new cmd =
     \<lparr> cmmd = cmd, postsize = 0, data_type = 0, count = 0, cid = 0, available = 0,
       extended_postsize = None, extended_count = None \<rparr>"

definition is_extended :: "ca_header \<Rightarrow> bool" where
  "is_extended h \<longleftrightarrow> postsize h = 0xFFFF \<and> extended_postsize h \<noteq> None"

definition actual_postsize :: "ca_header \<Rightarrow> nat" where
  "actual_postsize h =
     (if postsize h = 0xFFFF
      then (case extended_postsize h of Some ext \<Rightarrow> unat ext | None \<Rightarrow> unat (postsize h))
      else unat (postsize h))"

definition actual_count :: "ca_header \<Rightarrow> u32" where
  "actual_count h =
     (if postsize h = 0xFFFF
      then (case extended_count h of Some ext \<Rightarrow> ext | None \<Rightarrow> ucast (count h))
      else ucast (count h))"

definition declared_minor :: "ca_header \<Rightarrow> u16" where
  "declared_minor h = minor_from (actual_count h)"

definition declares_supported_version :: "ca_header \<Rightarrow> bool" where
  "declares_supported_version h \<longleftrightarrow> declared_minor h \<ge> CA_MINIMUM_SUPPORTED_VERSION"

text \<open>\<open>None\<close> is \<^verbatim>\<open>Err(ExtendedHeaderUnsupported)\<close>.\<close>

definition set_payload_size :: "ca_header \<Rightarrow> nat \<Rightarrow> u32 \<Rightarrow> u16 \<Rightarrow> ca_header option" where
  "set_payload_size h sz cnt peer_minor =
     (if sz \<ge> 0xFFFF \<or> cnt \<ge> 0xFFFF then
        (if \<not> ca_v49 peer_minor then None
         else Some (h \<lparr> postsize := 0xFFFF, count := 0,
                extended_postsize := Some (of_nat sz), extended_count := Some cnt \<rparr>))
      else Some (h \<lparr> postsize := of_nat sz, count := ucast cnt,
             extended_postsize := None, extended_count := None \<rparr>))"

definition ca_to_bytes :: "ca_header \<Rightarrow> byte list" where
  "ca_to_bytes h =
     be_bytes 2 (cmmd h) @ be_bytes 2 (postsize h) @ be_bytes 2 (data_type h) @
     be_bytes 2 (count h) @ be_bytes 4 (cid h) @ be_bytes 4 (available h)"

definition ca_to_bytes_extended :: "ca_header \<Rightarrow> byte list" where
  "ca_to_bytes_extended h =
     ca_to_bytes h @
     (if is_extended h
      then be_bytes 4 (the (extended_postsize h)) @
        be_bytes 4 (case extended_count h of None \<Rightarrow> 0 | Some c \<Rightarrow> c)
      else [])"

definition ca_from_bytes :: "byte list \<Rightarrow> ca_error + ca_header" where
  "ca_from_bytes buf =
     (if length buf < 16 then Inl (HeaderTooShort (length buf))
      else Inr \<lparr> cmmd = of_be_bytes (take 2 buf),
             postsize = of_be_bytes (take 2 (drop 2 buf)),
             data_type = of_be_bytes (take 2 (drop 4 buf)),
             count = of_be_bytes (take 2 (drop 6 buf)),
             cid = of_be_bytes (take 4 (drop 8 buf)),
             available = of_be_bytes (take 4 (drop 12 buf)),
             extended_postsize = None, extended_count = None \<rparr>)"

definition ca_from_bytes_extended :: "byte list \<Rightarrow> ca_error + ca_header \<times> nat" where
  "ca_from_bytes_extended buf =
     (if length buf < 16 then Inl (HeaderTooShort (length buf))
      else and_then (ca_from_bytes buf) (\<lambda>hdr.
        if postsize hdr = 0xFFFF then
          (if length buf < 24 then Inl ExtendedHeaderIncomplete
           else Inr (hdr \<lparr> extended_postsize := Some (of_be_bytes (take 4 (drop 16 buf))),
                       extended_count := Some (of_be_bytes (take 4 (drop 20 buf))) \<rparr>, 24))
        else Inr (hdr, 16)))"

definition ca_from_bytes_for_peer :: "byte list \<Rightarrow> u16 \<Rightarrow> ca_error + ca_header \<times> nat" where
  "ca_from_bytes_for_peer buf peer_minor =
     (if ca_v49 peer_minor then ca_from_bytes_extended buf
      else and_then (ca_from_bytes buf) (\<lambda>hdr. Inr (hdr, 16)))"

section \<open>Payloads\<close>

text \<open>\<^verbatim>\<open>size.saturating_add(7) & !7\<close>: clearing the low three bits rounds down to a multiple of 8.\<close>

definition align8 :: "nat \<Rightarrow> nat" where
  "align8 sz = sat_add sz 7 div 8 * 8"

definition pad_bytes :: "byte list \<Rightarrow> byte list" where
  "pad_bytes s =
     (let bs = s @ [0];
          padded_len = align8 (length bs)
      in take padded_len bs @ replicate (padded_len - length bs) 0)"

definition MAX_STRING_SIZE :: nat where "MAX_STRING_SIZE = 40"

text \<open>\<^verbatim>\<open>position\<close> of the first zero byte.\<close>

fun find_nul :: "byte list \<Rightarrow> nat option" where
  "find_nul [] = None"
| "find_nul (b # bs) = (if b = 0 then Some 0 else map_option Suc (find_nul bs))"

definition scalar_string_put_len :: "byte list \<Rightarrow> ca_error + nat" where
  "scalar_string_put_len payload =
     (case find_nul (take MAX_STRING_SIZE payload) of
        Some nul \<Rightarrow> Inr (nul + 1)
      | None \<Rightarrow> if length payload < MAX_STRING_SIZE then Inr (length payload + 1) else Inl BadCount)"

text \<open>\<^verbatim>\<open>Vec::truncate\<close> shortens only; \<^verbatim>\<open>Vec::resize\<close> shortens or pads with zeros.\<close>

definition resize0 :: "nat \<Rightarrow> byte list \<Rightarrow> byte list" where
  "resize0 n bs = take n bs @ replicate (n - length bs) 0"

definition build_put_frame ::
  "u16 \<Rightarrow> u32 \<Rightarrow> u16 \<Rightarrow> u32 \<Rightarrow> u32 option \<Rightarrow> byte list \<Rightarrow> u16 \<Rightarrow> ca_error + byte list" where
  "build_put_frame cmd sid dtype cnt ioid payload peer_minor =
     and_then
       (if cnt = 1 \<and> dtype = 0
        then and_then (scalar_string_put_len payload) (\<lambda>n. Inr (take n payload))
        else Inr payload)
       (\<lambda>body.
        let body = resize0 (align8 (length body)) body;
            hdr = (ca_header_new cmd) \<lparr> data_type := dtype, cid := sid \<rparr>;
            hdr = (case ioid of None \<Rightarrow> hdr | Some i \<Rightarrow> hdr \<lparr> available := i \<rparr>)
        in and_then (ok_or BadCount (set_payload_size hdr (length body) cnt peer_minor)) (\<lambda>hdr.
           Inr (ca_to_bytes_extended hdr @ body)))"

section \<open>Lemmas: header\<close>

definition wf_ca_header :: "ca_header \<Rightarrow> bool" where
  "wf_ca_header h \<longleftrightarrow>
     (if postsize h = 0xFFFF
      then extended_postsize h \<noteq> None \<and> extended_count h \<noteq> None
      else extended_postsize h = None \<and> extended_count h = None)"

lemma length_ca_to_bytes [simp]: "length (ca_to_bytes h) = 16"
  by (simp add: ca_to_bytes_def)

lemma length_ca_to_bytes_extended:
  "length (ca_to_bytes_extended h) = (if is_extended h then 24 else 16)"
  by (simp add: ca_to_bytes_extended_def)

lemma ca_from_bytes_to_bytes:
  "ca_from_bytes (ca_to_bytes h @ rest) =
     Inr (h \<lparr> extended_postsize := None, extended_count := None \<rparr>)"
  by (simp add: ca_from_bytes_def ca_to_bytes_def of_bytes_roundtrip)

lemma ca_from_bytes_extended_roundtrip:
  assumes "wf_ca_header h"
  shows "ca_from_bytes_extended (ca_to_bytes_extended h @ rest) =
    Inr (h, length (ca_to_bytes_extended h))"
proof (cases "postsize h = 0xFFFF")
  case True
  then obtain p c where ext: "extended_postsize h = Some p" "extended_count h = Some c"
    using assms by (auto simp: wf_ca_header_def)
  have eq: "ca_to_bytes_extended h @ rest = ca_to_bytes h @ (be_bytes 4 p @ be_bytes 4 c @ rest)"
    using True ext by (simp add: ca_to_bytes_extended_def is_extended_def)
  have "h \<lparr> extended_postsize := Some p, extended_count := Some c \<rparr> = h"
    using ext by simp
  then show ?thesis
    using True ext unfolding ca_from_bytes_extended_def eq ca_from_bytes_to_bytes
    by (simp add: of_bytes_roundtrip length_ca_to_bytes_extended is_extended_def)
next
  case False
  then have "extended_postsize h = None" "extended_count h = None"
    using assms by (auto simp: wf_ca_header_def)
  then have "h \<lparr> extended_postsize := None, extended_count := None \<rparr> = h" by simp
  with False show ?thesis
    by (simp add: ca_from_bytes_extended_def ca_to_bytes_extended_def is_extended_def
        ca_from_bytes_to_bytes)
qed

lemma take_drop_within:
  "n + k \<le> length buf \<Longrightarrow> take n (drop k (buf @ suf)) = take n (drop k buf)"
  by simp

lemma take_within: "n \<le> length buf \<Longrightarrow> take n (buf @ suf) = take n buf"
  by simp

lemma ca_from_bytes_append:
  assumes "16 \<le> length buf"
  shows "ca_from_bytes (buf @ suf) = ca_from_bytes buf"
proof -
  have long: "\<not> length (buf @ suf) < 16" "\<not> length buf < 16" using assms by simp_all
  have parts: "take 2 (buf @ suf) = take 2 buf"
    "take 2 (drop 2 (buf @ suf)) = take 2 (drop 2 buf)"
    "take 2 (drop 4 (buf @ suf)) = take 2 (drop 4 buf)"
    "take 2 (drop 6 (buf @ suf)) = take 2 (drop 6 buf)"
    "take 4 (drop 8 (buf @ suf)) = take 4 (drop 8 buf)"
    "take 4 (drop 12 (buf @ suf)) = take 4 (drop 12 buf)"
    using assms by (intro take_drop_within take_within; linarith)+
  show ?thesis
    unfolding ca_from_bytes_def parts by (simp only: long if_False)
qed

lemma ca_from_bytes_plain:
  "ca_from_bytes buf = Inr h \<Longrightarrow>
    16 \<le> length buf \<and> extended_postsize h = None \<and> extended_count h = None"
  by (cases "length buf < 16") (simp_all add: ca_from_bytes_def, auto)

lemma ca_from_bytes_total: "16 \<le> length buf \<Longrightarrow> \<exists>h. ca_from_bytes buf = Inr h"
  by (simp add: ca_from_bytes_def)

text \<open>What a successful read of the extended form looks like.\<close>

lemma ca_from_bytes_extended_cases:
  assumes "ca_from_bytes_extended buf = Inr (h, n)"
  obtains (plain) "ca_from_bytes buf = Inr h" "postsize h \<noteq> 0xFFFF" "n = 16" "16 \<le> length buf"
  | (extended) h0 where "ca_from_bytes buf = Inr h0" "postsize h0 = 0xFFFF" "n = 24"
      "24 \<le> length buf"
      "h = h0 \<lparr> extended_postsize := Some (of_be_bytes (take 4 (drop 16 buf))),
                extended_count := Some (of_be_bytes (take 4 (drop 20 buf))) \<rparr>"
proof -
  from assms have len: "16 \<le> length buf"
    by (simp add: ca_from_bytes_extended_def split: if_splits)
  from assms obtain h0 where h0: "ca_from_bytes buf = Inr h0"
    and rest: "(if postsize h0 = 0xFFFF then
          (if length buf < 24 then Inl ExtendedHeaderIncomplete
           else Inr (h0 \<lparr> extended_postsize := Some (of_be_bytes (take 4 (drop 16 buf))),
                       extended_count := Some (of_be_bytes (take 4 (drop 20 buf))) \<rparr>, 24))
        else Inr (h0, 16)) = Inr (h, n)"
    unfolding ca_from_bytes_extended_def and_then_eq_Inr using len
    by (simp add: and_then_eq_Inr) blast
  show thesis
  proof (cases "postsize h0 = 0xFFFF")
    case True
    with rest have "24 \<le> length buf" by (simp split: if_splits)
    with True rest h0 show thesis by (intro extended [of h0]) simp_all
  next
    case False
    with rest h0 len show thesis by (intro plain) simp_all
  qed
qed

lemma ca_from_bytes_extended_append:
  assumes "ca_from_bytes_extended buf = Inr (h, n)"
  shows "ca_from_bytes_extended (buf @ suf) = Inr (h, n)"
  using assms
proof (cases rule: ca_from_bytes_extended_cases)
  case plain
  then show ?thesis
    by (simp add: ca_from_bytes_extended_def ca_from_bytes_append)
next
  case (extended h0)
  have parts: "take 4 (drop 16 (buf @ suf)) = take 4 (drop 16 buf)"
    "take 4 (drop 20 (buf @ suf)) = take 4 (drop 20 buf)"
    using extended by (intro take_drop_within; linarith)+
  have "ca_from_bytes (buf @ suf) = Inr h0" using extended by (simp add: ca_from_bytes_append)
  then show ?thesis
    unfolding ca_from_bytes_extended_def parts using extended by simp
qed

lemma ca_from_bytes_extended_consumed:
  assumes "ca_from_bytes_extended buf = Inr (h, n)"
  shows "n = (if is_extended h then 24 else 16)" "n \<le> length buf" "wf_ca_header h"
  using assms
  by (cases rule: ca_from_bytes_extended_cases;
      auto dest: ca_from_bytes_plain simp: wf_ca_header_def is_extended_def)+

definition ca_header_dec :: "(ca_error, ca_header) decoder" where
  "ca_header_dec bs = and_then (ca_from_bytes_extended bs) (\<lambda>(h, n). Inr (h, drop n bs))"

interpretation ca_header_wire: wire_format ca_to_bytes_extended ca_header_dec wf_ca_header
proof
  show "ca_header_dec (ca_to_bytes_extended h @ rest) = Inr (h, rest)" if "wf_ca_header h" for h rest
    using that by (simp add: ca_header_dec_def ca_from_bytes_extended_roundtrip)
  show "ca_header_dec (bs @ suf) = Inr (h, r @ suf)" if "ca_header_dec bs = Inr (h, r)" for bs h r suf
  proof -
    from that obtain n where n: "ca_from_bytes_extended bs = Inr (h, n)" "r = drop n bs"
      by (auto simp: ca_header_dec_def and_then_eq_Inr)
    then show ?thesis
      using ca_from_bytes_extended_consumed(2) [OF n(1)]
      by (simp add: ca_header_dec_def ca_from_bytes_extended_append [OF n(1)])
  qed
  show "suffix r bs" if "ca_header_dec bs = Inr (h, r)" for bs h r
    using that by (auto simp: ca_header_dec_def and_then_eq_Inr suffix_drop)
qed

lemma ucast_u16_u32: "(c :: u32) < 0xFFFF \<Longrightarrow> ucast (ucast c :: u16) = c"
  by (rule word_unat_eq_iff [THEN iffD2])
    (simp add: unsigned_ucast_eq unsigned_take_bit_eq take_bit_nat_eq_self word_less_nat_alt)

lemma set_payload_size_cases:
  assumes "set_payload_size h sz cnt minor = Some h'"
  obtains (extended) "sz \<ge> 0xFFFF \<or> cnt \<ge> 0xFFFF" "ca_v49 minor"
      "h' = h \<lparr> postsize := 0xFFFF, count := 0,
                extended_postsize := Some (of_nat sz), extended_count := Some cnt \<rparr>"
  | (standard) "sz < 0xFFFF" "cnt < 0xFFFF"
      "h' = h \<lparr> postsize := of_nat sz, count := ucast cnt,
             extended_postsize := None, extended_count := None \<rparr>"
proof (cases "sz \<ge> 0xFFFF \<or> cnt \<ge> 0xFFFF")
  case True
  with assms have "ca_v49 minor" by (simp add: set_payload_size_def split: if_splits)
  with True assms show thesis by (intro extended) (simp_all add: set_payload_size_def)
next
  case False
  then have "sz < 0xFFFF" "cnt < 0xFFFF" by (simp_all add: not_le)
  moreover have "h' = h \<lparr> postsize := of_nat sz, count := ucast cnt,
             extended_postsize := None, extended_count := None \<rparr>"
    using assms unfolding set_payload_size_def if_not_P [OF False] by simp
  ultimately show thesis by (rule standard)
qed

lemma of_nat_u16_unmarked:
  assumes "sz < 0xFFFF"
  shows "unat (of_nat sz :: u16) = sz" "(of_nat sz :: u16) \<noteq> 0xFFFF"
proof -
  show eq: "unat (of_nat sz :: u16) = sz" using assms by (intro unat_of_nat_less) simp
  have "unat (0xFFFF :: u16) = 0xFFFF" by simp
  with eq assms show "(of_nat sz :: u16) \<noteq> 0xFFFF" by (metis less_irrefl)
qed

lemma set_payload_size_spec:
  assumes "set_payload_size h sz cnt minor = Some h'" "sz < 2 ^ 32"
  shows "actual_postsize h' = sz" "actual_count h' = cnt" "wf_ca_header h'"
    "cmmd h' = cmmd h" "data_type h' = data_type h" "cid h' = cid h" "available h' = available h"
proof -
  have "unat (of_nat sz :: u32) = sz" using assms(2) by (intro unat_of_nat_less) simp
  with assms(1) show "actual_postsize h' = sz"
    by (cases rule: set_payload_size_cases)
      (simp_all add: actual_postsize_def of_nat_u16_unmarked)
  show "actual_count h' = cnt"
    using assms(1) by (cases rule: set_payload_size_cases)
      (simp_all add: actual_count_def ucast_u16_u32)
  show "wf_ca_header h'"
    using assms(1) by (cases rule: set_payload_size_cases)
      (simp_all add: wf_ca_header_def of_nat_u16_unmarked)
qed (use assms(1) in \<open>cases rule: set_payload_size_cases; simp\<close>)+

lemma set_payload_size_None:
  "set_payload_size h sz cnt minor = None \<longleftrightarrow> (sz \<ge> 0xFFFF \<or> cnt \<ge> 0xFFFF) \<and> \<not> ca_v49 minor"
  by (simp add: set_payload_size_def)

section \<open>Lemmas: put frames\<close>

lemma align8_spec:
  assumes "n + 7 \<le> usize_max"
  shows "n \<le> align8 n" "align8 n < n + 8" "align8 n mod 8 = 0"
  using assms by (simp_all add: align8_def sat_add_exact)

lemma length_resize0 [simp]: "length (resize0 n bs) = n"
  by (simp add: resize0_def)

text \<open>The bytes of the payload that are put on the wire.\<close>

definition put_body :: "u16 \<Rightarrow> u32 \<Rightarrow> byte list \<Rightarrow> ca_error + byte list" where
  "put_body dtype cnt payload =
     (if cnt = 1 \<and> dtype = 0
      then and_then (scalar_string_put_len payload) (\<lambda>n. Inr (take n payload))
      else Inr payload)"

lemma put_body_length: "put_body dtype cnt payload = Inr body \<Longrightarrow> length body \<le> length payload"
  by (auto simp: put_body_def and_then_eq_Inr split: if_splits)

lemma build_put_frame_parts:
  assumes "build_put_frame cmd sid dtype cnt ioid payload minor = Inr frame" "length payload < 2 ^ 31"
  obtains hdr body where "put_body dtype cnt payload = Inr body"
    "frame = ca_to_bytes_extended hdr @ resize0 (align8 (length body)) body" "wf_ca_header hdr"
    "cmmd hdr = cmd" "data_type hdr = dtype" "cid hdr = sid" "actual_count hdr = cnt"
    "available hdr = (case ioid of None \<Rightarrow> 0 | Some i \<Rightarrow> i)"
    "actual_postsize hdr = align8 (length body)"
proof -
  from assms(1) obtain body where body: "put_body dtype cnt payload = Inr body"
    by (auto simp: build_put_frame_def put_body_def and_then_eq_Inr)
  have len: "length body < 2 ^ 31" using put_body_length [OF body] assms(2) by simp
  then have small: "align8 (length body) < 2 ^ 32"
    using align8_spec [of "length body"] by (simp add: usize_max_def)
  define h0 where "h0 = (let hdr = (ca_header_new cmd) \<lparr> data_type := dtype, cid := sid \<rparr>
      in case ioid of None \<Rightarrow> hdr | Some i \<Rightarrow> hdr \<lparr> available := i \<rparr>)"
  have h0: "cmmd h0 = cmd" "data_type h0 = dtype" "cid h0 = sid"
    "available h0 = (case ioid of None \<Rightarrow> 0 | Some i \<Rightarrow> i)"
    by (simp_all add: h0_def Let_def ca_header_new_def split: option.split)
  from assms(1) obtain hdr where hdr: "set_payload_size h0 (align8 (length body)) cnt minor = Some hdr"
    and frame: "frame = ca_to_bytes_extended hdr @ resize0 (align8 (length body)) body"
    using body by (auto simp: build_put_frame_def put_body_def [symmetric] h0_def Let_def and_then_eq_Inr)
  note spec = set_payload_size_spec [OF hdr small]
  show thesis
    by (rule that [OF body frame spec(3)]) (simp_all add: spec h0)
qed

text \<open>
  A scalar string handed over without a terminator is framed without one when its
  length is already a multiple of 8: the length computed for it is one more than
  the payload has, and truncating to that length changes nothing.
\<close>

lemma find_nul_None: "find_nul bs = None \<longleftrightarrow> 0 \<notin> set bs"
  by (induction bs) auto

lemma unterminated_put_body:
  assumes "0 \<notin> set payload" "length payload < MAX_STRING_SIZE" "length payload mod 8 = 0"
  shows "put_body 0 1 payload = Inr payload" "resize0 (align8 (length payload)) payload = payload"
proof -
  have "find_nul (take MAX_STRING_SIZE payload) = None"
    using assms(1) by (simp add: find_nul_None) (meson in_set_takeD)
  with assms(2) show "put_body 0 1 payload = Inr payload"
    by (simp add: put_body_def scalar_string_put_len_def)
  have "align8 (length payload) = length payload"
    using assms(2,3) align8_spec [of "length payload"] by (simp add: usize_max_def MAX_STRING_SIZE_def) presburger
  then show "resize0 (align8 (length payload)) payload = payload" by (simp add: resize0_def)
qed

end
