(* ===== verification/Ca_Recv.thy ===== *)
theory Ca_Recv
  imports Ca_Protocol
begin

text \<open>
  The receive side of a Channel Access server circuit: the token bucket of
  \<^verbatim>\<open>server/rate_limit.rs\<close>, the bounded accumulation buffer and the gate
  sequence of \<^verbatim>\<open>server/recv.rs\<close>, and the read-and-parse pass of
  \<^verbatim>\<open>server/blocking.rs\<close> that drives them.  The lemmas show that the buffer
  stays below the server's own ceiling whatever a peer declares, that no slice
  goes out of range, that a parse pass ends, that the bucket never grants more
  than burst plus rate, and that the cursor, the drain counter and the
  compaction together implement a plain function of the byte stream.
\<close>

section \<open>Token bucket (rate_limit.rs)\<close>

text \<open>
  \<^verbatim>\<open>u64\<close> quantities are naturals with the saturation written out.  A bucket
  belongs to one connection, so each compare-exchange loop ends in its first
  successful exchange with no other writer between the load and the store.
  \<open>now\<close> is the number of microseconds since the bucket was built.
\<close>

record rate_limiter =
  rl_capacity :: nat
  rl_refill_per_sec :: nat
  rl_millitokens :: nat
  rl_last_refill_micros :: nat

definition rate_limiter_new :: "nat \<Rightarrow> nat \<Rightarrow> rate_limiter" where
  "rate_limiter_new capacity refill_per_sec =
     \<lparr> rl_capacity = capacity, rl_refill_per_sec = refill_per_sec,
       rl_millitokens = sat_mul capacity 1000, rl_last_refill_micros = 0 \<rparr>"

definition rate_enabled :: "rate_limiter \<Rightarrow> bool" where
  "rate_enabled rl \<longleftrightarrow> rl_capacity rl > 0"

definition refill :: "nat \<Rightarrow> rate_limiter \<Rightarrow> rate_limiter" where
  "refill now rl =
     (let prev = rl_last_refill_micros rl in
      if now \<le> prev then rl
      else
        let added_milli = sat_mul (rl_refill_per_sec rl) (now - prev) div 1000 in
        if added_milli = 0 then rl
        else rl \<lparr> rl_last_refill_micros := now,
                  rl_millitokens :=
                    min (sat_add (rl_millitokens rl) added_milli) (sat_mul (rl_capacity rl) 1000) \<rparr>)"

definition try_acquire :: "nat \<Rightarrow> rate_limiter \<Rightarrow> bool \<times> rate_limiter" where
  "try_acquire now rl =
     (if \<not> rate_enabled rl then (True, rl)
      else
        let rl = refill now rl in
        if rl_millitokens rl < 1000 then (False, rl)
        else (True, rl \<lparr> rl_millitokens := rl_millitokens rl - 1000 \<rparr>))"

record rate_limit_config =
  cfg_msgs_per_sec :: nat
  cfg_burst :: nat
  cfg_strike_threshold :: nat

definition rate_limit_build :: "rate_limit_config \<Rightarrow> rate_limiter option" where
  "rate_limit_build cfg =
     (if cfg_msgs_per_sec cfg = 0 \<or> cfg_burst cfg = 0 then None
      else Some (rate_limiter_new (cfg_burst cfg) (cfg_msgs_per_sec cfg)))"

section \<open>Status codes (epics-base-rs error.rs)\<close>

definition CA_K_WARNING :: u32 where "CA_K_WARNING = 0"
definition CA_K_ERROR :: u32 where "CA_K_ERROR = 2"
definition CA_K_SEVERE :: u32 where "CA_K_SEVERE = 4"
definition CA_K_FATAL :: u32 where "CA_K_FATAL = CA_K_ERROR OR CA_K_SEVERE"

definition defmsg :: "u32 \<Rightarrow> u32 \<Rightarrow> u32" where
  "defmsg sev num = (push_bit 3 num AND 0x0000FFF8) OR (sev AND 0x00000007)"

definition ECA_TOLARGE :: u32 where "ECA_TOLARGE = defmsg CA_K_WARNING 9"
definition ECA_INTERNAL :: u32 where "ECA_INTERNAL = defmsg CA_K_FATAL 17"
definition ECA_DEFUNCT :: u32 where "ECA_DEFUNCT = defmsg CA_K_FATAL 34"

section \<open>The accumulator and its results (recv.rs)\<close>

datatype admit = Parse | Draining | Overflow nat

datatype refused = ResumeAt nat | DrainPending

text \<open>The texts a gate hands to the peer and to the log, by what they say.\<close>

datatype diagnostic =
    ClientTooOld u16
  | Misaligned
  | RequestTooLarge nat
  | BadTcpCommand

record gate_error =
  ge_hdr :: ca_header
  ge_status :: u32
  ge_diagnostic :: diagnostic
  ge_mnum :: nat

definition bad_tcp_command :: "ca_header \<Rightarrow> gate_error" where
  "bad_tcp_command hdr =
     \<lparr> ge_hdr = hdr, ge_status = ECA_INTERNAL, ge_diagnostic = BadTcpCommand, ge_mnum = 0 \<rparr>"

datatype tear_reason =
    HeaderRejected ca_error
  | UnrepresentableLength nat
  | MisalignedPayload
  | IllegalTcpCommand u16

datatype gate =
    NeedMore
  | Deliver ca_header "byte list"
  | Refuse gate_error
  | TearDown "gate_error option" tear_reason
  | Discard
  | RateLimited nat

record recv_accumulator =
  ra_buf :: "byte list"
  ra_to_drain :: nat
  ra_offset :: nat
  ra_rate :: "rate_limiter option"
  ra_rate_strikes :: nat
  ra_rate_strike_threshold :: nat
  ra_body_ceiling :: nat
  ra_nmsg :: nat

text \<open>\<open>ceiling\<close> is the value \<^verbatim>\<open>max_frame_body_bytes\<close> has when the circuit opens.\<close>

definition with_rate_limit :: "nat \<Rightarrow> rate_limit_config \<Rightarrow> recv_accumulator" where
  "with_rate_limit ceiling cfg =
     \<lparr> ra_buf = [], ra_to_drain = 0, ra_offset = 0, ra_rate = rate_limit_build cfg,
       ra_rate_strikes = 0, ra_rate_strike_threshold = cfg_strike_threshold cfg,
       ra_body_ceiling = ceiling, ra_nmsg = 0 \<rparr>"

text \<open>The strike counter is a saturating \<^verbatim>\<open>u32\<close>.\<close>

definition admit_rate :: "nat \<Rightarrow> recv_accumulator \<Rightarrow> gate option \<times> recv_accumulator" where
  "admit_rate now acc =
     (case ra_rate acc of
        None \<Rightarrow> (None, acc)
      | Some limiter \<Rightarrow>
          let (ok, limiter) = try_acquire now limiter;
              acc = acc \<lparr> ra_rate := Some limiter \<rparr>
          in if ok then (None, acc \<lparr> ra_rate_strikes := 0 \<rparr>)
             else
               let strikes = min (ra_rate_strikes acc + 1) (2 ^ 32 - 1);
                   acc = acc \<lparr> ra_rate_strikes := strikes \<rparr>
               in if ra_rate_strike_threshold acc > 0 \<and> strikes \<ge> ra_rate_strike_threshold acc
                  then (Some (RateLimited strikes), acc)
                  else (Some Discard, acc))"

definition admits_body :: "recv_accumulator \<Rightarrow> nat \<Rightarrow> nat + unit" where
  "admits_body acc declared_body =
     (if declared_body > ra_body_ceiling acc then Inl (ra_body_ceiling acc) else Inr ())"

definition accumulation_ceiling :: "recv_accumulator \<Rightarrow> nat" where
  "accumulation_ceiling acc = sat_add (sat_add (ra_body_ceiling acc) 24) (64 * 1024)"

definition room :: "recv_accumulator \<Rightarrow> nat" where
  "room acc = accumulation_ceiling acc - length (ra_buf acc)"

definition accept :: "byte list \<Rightarrow> recv_accumulator \<Rightarrow> admit \<times> recv_accumulator" where
  "accept chunk acc =
     (let acc = acc \<lparr> ra_nmsg := 0 \<rparr>;
          drop_now = (if ra_to_drain acc > 0 then min (ra_to_drain acc) (length chunk) else 0);
          acc = acc \<lparr> ra_to_drain := ra_to_drain acc - drop_now \<rparr>;
          chunk = drop drop_now chunk
      in if ra_to_drain acc > 0 then (Draining, acc)
         else
           let ceiling = accumulation_ceiling acc in
           if sat_add (length (ra_buf acc)) (length chunk) > ceiling then (Overflow ceiling, acc)
           else (Parse, acc \<lparr> ra_buf := ra_buf acc @ chunk \<rparr>))"

definition consume :: "nat \<Rightarrow> recv_accumulator \<Rightarrow> recv_accumulator" where
  "consume n acc =
     (if n > 0 then acc \<lparr> ra_buf := drop (min n (length (ra_buf acc))) (ra_buf acc) \<rparr> else acc)"

definition refuse :: "nat \<Rightarrow> nat \<Rightarrow> recv_accumulator \<Rightarrow> refused \<times> recv_accumulator" where
  "refuse offset msg_len acc =
     (let arrived = length (ra_buf acc) - offset in
      if msg_len < arrived \<or> msg_len - arrived = 0 then (ResumeAt (offset + msg_len), acc)
      else (DrainPending, acc \<lparr> ra_to_drain := msg_len - arrived \<rparr>))"

definition compact :: "recv_accumulator \<Rightarrow> recv_accumulator" where
  "compact acc = (let parsed = ra_offset acc in consume parsed (acc \<lparr> ra_offset := 0 \<rparr>))"

definition skip_refused :: "nat \<Rightarrow> recv_accumulator \<Rightarrow> recv_accumulator" where
  "skip_refused msg_len acc =
     (case refuse (ra_offset acc) msg_len acc of
        (ResumeAt nx, acc) \<Rightarrow> acc \<lparr> ra_offset := nx \<rparr>
      | (DrainPending, acc) \<Rightarrow> acc \<lparr> ra_offset := length (ra_buf acc) \<rparr>)"

definition message_len :: "nat \<Rightarrow> nat \<Rightarrow> nat option" where
  "message_len hdr_size declared_body =
     (if declared_body \<ge> (2 ^ 32 - 1) - (16 + EXTENDED_EXTRA) then None
      else Some (hdr_size + declared_body))"

text \<open>
  \<open>None\<close> is a panic: a slice of the buffer that starts beyond its end.  The
  message counter \<^verbatim>\<open>nmsg\<close> counts messages of one buffer and stays a natural.
\<close>

definition next_message :: "u16 \<Rightarrow> nat \<Rightarrow> recv_accumulator \<Rightarrow> (gate \<times> recv_accumulator) option" where
  "next_message client_minor now acc =
     (if ra_offset acc > length (ra_buf acc) then None
      else
        let head = drop (ra_offset acc) (ra_buf acc) in
        if length head < 16 then Some (NeedMore, compact acc)
        else if ca_v49 client_minor \<and> length head < 24 \<and> head ! 2 = 0xFF \<and> head ! 3 = 0xFF
        then Some (NeedMore, compact acc)
        else case ca_from_bytes_for_peer head client_minor of
          Inl e \<Rightarrow> Some (TearDown None (HeaderRejected e), acc)
        | Inr (hdr, hdr_size) \<Rightarrow>
            let body = actual_postsize hdr in
            case message_len hdr_size body of
              None \<Rightarrow> Some (TearDown None (UnrepresentableLength body), acc)
            | Some msg_len \<Rightarrow>
                if cmmd hdr \<noteq> CA_PROTO_VERSION \<and> client_minor < CA_MINIMUM_SUPPORTED_VERSION
                then Some (Refuse \<lparr> ge_hdr = hdr, ge_status = ECA_DEFUNCT,
                             ge_diagnostic = ClientTooOld client_minor, ge_mnum = ra_nmsg acc \<rparr>,
                           skip_refused msg_len acc)
                else if msg_len mod 8 \<noteq> 0
                then Some (TearDown (Some \<lparr> ge_hdr = hdr, ge_status = ECA_INTERNAL,
                             ge_diagnostic = Misaligned, ge_mnum = ra_nmsg acc \<rparr>) MisalignedPayload,
                           acc)
                else case admits_body acc body of
                  Inl ceiling \<Rightarrow>
                    Some (Refuse \<lparr> ge_hdr = hdr, ge_status = ECA_TOLARGE,
                            ge_diagnostic = RequestTooLarge ceiling, ge_mnum = ra_nmsg acc \<rparr>,
                          skip_refused msg_len acc)
                | Inr _ \<Rightarrow>
                    if ra_offset acc + msg_len > length (ra_buf acc) then Some (NeedMore, compact acc)
                    else
                      let acc = acc \<lparr> ra_offset := ra_offset acc + msg_len, ra_nmsg := ra_nmsg acc + 1 \<rparr> in
                      if \<not> is_legal_tcp_command (cmmd hdr)
                      then Some (TearDown (Some (bad_tcp_command hdr)) (IllegalTcpCommand (cmmd hdr)), acc)
                      else case admit_rate now acc of
                        (Some g, acc) \<Rightarrow> Some (g, acc)
                      | (None, acc) \<Rightarrow>
                          let start = ra_offset acc - msg_len + hdr_size in
                          if start \<le> ra_offset acc \<and> ra_offset acc \<le> length (ra_buf acc)
                          then Some (Deliver hdr (drop start (take (ra_offset acc) (ra_buf acc))), acc)
                          else None)"

section \<open>Abstract specification: gates as a function of the stream\<close>

fun closes :: "gate \<Rightarrow> bool" where
  "closes (TearDown _ _) = True"
| "closes (RateLimited _) = True"
| "closes _ = False"

text \<open>
  What the gate sequence decides about the bytes at the head of the stream, and
  how many bytes of the stream the decision takes.  Message numbers, which only
  the log reads, are 0.
\<close>

definition ca_gate :: "nat \<Rightarrow> u16 \<Rightarrow> byte list \<Rightarrow> (gate \<times> nat) option" where
  "ca_gate ceiling minor bs =
     (if length bs < 16 then None
      else if ca_v49 minor \<and> length bs < 24 \<and> bs ! 2 = 0xFF \<and> bs ! 3 = 0xFF then None
      else case ca_from_bytes_for_peer bs minor of
        Inl e \<Rightarrow> Some (TearDown None (HeaderRejected e), 0)
      | Inr (hdr, hdr_size) \<Rightarrow>
          (case message_len hdr_size (actual_postsize hdr) of
             None \<Rightarrow> Some (TearDown None (UnrepresentableLength (actual_postsize hdr)), 0)
           | Some n \<Rightarrow>
               if cmmd hdr \<noteq> CA_PROTO_VERSION \<and> minor < CA_MINIMUM_SUPPORTED_VERSION
               then Some (Refuse \<lparr> ge_hdr = hdr, ge_status = ECA_DEFUNCT,
                            ge_diagnostic = ClientTooOld minor, ge_mnum = 0 \<rparr>, n)
               else if n mod 8 \<noteq> 0
               then Some (TearDown (Some \<lparr> ge_hdr = hdr, ge_status = ECA_INTERNAL,
                            ge_diagnostic = Misaligned, ge_mnum = 0 \<rparr>) MisalignedPayload, 0)
               else if actual_postsize hdr > ceiling
               then Some (Refuse \<lparr> ge_hdr = hdr, ge_status = ECA_TOLARGE,
                            ge_diagnostic = RequestTooLarge ceiling, ge_mnum = 0 \<rparr>, n)
               else if n > length bs then None
               else if \<not> is_legal_tcp_command (cmmd hdr)
               then Some (TearDown (Some (bad_tcp_command hdr)) (IllegalTcpCommand (cmmd hdr)), 0)
               else Some (Deliver hdr (drop hdr_size (take n bs)), n)))"

fun erase_mnum :: "gate \<Rightarrow> gate" where
  "erase_mnum (Refuse e) = Refuse (e \<lparr> ge_mnum := 0 \<rparr>)"
| "erase_mnum (TearDown (Some e) r) = TearDown (Some (e \<lparr> ge_mnum := 0 \<rparr>)) r"
| "erase_mnum g = g"

section \<open>Lemmas: cursor bookkeeping\<close>

lemma compact_eq:
  "ra_offset acc \<le> length (ra_buf acc) \<Longrightarrow>
   compact acc = acc \<lparr> ra_offset := 0, ra_buf := drop (ra_offset acc) (ra_buf acc) \<rparr>"
  by (simp add: compact_def consume_def Let_def)

lemma skip_refused_eq:
  assumes "ra_offset acc \<le> length (ra_buf acc)"
  shows "skip_refused n acc = acc \<lparr>
      ra_offset := min (ra_offset acc + n) (length (ra_buf acc)),
      ra_to_drain := (let len = length (ra_buf acc) - ra_offset acc
                      in if n > len then n - len else ra_to_drain acc) \<rparr>"
proof (cases "n \<le> length (ra_buf acc) - ra_offset acc")
  case True
  then have "min (ra_offset acc + n) (length (ra_buf acc)) = ra_offset acc + n" using assms by simp
  with True show ?thesis
    by (auto simp: skip_refused_def refuse_def Let_def)
next
  case False
  then have "min (ra_offset acc + n) (length (ra_buf acc)) = length (ra_buf acc)" by simp
  with False show ?thesis by (simp add: skip_refused_def refuse_def Let_def)
qed

lemma from_bytes_for_peer_Inr:
  assumes "ca_from_bytes_for_peer bs minor = Inr (hdr, hs)"
  shows "(hs = 16 \<or> hs = 24) \<and> hs \<le> length bs"
proof (cases "ca_v49 minor")
  case True
  with assms ca_from_bytes_extended_consumed [of bs hdr hs] show ?thesis
    by (simp add: ca_from_bytes_for_peer_def split: if_splits)
next
  case False
  with assms show ?thesis
    by (auto simp: ca_from_bytes_for_peer_def and_then_eq_Inr dest: ca_from_bytes_plain)
qed

lemma message_len_Some: "message_len hs body = Some n \<Longrightarrow> n = hs + body"
  by (simp add: message_len_def split: if_splits)

lemma next_message_refines:
  fixes acc :: recv_accumulator
  assumes off: "ra_offset acc \<le> length (ra_buf acc)" and rate: "ra_rate acc = None"
  defines "head \<equiv> drop (ra_offset acc) (ra_buf acc)"
  shows "case ca_gate (ra_body_ceiling acc) minor head of
      None \<Rightarrow> next_message minor now acc = Some (NeedMore, compact acc)
    | Some (g, n) \<Rightarrow> \<exists>g' acc'. next_message minor now acc = Some (g', acc') \<and> erase_mnum g' = g \<and>
        (\<not> closes g \<longrightarrow> acc' = acc \<lparr>
           ra_offset := min (ra_offset acc + n) (length (ra_buf acc)),
           ra_to_drain := (if n > length head then n - length head else ra_to_drain acc),
           ra_nmsg := ra_nmsg acc' \<rparr>)"
proof -
  let ?ceil = "ra_body_ceiling acc"
  have len: "length head = length (ra_buf acc) - ra_offset acc" by (simp add: head_def)
  have in_range: "\<not> ra_offset acc > length (ra_buf acc)" using off by simp
  show ?thesis
  proof (cases "length head < 16 \<or> (ca_v49 minor \<and> length head < 24 \<and> head ! 2 = 0xFF \<and> head ! 3 = 0xFF)")
    case True
    then have "ca_gate ?ceil minor head = None" by (auto simp: ca_gate_def)
    moreover have "next_message minor now acc = Some (NeedMore, compact acc)"
      using True in_range by (auto simp: next_message_def head_def [symmetric] Let_def)
    ultimately show ?thesis by simp
  next
    case False
    then have go: "\<not> length head < 16"
      "\<not> (ca_v49 minor \<and> length head < 24 \<and> head ! 2 = 0xFF \<and> head ! 3 = 0xFF)" by auto
    note next_eq = next_message_def [of minor now acc, folded head_def, unfolded Let_def,
        unfolded if_not_P [OF in_range] if_not_P [OF go(1)] if_not_P [OF go(2)]]
    note gate_eq = ca_gate_def [of ?ceil minor head,
        unfolded if_not_P [OF go(1)] if_not_P [OF go(2)]]
    show ?thesis
    proof (cases "ca_from_bytes_for_peer head minor")
      case (Inl e)
      then show ?thesis by (simp add: next_eq gate_eq)
    next
      case (Inr hp)
      then obtain hdr hs where parsed: "ca_from_bytes_for_peer head minor = Inr (hdr, hs)"
        by (cases hp) auto
      note hs = from_bytes_for_peer_Inr [OF parsed]
      show ?thesis
      proof (cases "message_len hs (actual_postsize hdr)")
        case None
        then show ?thesis by (simp add: next_eq gate_eq parsed)
      next
        case (Some n)
        then have n: "n = hs + actual_postsize hdr" by (rule message_len_Some)
        show ?thesis
        proof (cases "n > length head")
          case True
          then have beyond: "ra_offset acc + n > length (ra_buf acc)" using len off by simp
          show ?thesis
            using True beyond len
            by (auto simp: next_eq gate_eq parsed Some admits_body_def skip_refused_eq [OF off])
        next
          case False
          then have within: "\<not> ra_offset acc + n > length (ra_buf acc)"
            "min (ra_offset acc + n) (length (ra_buf acc)) = ra_offset acc + n"
            using len off by simp_all
          have slice: "drop (ra_offset acc + hs) (take (ra_offset acc + n) (ra_buf acc)) =
              drop hs (take n head)"
            by (simp add: head_def drop_take add.commute)
          show ?thesis
            using False within len n slice
            by (auto simp: next_eq gate_eq parsed Some admits_body_def skip_refused_eq [OF off]
                admit_rate_def rate bad_tcp_command_def)
        qed
      qed
    qed
  qed
qed

text \<open>The header is complete when the gate reaches the parser, so step 3 never tears down.\<close>

lemma be_bytes_FFFF:
  assumes "length bs = 2" "(of_be_bytes bs :: u16) = 0xFFFF"
  shows "bs = [0xFF, 0xFF]"
proof -
  have "bs = be_bytes 2 (of_be_bytes bs :: u16)"
    using be_bytes_of_be_bytes [of bs, where 'a = 16] assms(1) by simp
  also have "\<dots> = [0xFF, 0xFF]" unfolding assms(2) by code_simp
  finally show ?thesis .
qed

lemma postsize_bytes: "16 \<le> length bs \<Longrightarrow> take 2 (drop 2 bs) = [bs ! 2, bs ! 3]"
  by (simp add: numeral_2_eq_2 take_Suc_conv_app_nth numeral_3_eq_3)

lemma for_peer_total:
  assumes "16 \<le> length bs"
    "\<not> (ca_v49 minor \<and> length bs < 24 \<and> bs ! 2 = 0xFF \<and> bs ! 3 = 0xFF)"
  shows "\<exists>hdr hs. ca_from_bytes_for_peer bs minor = Inr (hdr, hs)"
proof -
  obtain h where h: "ca_from_bytes bs = Inr h" using ca_from_bytes_total [OF assms(1)] by blast
  have "postsize h = of_be_bytes (take 2 (drop 2 bs))"
    using h assms(1) by (auto simp: ca_from_bytes_def split: if_splits)
  moreover have two: "take 2 (drop 2 bs) = [bs ! 2, bs ! 3]" using assms(1) by (rule postsize_bytes)
  ultimately have "postsize h = 0xFFFF \<Longrightarrow> bs ! 2 = 0xFF \<and> bs ! 3 = 0xFF"
    using be_bytes_FFFF [of "take 2 (drop 2 bs)"] by simp
  then show ?thesis
    using assms h by (auto simp: ca_from_bytes_for_peer_def ca_from_bytes_extended_def)
qed

lemma for_peer_append:
  assumes "ca_from_bytes_for_peer bs minor = Inr (hdr, hs)"
  shows "ca_from_bytes_for_peer (bs @ suf) minor = Inr (hdr, hs)"
proof (cases "ca_v49 minor")
  case True
  with assms show ?thesis
    by (simp add: ca_from_bytes_for_peer_def ca_from_bytes_extended_append)
next
  case False
  then obtain h where h: "ca_from_bytes bs = Inr h" "hdr = h" "hs = 16"
    using assms by (auto simp: ca_from_bytes_for_peer_def and_then_eq_Inr)
  with False show ?thesis
    using ca_from_bytes_plain [OF h(1)]
    by (simp add: ca_from_bytes_for_peer_def ca_from_bytes_append)
qed

text \<open>The shape of a decision: the header, its length and the message length it announces.\<close>

lemma ca_gate_cases:
  obtains (short) "ca_gate ceiling minor bs = None" "length bs < 24"
  | (unrepresentable) hdr hs where "ca_from_bytes_for_peer bs minor = Inr (hdr, hs)"
      "message_len hs (actual_postsize hdr) = None"
      "ca_gate ceiling minor bs = Some (TearDown None (UnrepresentableLength (actual_postsize hdr)), 0)"
      "16 \<le> length bs" "\<not> (ca_v49 minor \<and> length bs < 24 \<and> bs ! 2 = 0xFF \<and> bs ! 3 = 0xFF)"
  | (framed) hdr hs n where "ca_from_bytes_for_peer bs minor = Inr (hdr, hs)"
      "message_len hs (actual_postsize hdr) = Some n"
      "16 \<le> length bs" "\<not> (ca_v49 minor \<and> length bs < 24 \<and> bs ! 2 = 0xFF \<and> bs ! 3 = 0xFF)"
proof (cases "length bs < 16 \<or> (ca_v49 minor \<and> length bs < 24 \<and> bs ! 2 = 0xFF \<and> bs ! 3 = 0xFF)")
  case True
  then show thesis by (intro short) (auto simp: ca_gate_def)
next
  case False
  then have go: "16 \<le> length bs" "\<not> length bs < 16"
    "\<not> (ca_v49 minor \<and> length bs < 24 \<and> bs ! 2 = 0xFF \<and> bs ! 3 = 0xFF)" by auto
  obtain hdr hs where parsed: "ca_from_bytes_for_peer bs minor = Inr (hdr, hs)"
    using for_peer_total [OF go(1,3)] by blast
  show thesis
  proof (cases "message_len hs (actual_postsize hdr)")
    case None
    have "ca_gate ceiling minor bs = Some (TearDown None (UnrepresentableLength (actual_postsize hdr)), 0)"
      unfolding ca_gate_def if_not_P [OF go(2)] if_not_P [OF go(3)] by (simp add: parsed None)
    with parsed None go show thesis by (intro unrepresentable) simp_all
  next
    case (Some n)
    with parsed go show thesis by (intro framed) simp_all
  qed
qed

lemma ca_gate_framed:
  assumes "ca_from_bytes_for_peer bs minor = Inr (hdr, hs)"
    "message_len hs (actual_postsize hdr) = Some n"
    "16 \<le> length bs" "\<not> (ca_v49 minor \<and> length bs < 24 \<and> bs ! 2 = 0xFF \<and> bs ! 3 = 0xFF)"
  shows "ca_gate ceiling minor bs =
    (if cmmd hdr \<noteq> CA_PROTO_VERSION \<and> minor < CA_MINIMUM_SUPPORTED_VERSION
     then Some (Refuse \<lparr> ge_hdr = hdr, ge_status = ECA_DEFUNCT,
                  ge_diagnostic = ClientTooOld minor, ge_mnum = 0 \<rparr>, n)
     else if n mod 8 \<noteq> 0
     then Some (TearDown (Some \<lparr> ge_hdr = hdr, ge_status = ECA_INTERNAL,
                  ge_diagnostic = Misaligned, ge_mnum = 0 \<rparr>) MisalignedPayload, 0)
     else if actual_postsize hdr > ceiling
     then Some (Refuse \<lparr> ge_hdr = hdr, ge_status = ECA_TOLARGE,
                  ge_diagnostic = RequestTooLarge ceiling, ge_mnum = 0 \<rparr>, n)
     else if n > length bs then None
     else if \<not> is_legal_tcp_command (cmmd hdr)
     then Some (TearDown (Some (bad_tcp_command hdr)) (IllegalTcpCommand (cmmd hdr)), 0)
     else Some (Deliver hdr (drop hs (take n bs)), n))"
proof -
  have "\<not> length bs < 16" using assms(3) by simp
  then show ?thesis
    unfolding ca_gate_def if_not_P [OF assms(4)] by (simp only: if_False assms(1,2) sum.case prod.case option.case)
qed

lemma ca_gate_consumes:
  assumes "ca_gate ceiling minor bs = Some (g, n)" "\<not> closes g"
  shows "16 \<le> n"
proof (cases rule: ca_gate_cases [of ceiling minor bs])
  case (framed hdr hs k)
  have "16 \<le> k" using framed(2) from_bytes_for_peer_Inr [OF framed(1)]
    by (auto dest: message_len_Some)
  with assms show ?thesis by (auto simp: ca_gate_framed [OF framed] split: if_splits)
qed (use assms in auto)

lemma ca_gate_held:
  assumes "ca_gate ceiling minor bs = None"
  shows "length bs < ceiling + 24"
proof (cases rule: ca_gate_cases [of ceiling minor bs])
  case (framed hdr hs k)
  have "k = hs + actual_postsize hdr" "hs \<le> 24"
    using framed(2) from_bytes_for_peer_Inr [OF framed(1)] by (auto dest: message_len_Some)
  moreover from assms have "actual_postsize hdr \<le> ceiling" "length bs < k"
    by (auto simp: ca_gate_framed [OF framed] split: if_splits)
  ultimately show ?thesis by linarith
qed (use assms in auto)

lemma ca_gate_stable:
  assumes "ca_gate ceiling minor bs = Some (g, n)"
  shows "ca_gate ceiling minor (bs @ suf) = Some (g, n)"
proof (cases rule: ca_gate_cases [of ceiling minor bs])
  case short
  with assms show ?thesis by simp
next
  case (unrepresentable hdr hs)
  have go: "\<not> length (bs @ suf) < 16"
    "\<not> (ca_v49 minor \<and> length (bs @ suf) < 24 \<and> (bs @ suf) ! 2 = 0xFF \<and> (bs @ suf) ! 3 = 0xFF)"
    using unrepresentable(4,5) by (auto simp: nth_append)
  show ?thesis
    using assms unrepresentable
    unfolding ca_gate_def [of _ _ "bs @ suf"] if_not_P [OF go(1)] if_not_P [OF go(2)]
    by (simp add: for_peer_append)
next
  case (framed hdr hs k)
  have go: "16 \<le> length (bs @ suf)"
    "\<not> (ca_v49 minor \<and> length (bs @ suf) < 24 \<and> (bs @ suf) ! 2 = 0xFF \<and> (bs @ suf) ! 3 = 0xFF)"
    using framed(3,4) by (auto simp: nth_append)
  have body: "k \<le> length bs \<Longrightarrow> take k (bs @ suf) = take k bs" by simp
  show ?thesis
    using assms
    unfolding ca_gate_framed [OF framed] ca_gate_framed [OF for_peer_append [OF framed(1)] framed(2) go]
    by (auto simp: body split: if_splits)
qed

text \<open>
  The state the decisions depend on is the peer's minor version, which dispatching
  changes.  The handler of a delivered message may fail, and a failure ends the
  circuit as a closing gate does.
\<close>

fun dispatched :: "('s \<Rightarrow> ca_header \<Rightarrow> byte list \<Rightarrow> 's option) \<Rightarrow> 's \<Rightarrow> gate \<Rightarrow> 's option" where
  "dispatched dispatch s (Deliver hdr payload) = dispatch s hdr payload"
| "dispatched dispatch s _ = Some s"

definition ends :: "('s \<Rightarrow> ca_header \<Rightarrow> byte list \<Rightarrow> 's option) \<Rightarrow> 's \<Rightarrow> gate \<Rightarrow> bool" where
  "ends dispatch s g \<longleftrightarrow> closes g \<or> dispatched dispatch s g = None"

definition after_gate :: "('s \<Rightarrow> ca_header \<Rightarrow> byte list \<Rightarrow> 's option) \<Rightarrow> 's \<Rightarrow> gate \<Rightarrow> 's" where
  "after_gate dispatch s g = (case dispatched dispatch s g of Some s' \<Rightarrow> s' | None \<Rightarrow> s)"

abbreviation ca_gates :: "nat \<Rightarrow> ('s \<Rightarrow> u16) \<Rightarrow> 's \<Rightarrow> byte list \<Rightarrow> (gate \<times> nat) option" where
  "ca_gates ceiling minor s \<equiv> ca_gate ceiling (minor s)"

interpretation ca_framer: framer "ca_gates ceiling minor" "ends dispatch" "after_gate dispatch"
  for ceiling minor dispatch
proof
  show "0 < n" if "ca_gate ceiling (minor s) bs = Some (g, n)" "\<not> ends dispatch s g" for s bs g n
    using ca_gate_consumes [OF that(1)] that(2) by (simp add: ends_def)
  show "ca_gate ceiling (minor s) (bs @ suf) = Some (g, n)"
    if "ca_gate ceiling (minor s) bs = Some (g, n)" for s bs g n suf
    using that by (rule ca_gate_stable)
qed

section \<open>Lemmas: safety of every operation\<close>

text \<open>
  The representation invariant: cursor in range, buffer below the server's
  ceiling, and the ceiling itself not at the saturation point of \<^verbatim>\<open>usize\<close>
  (\<open>frame_ceiling_small\<close>: no configuration reaches it).
\<close>

definition recv_ok :: "recv_accumulator \<Rightarrow> bool" where
  "recv_ok acc \<longleftrightarrow>
     ra_offset acc \<le> length (ra_buf acc) \<and>
     length (ra_buf acc) \<le> ra_body_ceiling acc + 24 + 64 * 1024 \<and>
     ra_body_ceiling acc + 24 + 64 * 1024 < usize_max"

lemma frame_ceiling_small:
  "max_bytes < 2 ^ 63 \<Longrightarrow> max_frame_body_bytes env max_bytes + 24 + 64 * 1024 < usize_max"
  by (auto simp: max_frame_body_bytes_def max_recv_body_bytes_def max_array_bytes_buffer_def
      MAX_FRAME_BODY_BYTES_def MAX_TCP_def EXTENDED_EXTRA_def usize_max_def sat_add_def nat_less_iff)

lemma recv_ok_ceiling: "recv_ok acc \<Longrightarrow> accumulation_ceiling acc = ra_body_ceiling acc + 24 + 64 * 1024"
  by (simp add: accumulation_ceiling_def recv_ok_def sat_add_def)

lemma accept_cases:
  assumes "recv_ok acc"
  obtains (draining) "length chunk < ra_to_drain acc"
      "accept chunk acc = (Draining, acc \<lparr> ra_nmsg := 0, ra_to_drain := ra_to_drain acc - length chunk \<rparr>)"
  | (overflow) "ra_to_drain acc \<le> length chunk"
      "length (ra_buf acc) + (length chunk - ra_to_drain acc) > ra_body_ceiling acc + 24 + 64 * 1024"
      "accept chunk acc = (Overflow (ra_body_ceiling acc + 24 + 64 * 1024),
         acc \<lparr> ra_nmsg := 0, ra_to_drain := 0 \<rparr>)"
  | (parse) "ra_to_drain acc \<le> length chunk"
      "length (ra_buf acc) + (length chunk - ra_to_drain acc) \<le> ra_body_ceiling acc + 24 + 64 * 1024"
      "accept chunk acc = (Parse, acc \<lparr> ra_nmsg := 0, ra_to_drain := 0,
         ra_buf := ra_buf acc @ drop (ra_to_drain acc) chunk \<rparr>)"
proof -
  let ?lim = "ra_body_ceiling acc + 24 + 64 * 1024"
  have ceil: "accumulation_ceiling (acc \<lparr> ra_nmsg := m, ra_to_drain := d \<rparr>) = ?lim" for m d
    using recv_ok_ceiling [OF assms] by (simp add: accumulation_ceiling_def)
  have "?lim < usize_max" using assms by (simp add: recv_ok_def)
  then have sat: "sat_add x y > ?lim \<longleftrightarrow> x + y > ?lim" for x y by (auto simp: sat_add_def)
  consider "length chunk < ra_to_drain acc"
    | "ra_to_drain acc \<le> length chunk" "length (ra_buf acc) + (length chunk - ra_to_drain acc) > ?lim"
    | "ra_to_drain acc \<le> length chunk" "length (ra_buf acc) + (length chunk - ra_to_drain acc) \<le> ?lim"
    by linarith
  then show thesis
  proof cases
    case 1
    then show thesis by (intro draining) (simp_all add: accept_def Let_def)
  next
    case 2
    then have "accept chunk acc = (Overflow ?lim, acc \<lparr> ra_nmsg := 0, ra_to_drain := 0 \<rparr>)"
      using sat [of "length (ra_buf acc)"] ceil [of 0 0]
      by (cases "ra_to_drain acc = 0") (simp_all add: accept_def Let_def)
    with 2 show thesis by (intro overflow)
  next
    case 3
    then have "accept chunk acc = (Parse, acc \<lparr> ra_nmsg := 0, ra_to_drain := 0,
         ra_buf := ra_buf acc @ drop (ra_to_drain acc) chunk \<rparr>)"
      using sat [of "length (ra_buf acc)"] ceil [of 0 0]
      by (cases "ra_to_drain acc = 0") (simp_all add: accept_def Let_def)
    with 3 show thesis by (intro parse)
  qed
qed

lemma accept_ok:
  assumes "recv_ok acc"
  shows "recv_ok (snd (accept chunk acc)) \<and>
    ra_body_ceiling (snd (accept chunk acc)) = ra_body_ceiling acc"
  using assms
proof (cases rule: accept_cases [of acc chunk])
  case parse
  with assms show ?thesis by (auto simp: recv_ok_def)
qed (use assms in \<open>auto simp: recv_ok_def\<close>)

lemma admit_rate_frame:
  "admit_rate now acc = (g, acc') \<Longrightarrow>
     ra_buf acc' = ra_buf acc \<and> ra_offset acc' = ra_offset acc \<and> ra_to_drain acc' = ra_to_drain acc \<and>
     ra_body_ceiling acc' = ra_body_ceiling acc \<and> ra_nmsg acc' = ra_nmsg acc"
  by (auto simp: admit_rate_def Let_def case_prod_beta split: option.splits if_splits)

text \<open>One call: never a panic, the invariant is kept, and every message moves the cursor on.\<close>

fun continues :: "gate \<Rightarrow> bool" where
  "continues NeedMore = False"
| "continues g = (\<not> closes g)"

text \<open>What every operation on a buffer with the cursor in range keeps.\<close>

definition cursor_kept :: "recv_accumulator \<Rightarrow> recv_accumulator \<Rightarrow> bool" where
  "cursor_kept acc acc' \<longleftrightarrow>
     ra_offset acc' \<le> length (ra_buf acc') \<and> length (ra_buf acc') \<le> length (ra_buf acc) \<and>
     ra_body_ceiling acc' = ra_body_ceiling acc"

lemma cursor_kept_ok: "recv_ok acc \<Longrightarrow> cursor_kept acc acc' \<Longrightarrow> recv_ok acc'"
  by (auto simp: recv_ok_def cursor_kept_def)

lemma compact_kept: "ra_offset acc \<le> length (ra_buf acc) \<Longrightarrow> cursor_kept acc (compact acc)"
  by (auto simp: cursor_kept_def compact_eq)

lemma skip_refused_kept:
  assumes "ra_offset acc + 16 \<le> length (ra_buf acc)" "16 \<le> n"
  shows "cursor_kept acc (skip_refused n acc) \<and>
    ra_buf (skip_refused n acc) = ra_buf acc \<and> ra_offset acc < ra_offset (skip_refused n acc)"
  using assms by (simp add: skip_refused_eq cursor_kept_def)

lemma next_message_framed:
  fixes acc :: recv_accumulator
  assumes off: "ra_offset acc \<le> length (ra_buf acc)"
  defines "head \<equiv> drop (ra_offset acc) (ra_buf acc)"
  assumes parsed: "ca_from_bytes_for_peer head minor = Inr (hdr, hs)"
    and len: "message_len hs (actual_postsize hdr) = Some n"
    and go: "16 \<le> length head" "\<not> (ca_v49 minor \<and> length head < 24 \<and> head ! 2 = 0xFF \<and> head ! 3 = 0xFF)"
  shows "next_message minor now acc =
    (if cmmd hdr \<noteq> CA_PROTO_VERSION \<and> minor < CA_MINIMUM_SUPPORTED_VERSION
     then Some (Refuse \<lparr> ge_hdr = hdr, ge_status = ECA_DEFUNCT,
                  ge_diagnostic = ClientTooOld minor, ge_mnum = ra_nmsg acc \<rparr>, skip_refused n acc)
     else if n mod 8 \<noteq> 0
     then Some (TearDown (Some \<lparr> ge_hdr = hdr, ge_status = ECA_INTERNAL,
                  ge_diagnostic = Misaligned, ge_mnum = ra_nmsg acc \<rparr>) MisalignedPayload, acc)
     else if actual_postsize hdr > ra_body_ceiling acc
     then Some (Refuse \<lparr> ge_hdr = hdr, ge_status = ECA_TOLARGE,
                  ge_diagnostic = RequestTooLarge (ra_body_ceiling acc), ge_mnum = ra_nmsg acc \<rparr>,
                skip_refused n acc)
     else if n > length head then Some (NeedMore, compact acc)
     else
       let acc1 = acc \<lparr> ra_offset := ra_offset acc + n, ra_nmsg := ra_nmsg acc + 1 \<rparr> in
       if \<not> is_legal_tcp_command (cmmd hdr)
       then Some (TearDown (Some (bad_tcp_command hdr)) (IllegalTcpCommand (cmmd hdr)), acc1)
       else case admit_rate now acc1 of
         (Some g, acc2) \<Rightarrow> Some (g, acc2)
       | (None, acc2) \<Rightarrow> Some (Deliver hdr (drop hs (take n head)), acc2))"
proof -
  have in_range: "\<not> ra_offset acc > length (ra_buf acc)" "\<not> length head < 16"
    using off go(1) by simp_all
  have hs: "hs \<le> n" "n = hs + actual_postsize hdr" using len by (auto dest: message_len_Some)
  have slice: "drop (ra_offset acc + hs) (take (ra_offset acc + n) (ra_buf acc)) = drop hs (take n head)"
    by (simp add: head_def drop_take add.commute)
  have fits: "ra_offset acc + n > length (ra_buf acc) \<longleftrightarrow> n > length head"
    using off by (auto simp: head_def)
  have deliver: "(case admit_rate now acc1 of (None, acc2) \<Rightarrow>
        if ra_offset acc2 - n + hs \<le> ra_offset acc2 \<and> ra_offset acc2 \<le> length (ra_buf acc2)
        then Some (Deliver hdr (drop (ra_offset acc2 - n + hs) (take (ra_offset acc2) (ra_buf acc2))), acc2)
        else None
      | (Some g, acc2) \<Rightarrow> Some (g, acc2)) =
      (case admit_rate now acc1 of (None, acc2) \<Rightarrow> Some (Deliver hdr (drop hs (take n head)), acc2)
       | (Some g, acc2) \<Rightarrow> Some (g, acc2))"
    if "acc1 = acc \<lparr> ra_offset := ra_offset acc + n, ra_nmsg := ra_nmsg acc + 1 \<rparr>" "n \<le> length head" for acc1
  proof -
    obtain g acc2 where r: "admit_rate now acc1 = (g, acc2)" by fastforce
    from admit_rate_frame [OF r] that have "ra_offset acc2 = ra_offset acc + n" "ra_buf acc2 = ra_buf acc"
      by simp_all
    then show ?thesis
      using that(2) hs(1) fits by (simp add: r slice split: option.split)
  qed
  show ?thesis
    unfolding next_message_def head_def [symmetric] Let_def if_not_P [OF in_range(1)]
      if_not_P [OF in_range(2)] if_not_P [OF go(2)]
    using deliver [OF refl] by (auto simp: parsed len admits_body_def fits)
qed

lemma next_message_short:
  fixes acc :: recv_accumulator
  assumes "ra_offset acc \<le> length (ra_buf acc)"
  defines "head \<equiv> drop (ra_offset acc) (ra_buf acc)"
  assumes "length head < 16 \<or> (ca_v49 minor \<and> length head < 24 \<and> head ! 2 = 0xFF \<and> head ! 3 = 0xFF)"
  shows "next_message minor now acc = Some (NeedMore, compact acc)"
  using assms(1,3) by (auto simp: next_message_def Let_def head_def)

lemma next_message_ok:
  assumes off: "ra_offset acc \<le> length (ra_buf acc)"
  obtains g acc' where "next_message minor now acc = Some (g, acc')" "cursor_kept acc acc'"
    "continues g \<longrightarrow> ra_buf acc' = ra_buf acc \<and> ra_offset acc < ra_offset acc'"
    "g = NeedMore \<longrightarrow> acc' = compact acc"
proof -
  have ok: "cursor_kept acc acc" using off by (simp add: cursor_kept_def)
  define head where "head = drop (ra_offset acc) (ra_buf acc)"
  show thesis
  proof (cases "length head < 16 \<or> (ca_v49 minor \<and> length head < 24 \<and> head ! 2 = 0xFF \<and> head ! 3 = 0xFF)")
    case True
    from next_message_short [OF off, folded head_def, OF this] show thesis
      by (rule that) (use compact_kept [OF off] in simp_all)
  next
    case False
    then have go: "16 \<le> length head"
      "\<not> (ca_v49 minor \<and> length head < 24 \<and> head ! 2 = 0xFF \<and> head ! 3 = 0xFF)" by auto
    then obtain hdr hs where parsed: "ca_from_bytes_for_peer head minor = Inr (hdr, hs)"
      using for_peer_total by blast
    have room: "ra_offset acc + 16 \<le> length (ra_buf acc)" using go(1) off by (simp add: head_def)
    have in_range: "\<not> ra_offset acc > length (ra_buf acc)" "\<not> length head < 16" using off go(1) by simp_all
    show thesis
    proof (cases "message_len hs (actual_postsize hdr)")
      case None
      have "next_message minor now acc = Some (TearDown None (UnrepresentableLength (actual_postsize hdr)), acc)"
        unfolding next_message_def head_def [symmetric] Let_def if_not_P [OF in_range(1)]
          if_not_P [OF in_range(2)] if_not_P [OF go(2)] by (simp add: parsed None)
      then show thesis by (rule that) (use ok in simp_all)
    next
      case (Some n)
      note eq = next_message_framed [OF off, folded head_def, OF parsed Some go, of now]
      have n: "16 \<le> n" using Some from_bytes_for_peer_Inr [OF parsed] by (auto dest: message_len_Some)
      note skip = skip_refused_kept [OF room n]
      let ?old = "cmmd hdr \<noteq> CA_PROTO_VERSION \<and> minor < CA_MINIMUM_SUPPORTED_VERSION"
      let ?acc1 = "acc \<lparr> ra_offset := ra_offset acc + n, ra_nmsg := ra_nmsg acc + 1 \<rparr>"
      consider (old) ?old
        | (misaligned) "\<not> ?old" "n mod 8 \<noteq> 0"
        | (big) "\<not> ?old" "n mod 8 = 0" "actual_postsize hdr > ra_body_ceiling acc"
        | (wait) "\<not> ?old" "n mod 8 = 0" "\<not> actual_postsize hdr > ra_body_ceiling acc" "n > length head"
        | (whole) "\<not> ?old" "n mod 8 = 0" "\<not> actual_postsize hdr > ra_body_ceiling acc" "\<not> n > length head"
        by blast
      then show thesis
      proof cases
        case old
        then obtain e where "next_message minor now acc = Some (Refuse e, skip_refused n acc)" using eq by simp
        then show thesis by (rule that) (use skip in simp_all)
      next
        case misaligned
        then obtain e r where "next_message minor now acc = Some (TearDown e r, acc)" using eq by simp
        then show thesis by (rule that) (use ok in simp_all)
      next
        case big
        then obtain e where "next_message minor now acc = Some (Refuse e, skip_refused n acc)" using eq by simp
        then show thesis by (rule that) (use skip in simp_all)
      next
        case wait
        then have "next_message minor now acc = Some (NeedMore, compact acc)" using eq by simp
        then show thesis by (rule that) (use compact_kept [OF off] in simp_all)
      next
        case whole
        note eq = eq [unfolded if_not_P [OF whole(1)] if_not_P [OF whole(3)] if_not_P [OF whole(4)] Let_def]
        from whole have fits: "ra_offset acc + n \<le> length (ra_buf acc)" using off by (simp add: head_def)
        then have ok1: "cursor_kept acc ?acc1" by (simp add: cursor_kept_def)
        show thesis
        proof (cases "is_legal_tcp_command (cmmd hdr)")
          case False
          with whole obtain e r where "next_message minor now acc = Some (TearDown e r, ?acc1)"
            using eq by simp
          then show thesis by (rule that) (use ok1 in simp_all)
        next
          case True
          obtain og acc2 where rate: "admit_rate now ?acc1 = (og, acc2)" by fastforce
          from admit_rate_frame [OF rate] fits n have ok2: "cursor_kept acc acc2"
            "ra_buf acc2 = ra_buf acc" "ra_offset acc < ra_offset acc2"
            by (simp_all add: cursor_kept_def)
          have og: "og \<noteq> Some NeedMore"
            using rate by (auto simp: admit_rate_def Let_def case_prod_beta split: option.splits if_splits)
          show thesis
          proof (cases og)
            case None
            with True whole rate obtain h p where "next_message minor now acc = Some (Deliver h p, acc2)"
              using eq by simp
            then show thesis by (rule that) (use ok2 in simp_all)
          next
            case (Some g)
            with og have "g \<noteq> NeedMore" by simp
            from Some True whole rate have "next_message minor now acc = Some (g, acc2)"
              using eq by simp
            then show thesis by (rule that) (use ok2 \<open>g \<noteq> NeedMore\<close> in simp_all)
          qed
        qed
      qed
    qed
  qed
qed

lemma next_message_keeps:
  assumes "next_message minor now acc = Some (g, acc')"
  shows "ra_offset acc \<le> length (ra_buf acc) \<and> cursor_kept acc acc' \<and>
    (continues g \<longrightarrow> ra_buf acc' = ra_buf acc \<and> ra_offset acc < ra_offset acc') \<and>
    (g = NeedMore \<longrightarrow> acc' = compact acc)"
proof -
  have off: "ra_offset acc \<le> length (ra_buf acc)"
    using assms by (cases "ra_offset acc \<le> length (ra_buf acc)") (simp_all add: next_message_def)
  then show ?thesis
    by (rule next_message_ok [of acc minor now]) (use assms off in simp)
qed

section \<open>One pass over a read (blocking.rs)\<close>

text \<open>
  The parse loop of a receive pass.  \<open>clock k\<close> is the time of the \<open>k\<close>-th call,
  \<open>minor\<close> reads the peer's version off the circuit state and \<open>dispatch\<close> is the
  handler of a delivered message, whose failure (\<open>None\<close>) ends the circuit.  The
  result is the gates in order, with either the circuit state and the buffer to
  read into, or the end of the circuit.
\<close>

function parse_pass :: "('s \<Rightarrow> u16) \<Rightarrow> ('s \<Rightarrow> ca_header \<Rightarrow> byte list \<Rightarrow> 's option) \<Rightarrow> (nat \<Rightarrow> nat) \<Rightarrow> nat \<Rightarrow>
    's \<Rightarrow> recv_accumulator \<Rightarrow> (gate list \<times> ('s \<times> recv_accumulator) option) option" where
  "parse_pass minor dispatch clock k s acc =
     (case next_message (minor s) (clock k) acc of
        None \<Rightarrow> None
      | Some (g, acc') \<Rightarrow>
          if g = NeedMore then Some ([], Some (s, acc'))
          else if closes g then Some ([g], None)
          else (case dispatched dispatch s g of
                  None \<Rightarrow> Some ([g], None)
                | Some s' \<Rightarrow>
                    map_option (\<lambda>(gs, r). (g # gs, r)) (parse_pass minor dispatch clock (k + 1) s' acc')))"
  by pat_completeness auto
termination
proof (relation "measure (\<lambda>(_, _, _, _, _, acc). length (ra_buf acc) - ra_offset acc)", goal_cases)
  case (2 minor dispatch clock k s acc p g acc' s')
  then have "continues g" by (cases g) auto
  with 2 next_message_keeps [of "minor s" "clock k" acc g acc'] show ?case
    by (auto simp: cursor_kept_def)
qed simp

declare parse_pass.simps [simp del]

text \<open>A read: the drain and the ceiling first, then the parse loop.\<close>

definition serve_read :: "('s \<Rightarrow> u16) \<Rightarrow> ('s \<Rightarrow> ca_header \<Rightarrow> byte list \<Rightarrow> 's option) \<Rightarrow> (nat \<Rightarrow> nat) \<Rightarrow>
    's \<Rightarrow> recv_accumulator \<Rightarrow> byte list \<Rightarrow> (gate list \<times> ('s \<times> recv_accumulator) option) option" where
  "serve_read minor dispatch clock s acc chunk =
     (case accept chunk acc of
        (Parse, acc) \<Rightarrow> parse_pass minor dispatch clock 0 s acc
      | (Draining, acc) \<Rightarrow> Some ([], Some (s, acc))
      | (Overflow cap, acc) \<Rightarrow> Some ([], None))"

text \<open>
  The receive loop: one entry for each read that returns bytes, with the times of
  the calls its pass makes.  Where the loop ends for another reason (the end of the
  stream, a socket error, the idle timeout) no further read follows.
\<close>

fun serve_reads :: "('s \<Rightarrow> u16) \<Rightarrow> ('s \<Rightarrow> ca_header \<Rightarrow> byte list \<Rightarrow> 's option) \<Rightarrow>
    ('s \<times> recv_accumulator) option \<Rightarrow> ((nat \<Rightarrow> nat) \<times> byte list) list \<Rightarrow>
    (gate list \<times> ('s \<times> recv_accumulator) option) option" where
  "serve_reads minor dispatch r [] = Some ([], r)"
| "serve_reads minor dispatch None (read # reads) = Some ([], None)"
| "serve_reads minor dispatch (Some (s, acc)) ((clock, chunk) # reads) =
     (case serve_read minor dispatch clock s acc chunk of
        None \<Rightarrow> None
      | Some (gs, r) \<Rightarrow>
          map_option (\<lambda>(gs', r'). (gs @ gs', r')) (serve_reads minor dispatch r reads))"

section \<open>Lemmas: the pass\<close>

text \<open>Every call finishes without a panic and keeps the invariant.\<close>

definition pass_ok :: "nat \<Rightarrow> (gate list \<times> ('s \<times> recv_accumulator) option) option \<Rightarrow> bool" where
  "pass_ok ceiling r \<longleftrightarrow>
     (case r of
        None \<Rightarrow> False
      | Some (gs, None) \<Rightarrow> True
      | Some (gs, Some (s, acc)) \<Rightarrow> recv_ok acc \<and> ra_body_ceiling acc = ceiling)"

lemma parse_pass_ok:
  "recv_ok acc \<Longrightarrow> pass_ok (ra_body_ceiling acc) (parse_pass minor dispatch clock k s acc)"
proof (induction minor dispatch clock k s acc rule: parse_pass.induct)
  case (1 minor dispatch clock k s acc)
  have off: "ra_offset acc \<le> length (ra_buf acc)" using "1.prems" by (simp add: recv_ok_def)
  obtain g acc' where nm: "next_message (minor s) (clock k) acc = Some (g, acc')"
    "cursor_kept acc acc'" by (rule next_message_ok [OF off])
  have ok': "recv_ok acc'" "ra_body_ceiling acc' = ra_body_ceiling acc"
    using cursor_kept_ok [OF "1.prems" nm(2)] nm(2) by (simp_all add: cursor_kept_def)
  show ?case
  proof (cases "g = NeedMore \<or> ends dispatch s g")
    case True
    with ok' show ?thesis
      by (subst parse_pass.simps) (auto simp: nm(1) pass_ok_def ends_def split: option.splits)
  next
    case False
    then obtain s' where g: "g \<noteq> NeedMore" "\<not> closes g" "dispatched dispatch s g = Some s'"
      by (auto simp: ends_def)
    from "1.IH" [OF nm(1) refl g] ok'
    have "pass_ok (ra_body_ceiling acc) (parse_pass minor dispatch clock (k + 1) s' acc')" by simp
    with g show ?thesis
      by (subst parse_pass.simps) (auto simp: nm(1) pass_ok_def split: option.splits)
  qed
qed

lemma serve_read_ok:
  assumes "recv_ok acc"
  shows "pass_ok (ra_body_ceiling acc) (serve_read minor dispatch clock s acc chunk)"
proof -
  obtain a acc' where acc: "accept chunk acc = (a, acc')" by fastforce
  with accept_ok [OF assms, of chunk] have ok: "recv_ok acc'" "ra_body_ceiling acc' = ra_body_ceiling acc"
    by simp_all
  with parse_pass_ok [of acc' minor dispatch clock 0 s] show ?thesis
    by (cases a) (simp_all add: serve_read_def acc pass_ok_def)
qed

lemma serve_reads_ok:
  assumes "recv_ok acc"
  shows "pass_ok (ra_body_ceiling acc) (serve_reads minor dispatch (Some (s, acc)) reads)"
  using assms
proof (induction reads arbitrary: s acc)
  case Nil
  then show ?case by (simp add: pass_ok_def)
next
  case (Cons rd reads)
  obtain clock chunk where rd: "rd = (clock, chunk)" by fastforce
  have "pass_ok (ra_body_ceiling acc) (serve_read minor dispatch clock s acc chunk)"
    using Cons.prems by (rule serve_read_ok)
  then obtain gs r where sr: "serve_read minor dispatch clock s acc chunk = Some (gs, r)"
    and r: "\<And>s' acc'. r = Some (s', acc') \<Longrightarrow> recv_ok acc' \<and> ra_body_ceiling acc' = ra_body_ceiling acc"
    by (auto simp: pass_ok_def split: option.splits)
  show ?case
  proof (cases r)
    case None
    then show ?thesis by (cases reads) (simp_all add: rd sr pass_ok_def)
  next
    case (Some p)
    then obtain s' acc' where p: "r = Some (s', acc')" by (cases p) auto
    from Cons.IH [of acc' s'] r [OF p]
    have "pass_ok (ra_body_ceiling acc) (serve_reads minor dispatch (Some (s', acc')) reads)" by simp
    then show ?thesis by (auto simp: rd sr p pass_ok_def split: option.splits)
  qed
qed

section \<open>Refinement: the pass implements the stream specification\<close>

lemma ca_gate_decides: "ca_gate ceiling minor bs = Some (g, n) \<Longrightarrow> g \<noteq> NeedMore"
  by (cases rule: ca_gate_cases [of ceiling minor bs]) (auto simp: ca_gate_framed split: if_splits)

lemma erase_mnum_simps [simp]:
  "closes (erase_mnum g) = closes g" "erase_mnum g = NeedMore \<longleftrightarrow> g = NeedMore"
  "dispatched dispatch s (erase_mnum g) = dispatched dispatch s g"
  by (cases g rule: erase_mnum.cases; simp)+

lemma ends_erase_mnum [simp]: "ends dispatch s (erase_mnum g) = ends dispatch s g"
  by (simp add: ends_def)

text \<open>The buffer between two reads is the state of the abstract receiver.\<close>

fun represents :: "nat \<Rightarrow> ('s \<times> recv_accumulator) option \<Rightarrow> 's feed_state \<Rightarrow> bool" where
  "represents ceiling None Closed = True"
| "represents ceiling (Some (s, acc)) (Feed s' owed held) =
     (s = s' \<and> recv_ok acc \<and> ra_rate acc = None \<and> ra_body_ceiling acc = ceiling \<and>
      ra_offset acc = 0 \<and> ra_buf acc = held \<and> ra_to_drain acc = owed \<and> (owed > 0 \<longrightarrow> held = []) \<and>
      length held < ceiling + 24)"
| "represents ceiling _ _ = False"

definition pass_spec :: "('s \<Rightarrow> u16) \<Rightarrow> ('s \<Rightarrow> ca_header \<Rightarrow> byte list \<Rightarrow> 's option) \<Rightarrow> 's \<Rightarrow> recv_accumulator \<Rightarrow>
    gate list \<times> 's feed_state" where
  "pass_spec minor dispatch s acc =
     (if ra_to_drain acc > 0 then ([], Feed s (ra_to_drain acc) [])
      else scan (ca_gates (ra_body_ceiling acc) minor) (ends dispatch) (after_gate dispatch) s
        (drop (ra_offset acc) (ra_buf acc)))"

lemma parse_pass_refines:
  assumes "recv_ok acc" "ra_rate acc = None" "ra_to_drain acc > 0 \<longrightarrow> ra_offset acc = length (ra_buf acc)"
  shows "\<exists>gs r. parse_pass minor dispatch clock k s acc = Some (gs, r) \<and>
    map erase_mnum gs = fst (pass_spec minor dispatch s acc) \<and>
    represents (ra_body_ceiling acc) r (snd (pass_spec minor dispatch s acc))"
  using assms
proof (induction minor dispatch clock k s acc rule: parse_pass.induct)
  case (1 minor dispatch clock k s acc)
  let ?ceil = "ra_body_ceiling acc"
  let ?head = "drop (ra_offset acc) (ra_buf acc)"
  have off: "ra_offset acc \<le> length (ra_buf acc)" using "1.prems"(1) by (simp add: recv_ok_def)
  have comp: "represents ?ceil (Some (s, compact acc)) (Feed s (ra_to_drain acc) ?head)"
    if "ca_gate ?ceil (minor s) ?head = None"
    using "1.prems" off ca_gate_held [OF that] cursor_kept_ok [OF "1.prems"(1) compact_kept [OF off]]
    by (simp add: compact_eq)
  note ref = next_message_refines [OF off "1.prems"(2), of "minor s" "clock k"]
  show ?case
  proof (cases "ca_gate ?ceil (minor s) ?head")
    case None
    with ref have "parse_pass minor dispatch clock k s acc = Some ([], Some (s, compact acc))"
      by (subst parse_pass.simps) simp
    with None comp "1.prems"(3) show ?thesis
      by (auto simp: pass_spec_def ca_framer.scan_None [where minor = minor and s = s])
  next
    case (Some gn)
    then obtain g n where gn: "ca_gate ?ceil (minor s) ?head = Some (g, n)" by (cases gn) auto
    have "length ?head \<ge> 16"
      using gn by (rule contrapos_pp) (simp add: ca_gate_def)
    then have drain0: "ra_to_drain acc = 0" using "1.prems"(3) by auto
    from ref gn obtain g' acc' where nm: "next_message (minor s) (clock k) acc = Some (g', acc')"
      and g': "erase_mnum g' = g"
      and acc': "\<not> closes g \<longrightarrow> acc' = acc \<lparr> ra_offset := min (ra_offset acc + n) (length (ra_buf acc)),
           ra_to_drain := (if n > length ?head then n - length ?head else ra_to_drain acc),
           ra_nmsg := ra_nmsg acc' \<rparr>"
      by auto
    have nn: "g' \<noteq> NeedMore" using ca_gate_decides [OF gn] g' by auto
    have cl: "closes g' = closes g" using g' by auto
    have upd: "dispatched dispatch s g' = dispatched dispatch s g" using g' by auto
    show ?thesis
    proof (cases "ends dispatch s g")
      case True
      then have "parse_pass minor dispatch clock k s acc = Some ([g'], None)"
        using nm nn cl upd by (subst parse_pass.simps) (auto simp: ends_def)
      with True drain0 g' show ?thesis by (simp add: pass_spec_def ca_framer.scan_stop [where minor = minor and s = s, OF gn])
    next
      case False
      then obtain s' where s': "dispatched dispatch s g = Some s'" "dispatched dispatch s g' = Some s'"
          "after_gate dispatch s g = s'"
        using upd by (auto simp: ends_def after_gate_def)
      have op: "\<not> closes g" "\<not> closes g'" using False cl by (auto simp: ends_def)
      obtain m where acc'_eq: "acc' = acc \<lparr> ra_offset := min (ra_offset acc + n) (length (ra_buf acc)),
           ra_to_drain := (if n > length ?head then n - length ?head else 0), ra_nmsg := m \<rparr>"
        using acc' op(1) drain0 by metis
      have ok': "recv_ok acc'"
        using next_message_keeps [OF nm] cursor_kept_ok [OF "1.prems"(1)] by blast
      have "ra_rate acc' = None" "ra_to_drain acc' > 0 \<longrightarrow> ra_offset acc' = length (ra_buf acc')"
        using "1.prems"(2) by (auto simp: acc'_eq)
      from "1.IH" [OF nm refl nn op(2) s'(2) ok' this]
      obtain gs r where IH: "parse_pass minor dispatch clock (k + 1) s' acc' = Some (gs, r)"
        "map erase_mnum gs = fst (pass_spec minor dispatch s' acc')"
        "represents (ra_body_ceiling acc') r (snd (pass_spec minor dispatch s' acc'))"
        by blast
      have step: "parse_pass minor dispatch clock k s acc = Some (g' # gs, r)"
        using nm nn op s'(2) IH(1) by (subst parse_pass.simps) simp
      have spec: "pass_spec minor dispatch s acc =
          (g # fst (pass_spec minor dispatch s' acc'),
           snd (pass_spec minor dispatch s' acc'))"
      proof (cases "n \<le> length ?head")
        case True
        then have "drop (min (ra_offset acc + n) (length (ra_buf acc))) (ra_buf acc) = drop n ?head"
          using off by (simp add: add.commute)
        with True False drain0 show ?thesis
          by (simp add: pass_spec_def acc'_eq s'(3) ca_framer.scan_Some [where minor = minor and s = s, OF gn])
      next
        case n: False
        with False drain0 show ?thesis
          by (simp add: pass_spec_def acc'_eq s'(3) ca_framer.scan_short [where minor = minor and s = s, OF gn])
      qed
      from IH(2,3) g' show ?thesis
        unfolding step spec by (simp add: acc'_eq)
    qed
  qed
qed

lemma serve_read_refines:
  assumes rep: "represents ceiling (Some (s, acc)) st" and small: "length chunk \<le> 64 * 1024"
  shows "\<exists>gs r. serve_read minor dispatch clock s acc chunk = Some (gs, r) \<and>
    map erase_mnum gs = fst (feed (ca_gates ceiling minor) (ends dispatch) (after_gate dispatch) st chunk) \<and>
    represents ceiling r (snd (feed (ca_gates ceiling minor) (ends dispatch) (after_gate dispatch) st chunk))"
proof -
  obtain owed held where st: "st = Feed s owed held" using rep by (cases st) auto
  from rep have acc: "recv_ok acc" "ra_rate acc = None" "ra_body_ceiling acc = ceiling"
    "ra_offset acc = 0" "ra_buf acc = held" "ra_to_drain acc = owed" "owed > 0 \<longrightarrow> held = []"
    "length held < ceiling + 24"
    by (simp_all add: st)
  show ?thesis
  proof (cases rule: accept_cases [OF acc(1), of chunk])
    case 1
    then show ?thesis
      using rep by (simp add: serve_read_def feed_def st acc recv_ok_def)
  next
    case 2
    then show ?thesis using acc small by simp
  next
    case 3
    let ?acc = "acc \<lparr> ra_nmsg := 0, ra_to_drain := 0, ra_buf := ra_buf acc @ drop (ra_to_drain acc) chunk \<rparr>"
    have ok: "recv_ok ?acc" using accept_ok [OF acc(1), of chunk] by (simp add: 3)
    have "pass_spec minor dispatch s ?acc =
        feed (ca_gates ceiling minor) (ends dispatch) (after_gate dispatch) st chunk"
      using 3(1) by (simp add: pass_spec_def feed_def st acc)
    with parse_pass_refines [OF ok, of minor dispatch clock 0 s] 3(3) acc show ?thesis
      by (simp add: serve_read_def)
  qed
qed

lemma serve_reads_refines:
  assumes "represents ceiling (Some (s, acc)) st" "list_all (\<lambda>(_, c). length c \<le> 64 * 1024) reads"
  shows "\<exists>gs r. serve_reads minor dispatch (Some (s, acc)) reads = Some (gs, r) \<and>
    map erase_mnum gs = fst (feeds (ca_gates ceiling minor) (ends dispatch) (after_gate dispatch) st (map snd reads)) \<and>
    represents ceiling r (snd (feeds (ca_gates ceiling minor) (ends dispatch) (after_gate dispatch) st (map snd reads)))"
  using assms
proof (induction reads arbitrary: s acc st)
  case Nil
  then show ?case by simp
next
  case (Cons rd reads)
  obtain clock chunk where rd: "rd = (clock, chunk)" by fastforce
  let ?feed = "feed (ca_gates ceiling minor) (ends dispatch) (after_gate dispatch)"
  let ?feeds = "feeds (ca_gates ceiling minor) (ends dispatch) (after_gate dispatch)"
  have small: "length chunk \<le> 64 * 1024" "list_all (\<lambda>(_, c). length c \<le> 64 * 1024) reads"
    using Cons.prems(2) by (simp_all add: rd)
  obtain gs r where one: "serve_read minor dispatch clock s acc chunk = Some (gs, r)"
    "map erase_mnum gs = fst (?feed st chunk)" "represents ceiling r (snd (?feed st chunk))"
    using serve_read_refines [OF Cons.prems(1) small(1)] by blast
  show ?case
  proof (cases r)
    case None
    then have "snd (?feed st chunk) = Closed" using one(3) by (cases "snd (?feed st chunk)") auto
    moreover have "?feeds Closed segs = ([], Closed)" for segs
      by (induction segs) (simp_all add: feed_def)
    moreover have "serve_reads minor dispatch None reads = Some ([], None)"
      by (cases reads) simp_all
    ultimately show ?thesis
      using one(1,2) None by (simp add: rd case_prod_beta Let_def)
  next
    case (Some p)
    then obtain s' acc' where p: "r = Some (s', acc')" by (cases p) auto
    obtain gs' r' where rest: "serve_reads minor dispatch (Some (s', acc')) reads = Some (gs', r')"
      "map erase_mnum gs' = fst (?feeds (snd (?feed st chunk)) (map snd reads))"
      "represents ceiling r' (snd (?feeds (snd (?feed st chunk)) (map snd reads)))"
      using Cons.IH [OF one(3) [unfolded p] small(2)] by blast
    then show ?thesis
      using one(1,2) by (simp add: rd p case_prod_beta Let_def)
  qed
qed

lemma serve_stream:
  assumes "ceiling + 24 + 64 * 1024 < usize_max" "rate_limit_build cfg = None"
    "list_all (\<lambda>(_, c). length c \<le> 64 * 1024) reads"
  shows "\<exists>gs r. serve_reads minor dispatch (Some (s, with_rate_limit ceiling cfg)) reads = Some (gs, r) \<and>
    map erase_mnum gs = fst (scan (ca_gates ceiling minor) (ends dispatch) (after_gate dispatch) s (concat (map snd reads))) \<and>
    represents ceiling r
      (snd (scan (ca_gates ceiling minor) (ends dispatch) (after_gate dispatch) s (concat (map snd reads))))"
proof -
  have "ca_gate ceiling (minor s) [] = None" by (simp add: ca_gate_def)
  then have "scan (ca_gates ceiling minor) (ends dispatch) (after_gate dispatch) s [] = ([], Feed s 0 [])"
    by (rule ca_framer.scan_None [where minor = minor and s = s])
  then have "scan (ca_gates ceiling minor) (ends dispatch) (after_gate dispatch) s (concat (map snd reads)) =
      feeds (ca_gates ceiling minor) (ends dispatch) (after_gate dispatch) (Feed s 0 []) (map snd reads)"
    using ca_framer.feeds_scan [of ceiling minor dispatch s "[]" "map snd reads"] by simp
  moreover have "represents ceiling (Some (s, with_rate_limit ceiling cfg)) (Feed s 0 [])"
    using assms(1,2) by (simp add: with_rate_limit_def recv_ok_def)
  ultimately show ?thesis
    using serve_reads_refines [OF _ assms(3)] by metis
qed

section \<open>Lemmas: the token bucket\<close>

text \<open>
  Millitokens plus what has been granted never exceed the initial burst plus the
  refill of the elapsed time (in units of a millionth of a token).
\<close>

definition bucket_ok :: "nat \<Rightarrow> rate_limiter \<Rightarrow> bool" where
  "bucket_ok granted rl \<longleftrightarrow>
     rl_millitokens rl \<le> rl_capacity rl * 1000 \<and>
     1000 * rl_millitokens rl + 1000000 * granted \<le>
       1000000 * rl_capacity rl + rl_refill_per_sec rl * rl_last_refill_micros rl"

lemma bucket_ok_new: "bucket_ok 0 (rate_limiter_new capacity rate)"
  by (auto simp: bucket_ok_def rate_limiter_new_def sat_mul_def)

lemma refill_frame [simp]:
  "rl_capacity (refill now rl) = rl_capacity rl" "rl_refill_per_sec (refill now rl) = rl_refill_per_sec rl"
  by (simp_all add: refill_def Let_def)

lemma refill_last: "rl_last_refill_micros rl \<le> now \<Longrightarrow> rl_last_refill_micros (refill now rl) \<le> now"
  by (simp add: refill_def Let_def)

lemma refill_ok:
  assumes "bucket_ok granted rl"
  shows "bucket_ok granted (refill now rl)"
proof (cases "now \<le> rl_last_refill_micros rl \<or>
    sat_mul (rl_refill_per_sec rl) (now - rl_last_refill_micros rl) div 1000 = 0")
  case True
  then have "refill now rl = rl" by (auto simp: refill_def Let_def)
  with assms show ?thesis by simp
next
  case False
  let ?rate = "rl_refill_per_sec rl" and ?prev = "rl_last_refill_micros rl"
  let ?added = "sat_mul ?rate (now - ?prev) div 1000"
  have "1000 * ?added \<le> ?rate * (now - ?prev)"
    by (simp add: sat_mul_def min_def) (metis le_trans nat_le_linear times_div_less_eq_dividend)
  moreover have "?rate * now = ?rate * ?prev + ?rate * (now - ?prev)"
    using False by (simp add: diff_mult_distrib2)
  moreover have "rl_millitokens (refill now rl) \<le> rl_millitokens rl + ?added"
    "rl_millitokens (refill now rl) \<le> rl_capacity rl * 1000" "rl_last_refill_micros (refill now rl) = now"
    using False sat_add_le [of "rl_millitokens rl" ?added]
    by (auto simp: refill_def Let_def sat_mul_def [of "rl_capacity rl"] min.coboundedI1 min.coboundedI2)
  ultimately show ?thesis
    using assms by (simp add: bucket_ok_def)
qed

lemma try_acquire_ok:
  assumes "bucket_ok granted rl" "try_acquire now rl = (ok, rl')" "rate_enabled rl"
  shows "bucket_ok (if ok then granted + 1 else granted) rl' \<and> rl_capacity rl' = rl_capacity rl \<and>
    rl_refill_per_sec rl' = rl_refill_per_sec rl \<and>
    (rl_last_refill_micros rl \<le> now \<longrightarrow> rl_last_refill_micros rl' \<le> now)"
  using assms refill_ok [OF assms(1), of now] refill_last [of rl now]
  by (auto simp: try_acquire_def bucket_ok_def Let_def split: if_splits)

text \<open>The tokens granted to requests at the given times.\<close>

primrec grants :: "rate_limiter \<Rightarrow> nat list \<Rightarrow> nat" where
  "grants rl [] = 0"
| "grants rl (t # ts) = (let (ok, rl') = try_acquire t rl in (if ok then 1 else 0) + grants rl' ts)"

lemma grants_bound:
  assumes "bucket_ok granted rl" "rate_enabled rl" "rl_last_refill_micros rl \<le> now" "\<forall>t \<in> set ts. t \<le> now"
  shows "1000000 * (granted + grants rl ts) \<le> 1000000 * rl_capacity rl + rl_refill_per_sec rl * now"
  using assms
proof (induction ts arbitrary: granted rl)
  case Nil
  have "rl_refill_per_sec rl * rl_last_refill_micros rl \<le> rl_refill_per_sec rl * now"
    using Nil.prems(3) by (rule mult_le_mono2)
  moreover have "1000 * rl_millitokens rl + 1000000 * granted \<le>
       1000000 * rl_capacity rl + rl_refill_per_sec rl * rl_last_refill_micros rl"
    using Nil.prems(1) by (simp add: bucket_ok_def)
  ultimately have "1000000 * granted \<le> 1000000 * rl_capacity rl + rl_refill_per_sec rl * now"
    by linarith
  then show ?case by simp
next
  case (Cons t ts)
  obtain ok rl' where acq: "try_acquire t rl = (ok, rl')" by fastforce
  have t: "t \<le> now" using Cons.prems(4) by simp
  from try_acquire_ok [OF Cons.prems(1) acq Cons.prems(2)]
  have rl': "bucket_ok (if ok then granted + 1 else granted) rl'" "rl_capacity rl' = rl_capacity rl"
    "rl_refill_per_sec rl' = rl_refill_per_sec rl" by simp_all
  have "rl_last_refill_micros rl' \<le> now"
    using acq Cons.prems(3) t
    by (auto simp: try_acquire_def refill_def Let_def split: if_splits)
  from Cons.IH [OF rl'(1) _ this] rl' Cons.prems(2,4) acq show ?case
    by (simp add: rate_enabled_def split: if_splits)
qed

section \<open>A client's put frame at the server's gate\<close>

lemma put_frame_gate:
  assumes frame: "build_put_frame cmd sid dtype cnt ioid payload peer_minor = Inr frame"
    and body: "put_body dtype cnt payload = Inr body"
    and limits: "length payload < 2 ^ 31" "align8 (length body) \<le> ceiling"
    and server: "ca_v49 minor" "is_legal_tcp_command cmd"
  shows "\<exists>hdr. ca_gate ceiling minor (frame @ rest) =
      Some (Deliver hdr (resize0 (align8 (length body)) body), length frame) \<and>
    cmmd hdr = cmd \<and> cid hdr = sid \<and> data_type hdr = dtype \<and> actual_count hdr = cnt \<and>
    available hdr = (case ioid of None \<Rightarrow> 0 | Some i \<Rightarrow> i)"
proof -
  obtain hdr body' where b': "put_body dtype cnt payload = Inr body'"
    and f: "frame = ca_to_bytes_extended hdr @ resize0 (align8 (length body')) body'"
    and h: "wf_ca_header hdr" "cmmd hdr = cmd" "data_type hdr = dtype" "cid hdr = sid"
      "actual_count hdr = cnt" "available hdr = (case ioid of None \<Rightarrow> 0 | Some i \<Rightarrow> i)"
      "actual_postsize hdr = align8 (length body')"
    by (rule build_put_frame_parts [OF frame limits(1)])
  have [simp]: "body' = body" using b' body by simp
  let ?hs = "length (ca_to_bytes_extended hdr)" and ?pad = "resize0 (align8 (length body)) body"
  have hs: "?hs = 16 \<or> ?hs = 24" by (simp add: length_ca_to_bytes_extended)
  have len: "length body + 7 \<le> usize_max" "length body < 2 ^ 31"
    using put_body_length [OF body] limits(1) by (simp_all add: usize_max_def)
  note al = align8_spec [OF len(1)]
  have parse: "ca_from_bytes_for_peer (frame @ rest) minor = Inr (hdr, ?hs)"
    using server(1) h(1) ca_from_bytes_extended_roundtrip [of hdr "?pad @ rest"]
    by (simp add: ca_from_bytes_for_peer_def f)
  have n: "message_len ?hs (actual_postsize hdr) = Some (length frame)"
    using al(2) len(2) by (simp add: message_len_def EXTENDED_EXTRA_def h(7) f)
  have aligned: "length frame mod 8 = 0" using al(3) hs by (auto simp: f mod_add_eq)
  have long: "16 \<le> length (frame @ rest)" using hs by (auto simp: f)
  have complete: "\<not> (ca_v49 minor \<and> length (frame @ rest) < 24 \<and> (frame @ rest) ! 2 = 0xFF \<and> (frame @ rest) ! 3 = 0xFF)"
  proof
    assume partial: "ca_v49 minor \<and> length (frame @ rest) < 24 \<and> (frame @ rest) ! 2 = 0xFF \<and> (frame @ rest) ! 3 = 0xFF"
    then have "ca_gate ceiling minor (frame @ rest) = None" by (auto simp: ca_gate_def)
    from partial have "?hs = 16" using hs by (auto simp: f)
    then have "\<not> is_extended hdr" by (simp add: length_ca_to_bytes_extended split: if_splits)
    then have ps: "postsize hdr \<noteq> 0xFFFF" using h(1) by (auto simp: wf_ca_header_def is_extended_def)
    have "take 2 (drop 2 (frame @ rest)) = be_bytes 2 (postsize hdr)"
      using \<open>\<not> is_extended hdr\<close> by (simp add: f ca_to_bytes_extended_def ca_to_bytes_def)
    moreover have "take 2 (drop 2 (frame @ rest)) = [(frame @ rest) ! 2, (frame @ rest) ! 3]"
      using long by (rule postsize_bytes)
    ultimately have "be_bytes 2 (postsize hdr) = [0xFF, 0xFF]" using partial by simp
    moreover have "be_bytes 2 (0xFFFF :: u16) = [0xFF, 0xFF]" by code_simp
    ultimately have "of_be_bytes (be_bytes 2 (postsize hdr)) = (of_be_bytes (be_bytes 2 (0xFFFF :: u16)) :: u16)"
      by simp
    then show False using ps by (simp add: of_bytes_roundtrip)
  qed
  have "\<not> minor < CA_MINIMUM_SUPPORTED_VERSION"
    using server(1) by (auto simp: ca_v49_def CA_MINIMUM_SUPPORTED_VERSION_def word_less_nat_alt word_le_nat_alt)
  moreover have "drop ?hs (take (length frame) (frame @ rest)) = ?pad" by (simp add: f)
  ultimately have "ca_gate ceiling minor (frame @ rest) = Some (Deliver hdr ?pad, length frame)"
    using limits(2) server(2) aligned h(2,7)
    unfolding ca_gate_framed [OF parse n long complete] by simp
  with h show ?thesis by auto
qed

end
