(* ===== verification/Modbus_Protocol.thy ===== *)
theory Modbus_Protocol
  imports Epics_Prelude
begin

text \<open>
  Modbus protocol primitives: \<^verbatim>\<open>modbus-rs/src/error.rs\<close> and
  \<^verbatim>\<open>modbus-rs/src/protocol.rs\<close>.  Function and exception codes, the MBAP
  header, the request PDUs as the bytes they serialise to, and the parser of
  response PDUs.
\<close>

section \<open>Errors (error.rs)\<close>

datatype exception_code =
    IllegalFunction | IllegalDataAddress | IllegalDataValue | SlaveDeviceFailure | Acknowledge
  | SlaveDeviceBusy | MemoryParityError | GatewayPathUnavailable | GatewayTargetFailed
  | OtherException byte

definition exception_from_u8 :: "byte \<Rightarrow> exception_code" where
  "exception_from_u8 code =
     (case map_of [(0x01, IllegalFunction), (0x02, IllegalDataAddress), (0x03, IllegalDataValue),
        (0x04, SlaveDeviceFailure), (0x05, Acknowledge), (0x06, SlaveDeviceBusy),
        (0x08, MemoryParityError), (0x0A, GatewayPathUnavailable), (0x0B, GatewayTargetFailed)] code of
        Some e \<Rightarrow> e | None \<Rightarrow> OtherException code)"

fun exception_as_u8 :: "exception_code \<Rightarrow> byte" where
  "exception_as_u8 IllegalFunction = 0x01"
| "exception_as_u8 IllegalDataAddress = 0x02"
| "exception_as_u8 IllegalDataValue = 0x03"
| "exception_as_u8 SlaveDeviceFailure = 0x04"
| "exception_as_u8 Acknowledge = 0x05"
| "exception_as_u8 SlaveDeviceBusy = 0x06"
| "exception_as_u8 MemoryParityError = 0x08"
| "exception_as_u8 GatewayPathUnavailable = 0x0A"
| "exception_as_u8 GatewayTargetFailed = 0x0B"
| "exception_as_u8 (OtherException c) = c"

datatype io_status = IoError | IoOverflow | IoDisconnected | IoDisabled

text \<open>Texts are dropped; the numbers they are formatted from are kept.\<close>

datatype modbus_error =
    ModbusException exception_code
  | FrameTooShort nat nat
  | FrameTooLarge nat
  | MalformedResponse nat nat
  | WordCount nat nat
  | CrcError
  | LrcError byte byte
  | MissingAsciiMarker
  | FunctionMismatch byte byte
  | OffsetOutOfRange int int
  | InvalidFunction int
  | PollNotValidInAbsoluteMode
  | Io io_status
  | Timeout
  | Exiting

section \<open>Constants and function codes (protocol.rs)\<close>

definition MAX_MODBUS_FRAME_SIZE :: nat where "MAX_MODBUS_FRAME_SIZE = 600"
definition MODBUS_EXCEPTION_FCN :: byte where "MODBUS_EXCEPTION_FCN = 0x80"
definition MBAP_HEADER_SIZE :: nat where "MBAP_HEADER_SIZE = 6"
definition MODBUS_PROTOCOL_ID :: u16 where "MODBUS_PROTOCOL_ID = 0"
definition MBAP_MIN_CMD_LENGTH :: nat where "MBAP_MIN_CMD_LENGTH = 2"

datatype function_code =
    ReadCoils | ReadDiscreteInputs | ReadHoldingRegisters | ReadInputRegisters | WriteSingleCoil
  | WriteSingleRegister | WriteMultipleCoils | WriteMultipleRegisters | ReportSlaveId
  | ReadWriteMultipleRegisters

fun fcode_as_u8 :: "function_code \<Rightarrow> byte" where
  "fcode_as_u8 ReadCoils = 0x01"
| "fcode_as_u8 ReadDiscreteInputs = 0x02"
| "fcode_as_u8 ReadHoldingRegisters = 0x03"
| "fcode_as_u8 ReadInputRegisters = 0x04"
| "fcode_as_u8 WriteSingleCoil = 0x05"
| "fcode_as_u8 WriteSingleRegister = 0x06"
| "fcode_as_u8 WriteMultipleCoils = 0x0F"
| "fcode_as_u8 WriteMultipleRegisters = 0x10"
| "fcode_as_u8 ReportSlaveId = 0x11"
| "fcode_as_u8 ReadWriteMultipleRegisters = 0x17"

definition fcode_from_u8 :: "byte \<Rightarrow> function_code option" where
  "fcode_from_u8 code =
     map_of [(0x01, ReadCoils), (0x02, ReadDiscreteInputs), (0x03, ReadHoldingRegisters),
       (0x04, ReadInputRegisters), (0x05, WriteSingleCoil), (0x06, WriteSingleRegister),
       (0x0F, WriteMultipleCoils), (0x10, WriteMultipleRegisters), (0x11, ReportSlaveId),
       (0x17, ReadWriteMultipleRegisters)] code"

definition is_bit_function :: "function_code \<Rightarrow> bool" where
  "is_bit_function f \<longleftrightarrow> f \<in> {ReadCoils, ReadDiscreteInputs, WriteSingleCoil, WriteMultipleCoils}"

definition fcode_is_read :: "function_code \<Rightarrow> bool" where
  "fcode_is_read f \<longleftrightarrow> f \<in> {ReadCoils, ReadDiscreteInputs, ReadHoldingRegisters, ReadInputRegisters,
     ReportSlaveId, ReadWriteMultipleRegisters}"

definition fcode_is_write :: "function_code \<Rightarrow> bool" where
  "fcode_is_write f \<longleftrightarrow> f \<in> {WriteSingleCoil, WriteSingleRegister, WriteMultipleCoils,
     WriteMultipleRegisters, ReadWriteMultipleRegisters}"

section \<open>MBAP header\<close>

record mbap_header =
  mb_transaction_id :: u16
  mb_protocol_type :: u16
  mb_cmd_length :: u16

definition mbap_new :: "u16 \<Rightarrow> u16 \<Rightarrow> mbap_header" where
  "mbap_new tid len = \<lparr> mb_transaction_id = tid, mb_protocol_type = 0, mb_cmd_length = len \<rparr>"

definition mbap_to_bytes :: "mbap_header \<Rightarrow> byte list" where
  "mbap_to_bytes h =
     be_bytes 2 (mb_transaction_id h) @ be_bytes 2 (mb_protocol_type h) @ be_bytes 2 (mb_cmd_length h)"

definition mbap_from_bytes :: "byte list \<Rightarrow> modbus_error + mbap_header" where
  "mbap_from_bytes b =
     (if length b < MBAP_HEADER_SIZE then Inl (FrameTooShort (length b) MBAP_HEADER_SIZE)
      else Inr \<lparr> mb_transaction_id = of_be_bytes (take 2 b),
             mb_protocol_type = of_be_bytes (take 2 (drop 2 b)),
             mb_cmd_length = of_be_bytes (take 2 (drop 4 b)) \<rparr>)"

section \<open>Request PDUs\<close>

text \<open>
  Counts are narrowed with \<^verbatim>\<open>as\<close>, that is modulo the width.  A write of coils
  allocates as many data bytes as the narrowed byte count says and indexes it by
  the coil number; \<open>None\<close> is the panic of an index out of range.
\<close>

definition pdu_read :: "byte \<Rightarrow> function_code \<Rightarrow> u16 \<Rightarrow> u16 \<Rightarrow> byte list" where
  "pdu_read slave f start_reg cnt = [slave, fcode_as_u8 f] @ be_bytes 2 start_reg @ be_bytes 2 cnt"

definition pdu_write_single :: "byte \<Rightarrow> function_code \<Rightarrow> u16 \<Rightarrow> u16 \<Rightarrow> byte list" where
  "pdu_write_single slave f reg v = [slave, fcode_as_u8 f] @ be_bytes 2 reg @ be_bytes 2 v"

definition pdu_write_multiple_registers :: "byte \<Rightarrow> u16 \<Rightarrow> u16 list \<Rightarrow> byte list" where
  "pdu_write_multiple_registers slave start_reg vs =
     [slave, fcode_as_u8 WriteMultipleRegisters] @ be_bytes 2 start_reg @
     be_bytes 2 (of_nat (length vs) :: u16) @ [of_nat (length vs * 2)] @
     concat (map (be_bytes 2) vs)"

fun set_coils :: "byte list \<Rightarrow> nat \<Rightarrow> bool list \<Rightarrow> byte list option" where
  "set_coils dat i [] = Some dat"
| "set_coils dat i (False # cs) = set_coils dat (i + 1) cs"
| "set_coils dat i (True # cs) =
     (if i div 8 < length dat
      then set_coils (dat[i div 8 := dat ! (i div 8) OR push_bit (i mod 8) 1]) (i + 1) cs
      else None)"

definition pdu_write_multiple_coils :: "byte \<Rightarrow> u16 \<Rightarrow> bool list \<Rightarrow> byte list option" where
  "pdu_write_multiple_coils slave start_reg coils =
     (let byte_count = (of_nat ((length coils + 7) div 8) :: byte) in
      map_option (\<lambda>dat. [slave, fcode_as_u8 WriteMultipleCoils] @ be_bytes 2 start_reg @
          be_bytes 2 (of_nat (length coils) :: u16) @ [byte_count] @ dat)
        (set_coils (replicate (unat byte_count) 0) 0 coils))"

definition pdu_read_write_multiple_registers :: "byte \<Rightarrow> u16 \<Rightarrow> u16 \<Rightarrow> u16 \<Rightarrow> u16 list \<Rightarrow> byte list" where
  "pdu_read_write_multiple_registers slave read_start read_count write_start vs =
     [slave, fcode_as_u8 ReadWriteMultipleRegisters] @ be_bytes 2 read_start @ be_bytes 2 read_count @
     be_bytes 2 write_start @ be_bytes 2 (of_nat (length vs) :: u16) @ [of_nat (length vs * 2)] @
     concat (map (be_bytes 2) vs)"

definition pdu_f23_read :: "byte \<Rightarrow> u16 \<Rightarrow> u16 \<Rightarrow> u16 \<Rightarrow> byte list" where
  "pdu_f23_read slave read_start read_count write_start =
     [slave, fcode_as_u8 ReadWriteMultipleRegisters] @ be_bytes 2 read_start @ be_bytes 2 read_count @
     be_bytes 2 write_start @ be_bytes 2 (1 :: u16) @ [0x02]"

definition pdu_report_slave_id :: "byte \<Rightarrow> byte list" where
  "pdu_report_slave_id slave = [slave, fcode_as_u8 ReportSlaveId]"

section \<open>Response PDU\<close>

record response_pdu =
  rp_function :: byte
  rp_data :: "byte list"

definition response_parse :: "byte list \<Rightarrow> modbus_error + response_pdu" where
  "response_parse buf =
     (case buf of
        [] \<Rightarrow> Inl (FrameTooShort 0 2)
      | fcode # r \<Rightarrow>
          if fcode AND MODBUS_EXCEPTION_FCN \<noteq> 0
          then (case r of
                  [] \<Rightarrow> Inl (FrameTooShort 1 2)
                | code # _ \<Rightarrow> Inl (ModbusException (exception_from_u8 code)))
          else Inr \<lparr> rp_function = fcode, rp_data = r \<rparr>)"

definition read_data :: "response_pdu \<Rightarrow> modbus_error + byte list" where
  "read_data p =
     (case rp_data p of
        [] \<Rightarrow> Inl (FrameTooShort 1 2)
      | byte_count # payload \<Rightarrow>
          if length payload < unat byte_count
          then Inl (FrameTooShort (length payload) (unat byte_count))
          else Inr (take (unat byte_count) payload))"

section \<open>Lemmas\<close>

lemma fcode_roundtrip [simp]: "fcode_from_u8 (fcode_as_u8 f) = Some f"
  by (cases f) (simp_all add: fcode_from_u8_def)

lemma exception_roundtrip [simp]: "exception_as_u8 (exception_from_u8 b) = b"
  by (simp add: exception_from_u8_def)

lemma length_mbap_to_bytes [simp]: "length (mbap_to_bytes h) = MBAP_HEADER_SIZE"
  by (simp add: mbap_to_bytes_def MBAP_HEADER_SIZE_def)

lemma mbap_roundtrip [simp]: "mbap_from_bytes (mbap_to_bytes h @ rest) = Inr h"
  by (simp add: mbap_from_bytes_def mbap_to_bytes_def MBAP_HEADER_SIZE_def of_bytes_roundtrip)

definition mbap_dec :: "(modbus_error, mbap_header) decoder" where
  "mbap_dec bs = and_then (mbap_from_bytes bs) (\<lambda>h. Inr (h, drop MBAP_HEADER_SIZE bs))"

lemma mbap_from_bytes_append:
  assumes "MBAP_HEADER_SIZE \<le> length bs"
  shows "mbap_from_bytes (bs @ suf) = mbap_from_bytes bs"
proof -
  have len: "6 \<le> length bs" using assms by (simp add: MBAP_HEADER_SIZE_def)
  then have "take 2 (bs @ suf) = take 2 bs" "take 2 (drop 2 (bs @ suf)) = take 2 (drop 2 bs)"
    "take 2 (drop 4 (bs @ suf)) = take 2 (drop 4 bs)" by simp_all
  with len show ?thesis by (simp add: mbap_from_bytes_def MBAP_HEADER_SIZE_def)
qed

lemma mbap_from_bytes_Inr: "mbap_from_bytes bs = Inr h \<Longrightarrow> MBAP_HEADER_SIZE \<le> length bs"
  by (simp add: mbap_from_bytes_def split: if_splits)

interpretation mbap_wire: wire_format mbap_to_bytes mbap_dec "\<lambda>_. True"
proof
  show "mbap_dec (mbap_to_bytes h @ rest) = Inr (h, rest)" for h rest
    by (simp add: mbap_dec_def)
  show "mbap_dec (bs @ suf) = Inr (h, r @ suf)" if "mbap_dec bs = Inr (h, r)" for bs h r suf
  proof -
    from that have h: "mbap_from_bytes bs = Inr h" "r = drop MBAP_HEADER_SIZE bs"
      by (auto simp: mbap_dec_def and_then_eq_Inr)
    with mbap_from_bytes_append [OF mbap_from_bytes_Inr [OF h(1)], of suf] show ?thesis
      using mbap_from_bytes_Inr [OF h(1)] by (simp add: mbap_dec_def)
  qed
  show "suffix r bs" if "mbap_dec bs = Inr (h, r)" for bs h r
    using that by (auto simp: mbap_dec_def and_then_eq_Inr suffix_drop)
qed

text \<open>Coils read back from the packed bytes, for every count the narrowing leaves intact.\<close>

lemma length_set_coils: "set_coils dat i cs = Some dat' \<Longrightarrow> length dat' = length dat"
  by (induction dat i cs rule: set_coils.induct) (auto split: if_splits)

lemma set_coils_total:
  "i + length cs \<le> 8 * length dat \<Longrightarrow> \<exists>dat'. set_coils dat i cs = Some dat'"
proof (induction dat i cs rule: set_coils.induct)
  case (3 dat i cs)
  then have "i div 8 < length dat" by (simp add: div_less_iff_less_mult mult.commute)
  with 3 show ?case by simp
qed simp_all

definition coil :: "byte list \<Rightarrow> nat \<Rightarrow> bool" where
  "coil dat j \<longleftrightarrow> bit (dat ! (j div 8)) (j mod 8)"

lemma coil_update:
  assumes "i div 8 < length dat" "j div 8 < length dat"
  shows "coil (dat[i div 8 := dat ! (i div 8) OR push_bit (i mod 8) 1]) j \<longleftrightarrow> j = i \<or> coil dat j"
proof (cases "j div 8 = i div 8")
  case True
  have "bit (push_bit (i mod 8) 1 :: byte) (j mod 8) \<longleftrightarrow> j mod 8 = i mod 8"
    by (auto simp: bit_exp_iff)
  moreover have "j mod 8 = i mod 8 \<longleftrightarrow> j = i"
    using True by (metis mult_div_mod_eq)
  ultimately show ?thesis using True assms by (auto simp: coil_def bit_or_iff)
next
  case False
  then show ?thesis using assms by (auto simp: coil_def)
qed

lemma set_coils_spec:
  "set_coils dat i cs = Some dat' \<Longrightarrow> i + length cs \<le> 8 * length dat \<Longrightarrow> j < 8 * length dat \<Longrightarrow>
   coil dat' j \<longleftrightarrow> coil dat j \<or> (i \<le> j \<and> j < i + length cs \<and> cs ! (j - i))"
proof (induction dat i cs rule: set_coils.induct)
  case (2 dat i cs)
  then have "coil dat' j \<longleftrightarrow> coil dat j \<or> (i + 1 \<le> j \<and> j < i + 1 + length cs \<and> cs ! (j - (i + 1)))"
    by simp
  then show ?case by (auto simp: nth_Cons' Suc_diff_le)
next
  case (3 dat i cs)
  let ?dat = "dat[i div 8 := dat ! (i div 8) OR push_bit (i mod 8) 1]"
  from 3 have rec: "set_coils ?dat (i + 1) cs = Some dat'" and i: "i div 8 < length dat"
    by (auto split: if_splits)
  have j: "j div 8 < length dat" using 3 by (simp add: div_less_iff_less_mult mult.commute)
  from 3 rec i have "coil dat' j \<longleftrightarrow> coil ?dat j \<or> (i + 1 \<le> j \<and> j < i + 1 + length cs \<and> cs ! (j - (i + 1)))"
    by simp
  with coil_update [OF i j] show ?case by (auto simp: nth_Cons' Suc_diff_le)
qed auto

end
