(* ===== verification/Modbus_Framing.thy ===== *)
theory Modbus_Framing
  imports Modbus_Protocol
begin

text \<open>
  The link layer of \<^verbatim>\<open>modbus-rs/src/interpose.rs\<close>: checksums, the four link
  types, request framing and response unwrapping, and the accumulator that
  reassembles MBAP frames from a TCP stream.  The lemmas show that what a link
  frames it also unwraps, that the CRC detects every corruption confined to two
  adjacent bytes, and that reassembly does not depend on how the network cuts
  the stream.
\<close>

section \<open>Link types and checksums\<close>

datatype link_type = Tcp | Rtu | Ascii | Udp

definition link_type_from_i32 :: "int \<Rightarrow> link_type option" where
  "link_type_from_i32 v = map_of [(0, Tcp), (1, Rtu), (2, Ascii), (3, Udp)] v"

definition is_mbap :: "link_type \<Rightarrow> bool" where
  "is_mbap l \<longleftrightarrow> l = Tcp \<or> l = Udp"

definition crc_bit :: "u16 \<Rightarrow> u16" where
  "crc_bit crc = (if crc AND 1 \<noteq> 0 then drop_bit 1 crc XOR 0xA001 else drop_bit 1 crc)"

definition crc_byte :: "u16 \<Rightarrow> byte \<Rightarrow> u16" where
  "crc_byte crc b = (crc_bit ^^ 8) (crc XOR ucast b)"

definition compute_crc :: "byte list \<Rightarrow> u16" where
  "compute_crc dat = foldl crc_byte 0xFFFF dat"

definition compute_lrc :: "byte list \<Rightarrow> byte" where
  "compute_lrc dat = 0 - foldl (+) 0 dat"

definition HEX :: "byte list" where
  "HEX = [0x30, 0x31, 0x32, 0x33, 0x34, 0x35, 0x36, 0x37, 0x38, 0x39, 0x41, 0x42, 0x43, 0x44, 0x45, 0x46]"

definition encode_ascii :: "byte \<Rightarrow> byte list" where
  "encode_ascii v = [HEX ! unat (drop_bit 4 v), HEX ! unat (v AND 0x0F)]"

definition hex_digit :: "byte \<Rightarrow> modbus_error + byte" where
  "hex_digit c =
     (if 0x30 \<le> c \<and> c \<le> 0x39 then Inr (c - 0x30)
      else if 0x41 \<le> c \<and> c \<le> 0x46 then Inr (c - 0x41 + 10)
      else Inl MissingAsciiMarker)"

section \<open>Frames\<close>

definition mbap_frame_len :: "mbap_header \<Rightarrow> modbus_error + nat" where
  "mbap_frame_len h =
     (let len = unat (mb_cmd_length h) in
      if mb_protocol_type h \<noteq> MODBUS_PROTOCOL_ID \<or> len < MBAP_MIN_CMD_LENGTH \<or>
         MBAP_HEADER_SIZE + len > MAX_MODBUS_FRAME_SIZE
      then Inl (MalformedResponse (unat (mb_protocol_type h)) len)
      else Inr (MBAP_HEADER_SIZE + len))"

text \<open>The transaction counter wraps; the first identifier of a fresh counter is 1.\<close>

definition next_transaction :: "u16 \<Rightarrow> u16 \<times> u16" where
  "next_transaction counter = (counter + 1, counter + 1)"

record framed_request =
  fr_bytes :: "byte list"
  fr_transaction_id :: "u16 option"

record unwrapped_response =
  ur_pdu :: "byte list"
  ur_transaction_id :: "u16 option"

definition expected_reply_frame_len :: "link_type \<Rightarrow> nat \<Rightarrow> nat" where
  "expected_reply_frame_len l pdu_len =
     (case l of
        Tcp \<Rightarrow> MBAP_HEADER_SIZE + 1 + pdu_len
      | Udp \<Rightarrow> MBAP_HEADER_SIZE + 1 + pdu_len
      | Rtu \<Rightarrow> pdu_len + 3
      | Ascii \<Rightarrow> pdu_len * 2 + 7)"

definition check_size :: "nat \<Rightarrow> modbus_error + unit" where
  "check_size len = (if len > MAX_MODBUS_FRAME_SIZE then Inl (FrameTooLarge len) else Inr ())"

text \<open>The state of a framer is its link type, which never changes, and the counter.\<close>

definition frame_request :: "link_type \<Rightarrow> byte list \<Rightarrow> u16 \<Rightarrow> (modbus_error + framed_request) \<times> u16" where
  "frame_request l pdu counter =
     (case l of
        Rtu \<Rightarrow>
          let crc = compute_crc pdu;
              frame = pdu @ [ucast (crc AND 0xFF), ucast (drop_bit 8 crc)]
          in (and_then (check_size (length frame)) (\<lambda>_.
                Inr \<lparr> fr_bytes = frame, fr_transaction_id = None \<rparr>), counter)
      | Ascii \<Rightarrow>
          let lrc = compute_lrc pdu;
              frame = [0x3A] @ concat (map encode_ascii pdu) @ encode_ascii lrc
          in (and_then (check_size (length frame)) (\<lambda>_.
                Inr \<lparr> fr_bytes = frame, fr_transaction_id = None \<rparr>), counter)
      | _ \<Rightarrow>
          let (transaction_id, counter) = next_transaction counter;
              header = mbap_new transaction_id (of_nat (length pdu));
              frame = mbap_to_bytes header @ pdu
          in (and_then (check_size (length frame)) (\<lambda>_.
                Inr \<lparr> fr_bytes = frame, fr_transaction_id = Some transaction_id \<rparr>), counter))"

fun decode_hex :: "byte list \<Rightarrow> modbus_error + byte list" where
  "decode_hex (h # l # r) =
     and_then (hex_digit h) (\<lambda>hi. and_then (hex_digit l) (\<lambda>lo.
     and_then (decode_hex r) (\<lambda>bs. Inr ((push_bit 4 hi OR lo) # bs))))"
| "decode_hex _ = Inr []"

definition unwrap_response :: "link_type \<Rightarrow> byte list \<Rightarrow> modbus_error + unwrapped_response" where
  "unwrap_response l frame =
     (case l of
        Rtu \<Rightarrow>
          if length frame < 4 then Inl (FrameTooShort (length frame) 4)
          else if compute_crc frame \<noteq> 0 then Inl CrcError
          else Inr \<lparr> ur_pdu = drop 1 (take (length frame - 2) frame), ur_transaction_id = None \<rparr>
      | Ascii \<Rightarrow>
          (case frame of
             [] \<Rightarrow> Inl MissingAsciiMarker
           | c # hex \<Rightarrow>
               if c \<noteq> 0x3A then Inl MissingAsciiMarker
               else if length hex mod 2 \<noteq> 0 then Inl (FrameTooShort (length frame) (length frame + 1))
               else and_then (decode_hex hex) (\<lambda>bytes.
                 if length bytes < 3 then Inl (FrameTooShort (length bytes) 3)
                 else
                   let received_lrc = last bytes;
                       body = butlast bytes;
                       computed = compute_lrc body
                   in if computed \<noteq> received_lrc then Inl (LrcError received_lrc computed)
                      else Inr \<lparr> ur_pdu = drop 1 body, ur_transaction_id = None \<rparr>))
      | _ \<Rightarrow>
          if length frame < MBAP_HEADER_SIZE + 2
          then Inl (FrameTooShort (length frame) (MBAP_HEADER_SIZE + 2))
          else and_then (mbap_from_bytes (take MBAP_HEADER_SIZE frame)) (\<lambda>header.
            and_then (mbap_frame_len header) (\<lambda>need.
            if length frame < need then Inl (FrameTooShort (length frame) need)
            else Inr \<lparr> ur_pdu = drop (MBAP_HEADER_SIZE + 1) (take need frame),
                   ur_transaction_id = Some (mb_transaction_id header) \<rparr>)))"

section \<open>The MBAP accumulator\<close>

record mbap_accumulator =
  ma_buf :: "byte list"

definition mbap_acc_new :: mbap_accumulator where
  "mbap_acc_new = \<lparr> ma_buf = [] \<rparr>"

definition mbap_extend :: "byte list \<Rightarrow> mbap_accumulator \<Rightarrow> mbap_accumulator" where
  "mbap_extend bytes acc = acc \<lparr> ma_buf := ma_buf acc @ bytes \<rparr>"

definition mbap_reset :: "mbap_accumulator \<Rightarrow> mbap_accumulator" where
  "mbap_reset acc = acc \<lparr> ma_buf := [] \<rparr>"

definition head_frame_len :: "mbap_accumulator \<Rightarrow> (modbus_error + nat option) \<times> mbap_accumulator" where
  "head_frame_len acc =
     (if length (ma_buf acc) < MBAP_HEADER_SIZE then (Inr None, acc)
      else case mbap_from_bytes (take MBAP_HEADER_SIZE (ma_buf acc)) of
        Inl e \<Rightarrow> (Inl e, acc)
      | Inr header \<Rightarrow>
          (case mbap_frame_len header of
             Inl e \<Rightarrow> (Inl e, mbap_reset acc)
           | Inr need \<Rightarrow> (Inr (Some need), acc)))"

definition next_frame :: "mbap_accumulator \<Rightarrow> (modbus_error + byte list option) \<times> mbap_accumulator" where
  "next_frame acc =
     (case head_frame_len acc of
        (Inl e, acc) \<Rightarrow> (Inl e, acc)
      | (Inr (Some need), acc) \<Rightarrow>
          if length (ma_buf acc) \<ge> need
          then (Inr (Some (take need (ma_buf acc))), acc \<lparr> ma_buf := drop need (ma_buf acc) \<rparr>)
          else (Inr None, acc)
      | (Inr None, acc) \<Rightarrow> (Inr None, acc))"

text \<open>\<open>None\<close> is the panic of the subtraction.\<close>

definition next_read_len :: "nat \<Rightarrow> mbap_accumulator \<Rightarrow> (modbus_error + nat) option \<times> mbap_accumulator" where
  "next_read_len expected acc =
     (case head_frame_len acc of
        (Inl e, acc) \<Rightarrow> (Some (Inl e), acc)
      | (Inr m, acc) \<Rightarrow>
          let total = (case m of Some need \<Rightarrow> need | None \<Rightarrow> max expected MBAP_HEADER_SIZE)
          in (if total < length (ma_buf acc) then None else Some (Inr (total - length (ma_buf acc))), acc))"

text \<open>
  \<open>read_frame\<close> consumes the results of successive calls of the link's read; the
  numbers it asked for are returned with the result.  A list that runs out
  before the loop ends is a link that has not answered yet (\<open>Waiting\<close>).
\<close>

datatype read_result = Frame "byte list" | Failed modbus_error | Waiting | Panicked

fun read_frame :: "nat \<Rightarrow> mbap_accumulator \<Rightarrow> (modbus_error + byte list) list \<Rightarrow>
    read_result \<times> nat list \<times> mbap_accumulator" where
  "read_frame expected acc reads =
     (case next_frame acc of
        (Inl e, acc) \<Rightarrow> (Failed e, [], acc)
      | (Inr (Some frame), acc) \<Rightarrow> (Frame frame, [], acc)
      | (Inr None, acc) \<Rightarrow>
          (case next_read_len expected acc of
             (None, acc) \<Rightarrow> (Panicked, [], acc)
           | (Some (Inl e), acc) \<Rightarrow> (Failed e, [], acc)
           | (Some (Inr need), acc) \<Rightarrow>
               (case reads of
                  [] \<Rightarrow> (Waiting, [need], acc)
                | Inl e # _ \<Rightarrow> (Failed e, [need], acc)
                | Inr chunk # reads \<Rightarrow>
                    if chunk = [] then (Failed Timeout, [need], acc)
                    else let (res, asked, acc) = read_frame expected (mbap_extend chunk acc) reads
                         in (res, need # asked, acc))))"

declare read_frame.simps [simp del]

section \<open>Lemmas: CRC\<close>

lemma xor_self_cancel: "c XOR (c XOR x) = (x :: 'a::len word)"
  by (simp add: xor.assoc [symmetric])

lemma xor_left_cancel: "c XOR x = c XOR y \<longleftrightarrow> x = (y :: 'a::len word)"
  by (metis xor_self_cancel)

lemma xor_right_cancel: "x XOR c = y XOR c \<longleftrightarrow> x = (y :: 'a::len word)"
  by (simp only: xor.commute [of _ c] xor_left_cancel)

lemma xor_eq_0: "a XOR b = 0 \<longleftrightarrow> a = (b :: 'a::len word)"
  using xor_left_cancel [of b a b] by (simp add: xor.commute)

lemma crc_bit_xor: "crc_bit crc = drop_bit 1 crc XOR (if bit crc 0 then 0xA001 else 0)"
proof -
  have "crc AND 1 \<noteq> 0 \<longleftrightarrow> bit crc 0" by (simp add: and_one_eq bit_0 odd_iff_mod_2_eq_one)
  then show ?thesis by (simp add: crc_bit_def)
qed

lemma crc_bit_linear: "crc_bit (a XOR b) = crc_bit a XOR crc_bit b"
  by (simp add: crc_bit_xor drop_bit_xor bit_xor_iff xor.assoc xor.left_commute)

lemma crc_bit_0 [simp]: "crc_bit 0 = 0"
  by (simp add: crc_bit_xor)

lemma crc_bit_kernel:
  assumes "crc_bit d = 0"
  shows "d = 0"
proof (cases "bit d 0")
  case True
  with assms have "drop_bit 1 d XOR 0xA001 = 0" by (simp add: crc_bit_xor)
  then have "bit (drop_bit 1 d XOR 0xA001) 15 = bit (0 :: u16) 15" by simp
  moreover have "bit (0xA001 :: u16) 15" by code_simp
  moreover have "\<not> bit (drop_bit 1 d) 15" using bit_imp_le_length [of d 16] by (auto simp: bit_drop_bit_eq)
  ultimately show ?thesis by (simp add: bit_xor_iff)
next
  case False
  with assms have z: "drop_bit 1 d = 0" by (simp add: crc_bit_xor)
  show ?thesis
  proof (rule bit_eqI)
    fix n
    show "bit d n \<longleftrightarrow> bit (0 :: u16) n"
    proof (cases n)
      case (Suc m)
      have "bit (drop_bit 1 d) m = bit (0 :: u16) m" using z by simp
      with Suc show ?thesis by (simp add: bit_drop_bit_eq)
    qed (use False in simp)
  qed
qed

lemma crc_bits_linear: "(crc_bit ^^ k) (a XOR b) = (crc_bit ^^ k) a XOR (crc_bit ^^ k) b"
  by (induction k) (simp_all add: crc_bit_linear)

lemma crc_bits_0 [simp]: "(crc_bit ^^ k) 0 = 0"
  by (induction k) simp_all

lemma crc_bits_kernel: "(crc_bit ^^ k) d = 0 \<Longrightarrow> d = 0"
  by (induction k) (auto dest: crc_bit_kernel)

lemma crc_bits_inject: "(crc_bit ^^ k) a = (crc_bit ^^ k) b \<longleftrightarrow> a = b"
proof
  assume "(crc_bit ^^ k) a = (crc_bit ^^ k) b"
  then have "(crc_bit ^^ k) (a XOR b) = 0" by (simp add: crc_bits_linear)
  then have "a XOR b = 0" by (rule crc_bits_kernel)
  then show "a = b" by (simp only: xor_eq_0)
qed simp

lemma crc_bit_shift:
  assumes "k < 8"
  shows "crc_bit (push_bit (Suc k) (ucast (b :: byte))) = push_bit k (ucast b)"
proof -
  have "\<not> bit (push_bit (Suc k) (ucast b) :: u16) 0" by (simp only: bit_push_bit_iff) simp
  moreover have "drop_bit 1 (push_bit (Suc k) (ucast b) :: u16) = push_bit k (ucast b)"
  proof (rule bit_eqI)
    fix n assume n: "possible_bit TYPE(u16) n"
    have "n = 15 \<Longrightarrow> \<not> bit b (15 - k)" using assms bit_imp_le_length [of b "15 - k"] by auto
    then show "bit (drop_bit 1 (push_bit (Suc k) (ucast b) :: u16)) n = bit (push_bit k (ucast b) :: u16) n"
      using n by (cases "n = 15") (auto simp: bit_simps possible_bit_def simp del: push_bit_Suc)
  qed
  ultimately show ?thesis by (simp add: crc_bit_xor)
qed

lemma crc_bits_shift: "k \<le> 8 \<Longrightarrow> (crc_bit ^^ k) (push_bit k (ucast (b :: byte))) = ucast b"
proof (induction k)
  case (Suc k)
  then have "(crc_bit ^^ Suc k) (push_bit (Suc k) (ucast b)) = (crc_bit ^^ k) (push_bit k (ucast b))"
    using crc_bit_shift [of k b] by (simp only: funpow_Suc_right comp_apply Suc_le_eq)
  with Suc show ?case by simp
qed simp

lemma crc_byte_inject: "crc_byte c b = crc_byte c' b \<longleftrightarrow> c = c'"
  by (simp only: crc_byte_def crc_bits_inject xor_right_cancel)

lemma crc_bytes_inject: "foldl crc_byte c bs = foldl crc_byte c' bs \<longleftrightarrow> c = c'"
  by (induction bs arbitrary: c c') (simp_all add: crc_byte_inject)

lemma crc_two_bytes:
  "crc_byte (crc_byte c a) b = (crc_bit ^^ 8) ((crc_bit ^^ 8) (c XOR (ucast a XOR push_bit 8 (ucast b))))"
proof -
  have "ucast b = (crc_bit ^^ 8) (push_bit 8 (ucast b))" by (simp add: crc_bits_shift)
  then have "(crc_bit ^^ 8) (c XOR ucast a) XOR ucast b =
      (crc_bit ^^ 8) ((c XOR ucast a) XOR push_bit 8 (ucast b))"
    by (simp only: crc_bits_linear [of 8 "c XOR ucast a"])
  then show ?thesis by (simp only: crc_byte_def xor.assoc)
qed

lemma two_bytes_inject:
  fixes a b a' b' :: byte
  assumes "(ucast a XOR push_bit 8 (ucast b) :: u16) = ucast a' XOR push_bit 8 (ucast b')"
  shows "a = a' \<and> b = b'"
proof -
  have eq: "bit (ucast a XOR push_bit 8 (ucast b) :: u16) n = bit (ucast a' XOR push_bit 8 (ucast b') :: u16) n"
    for n using assms by simp
  have "bit a n = bit a' n" if "n < 8" for n
    using eq [of n] that by (simp add: bit_simps)
  moreover have "bit b n = bit b' n" if "n < 8" for n
    using eq [of "n + 8"] that bit_imp_le_length [of a "n + 8"] bit_imp_le_length [of a' "n + 8"]
    by (auto simp: bit_simps)
  ultimately show ?thesis
    by (auto intro!: bit_eqI simp: possible_bit_def)
qed

lemma crc_burst:
  "compute_crc (u @ [a, b] @ v) = compute_crc (u @ [a', b'] @ v) \<longleftrightarrow> a = a' \<and> b = b'"
proof -
  have "crc_byte (crc_byte c a) b = crc_byte (crc_byte c a') b' \<longleftrightarrow> a = a' \<and> b = b'" for c
    unfolding crc_two_bytes crc_bits_inject xor_left_cancel by (auto dest: two_bytes_inject)
  then show ?thesis by (simp add: compute_crc_def crc_bytes_inject)
qed

lemma crc_residue:
  fixes dat :: "byte list"
  defines "c \<equiv> compute_crc dat"
  shows "compute_crc (dat @ [ucast (c AND 0xFF), ucast (drop_bit 8 c)]) = 0"
proof -
  let ?lo = "ucast (c AND 0xFF) :: byte" and ?hi = "ucast (drop_bit 8 c) :: byte"
  have mask: "(0xFF :: u16) = mask 8" by code_simp
  have "c = ucast ?lo XOR push_bit 8 (ucast ?hi)"
  proof (rule bit_eqI)
    fix n assume "possible_bit TYPE(u16) n"
    then show "bit c n = bit (ucast ?lo XOR push_bit 8 (ucast ?hi) :: u16) n"
      by (auto simp: bit_simps mask possible_bit_def)
  qed
  then have "c XOR (ucast ?lo XOR push_bit 8 (ucast ?hi)) = 0" by (simp only: xor_eq_0)
  then have "crc_byte (crc_byte c ?lo) ?hi = 0" by (simp only: crc_two_bytes crc_bits_0)
  then show ?thesis by (simp add: c_def compute_crc_def)
qed

section \<open>Lemmas: what a link frames it unwraps\<close>

lemma hex_digit_HEX:
  assumes "n < 16"
  shows "hex_digit (HEX ! n) = Inr (of_nat n)"
proof -
  have "list_all (\<lambda>n. hex_digit (HEX ! n) = Inr (of_nat n)) [0..<16]" by code_simp
  then show ?thesis using assms by (simp add: list_all_iff)
qed

lemma nibbles:
  fixes v :: byte
  shows "push_bit 4 (drop_bit 4 v) OR (v AND 0x0F) = v"
proof -
  have mask: "(0x0F :: byte) = mask 4" by code_simp
  show ?thesis
    by (rule bit_eqI) (auto simp: bit_simps mask possible_bit_def)
qed

lemma decode_encode_ascii: "decode_hex (encode_ascii v @ rest) =
    and_then (decode_hex rest) (\<lambda>bs. Inr (v # bs))"
proof -
  have "unat v < 2 ^ LENGTH(8)" by (rule unsigned_less)
  then have hi: "unat (drop_bit 4 v) < 16" by (simp add: drop_bit_eq_div unat_div)
  have lo: "unat (v AND 0x0F) < 16"
    using word_and_le1 [of v "0x0F"] by (simp add: word_le_nat_alt)
  show ?thesis
    using hex_digit_HEX [OF hi] hex_digit_HEX [OF lo] nibbles [of v]
    by (simp add: encode_ascii_def)
qed

lemma decode_hex_encode: "decode_hex (concat (map encode_ascii bs) @ encode_ascii v) = Inr (bs @ [v])"
proof (induction bs)
  case Nil
  then show ?case using decode_encode_ascii [of v "[]"] by simp
next
  case (Cons b bs)
  then show ?case using decode_encode_ascii [of b] by simp
qed

lemma length_encode_ascii [simp]: "length (encode_ascii v) = 2"
  by (simp add: encode_ascii_def)

lemma length_concat_ascii: "length (concat (map encode_ascii bs)) = 2 * length bs"
  by (induction bs) simp_all

lemma mbap_frame_len_new:
  assumes "2 \<le> length pdu" "MBAP_HEADER_SIZE + length pdu \<le> MAX_MODBUS_FRAME_SIZE"
  shows "mbap_frame_len (mbap_new tid (of_nat (length pdu))) = Inr (MBAP_HEADER_SIZE + length pdu)"
proof -
  have "unat (of_nat (length pdu) :: u16) = length pdu"
    using assms(2) by (simp add: unat_of_nat take_bit_nat_eq_self MAX_MODBUS_FRAME_SIZE_def MBAP_HEADER_SIZE_def)
  with assms show ?thesis
    by (simp add: mbap_frame_len_def mbap_new_def MODBUS_PROTOCOL_ID_def MBAP_MIN_CMD_LENGTH_def Let_def)
qed

lemma unwrap_mbap:
  assumes "2 \<le> length pdu" "MBAP_HEADER_SIZE + length pdu \<le> MAX_MODBUS_FRAME_SIZE" "is_mbap l"
  shows "unwrap_response l (mbap_to_bytes (mbap_new tid (of_nat (length pdu))) @ pdu @ rest) =
    Inr \<lparr> ur_pdu = tl pdu, ur_transaction_id = Some tid \<rparr>"
proof -
  let ?h = "mbap_new tid (of_nat (length pdu))"
  have hdr: "mbap_from_bytes (take MBAP_HEADER_SIZE (mbap_to_bytes ?h @ pdu @ rest)) = Inr ?h"
    using mbap_roundtrip [of ?h "[]"] by simp
  have pdu: "drop (MBAP_HEADER_SIZE + 1)
      (take (MBAP_HEADER_SIZE + length pdu) (mbap_to_bytes ?h @ pdu @ rest)) = tl pdu"
    by (simp add: drop_Suc)
  show ?thesis
    using assms(1,3) hdr pdu mbap_frame_len_new [OF assms(1,2)]
    by (auto simp: is_mbap_def unwrap_response_def mbap_new_def)
qed

lemma frame_unwrap:
  assumes "frame_request l pdu counter = (Inr fr, counter')" "2 \<le> length pdu"
  shows "unwrap_response l (fr_bytes fr) =
    Inr \<lparr> ur_pdu = tl pdu, ur_transaction_id = fr_transaction_id fr \<rparr>"
proof (cases l)
  case Rtu
  let ?crc = "compute_crc pdu"
  have fr: "fr = \<lparr> fr_bytes = pdu @ [ucast (?crc AND 0xFF), ucast (drop_bit 8 ?crc)], fr_transaction_id = None \<rparr>"
    using assms(1) Rtu by (auto simp: frame_request_def Let_def and_then_eq_Inr)
  then show ?thesis
    using assms(2) crc_residue [of pdu] by (simp add: Rtu unwrap_response_def drop_Suc)
next
  case Ascii
  have fr: "fr = \<lparr> fr_bytes = 0x3A # concat (map encode_ascii pdu) @ encode_ascii (compute_lrc pdu),
      fr_transaction_id = None \<rparr>"
    using assms(1) Ascii by (auto simp: frame_request_def Let_def and_then_eq_Inr)
  then show ?thesis
    using assms(2)
    by (simp add: Ascii unwrap_response_def decode_hex_encode length_concat_ascii Let_def drop_Suc)
next
  case Tcp
  have "fr = \<lparr> fr_bytes = mbap_to_bytes (mbap_new (counter + 1) (of_nat (length pdu))) @ pdu,
      fr_transaction_id = Some (counter + 1) \<rparr>" "MBAP_HEADER_SIZE + length pdu \<le> MAX_MODBUS_FRAME_SIZE"
    using assms(1) Tcp
    by (auto simp: frame_request_def next_transaction_def Let_def and_then_eq_Inr check_size_def split: if_splits)
  then show ?thesis
    using unwrap_mbap [of pdu Tcp "counter + 1" "[]"] assms(2) Tcp by (simp add: is_mbap_def)
next
  case Udp
  have "fr = \<lparr> fr_bytes = mbap_to_bytes (mbap_new (counter + 1) (of_nat (length pdu))) @ pdu,
      fr_transaction_id = Some (counter + 1) \<rparr>" "MBAP_HEADER_SIZE + length pdu \<le> MAX_MODBUS_FRAME_SIZE"
    using assms(1) Udp
    by (auto simp: frame_request_def next_transaction_def Let_def and_then_eq_Inr check_size_def split: if_splits)
  then show ?thesis
    using unwrap_mbap [of pdu Udp "counter + 1" "[]"] assms(2) Udp by (simp add: is_mbap_def)
qed

lemma rtu_corruption:
  assumes "unwrap_response Rtu (u @ [a, b] @ v) = Inr r" "(a, b) \<noteq> (a', b')"
  shows "unwrap_response Rtu (u @ [a', b'] @ v) = Inl CrcError"
proof -
  from assms(1) have "\<not> length (u @ [a, b] @ v) < 4" "compute_crc (u @ [a, b] @ v) = 0"
    by (auto simp: unwrap_response_def split: if_splits)
  moreover have "compute_crc (u @ [a', b'] @ v) \<noteq> compute_crc (u @ [a, b] @ v)"
    using assms(2) crc_burst [of u a' b' v a b] by auto
  ultimately show ?thesis by (simp add: unwrap_response_def)
qed

section \<open>Lemmas: reassembly\<close>

text \<open>What the head of a stream is: a whole frame, an impossible header, or not decided yet.\<close>

definition mbap_head :: "unit \<Rightarrow> byte list \<Rightarrow> ((modbus_error + byte list) \<times> nat) option" where
  "mbap_head u bs =
     (case mbap_from_bytes bs of
        Inl _ \<Rightarrow> None
      | Inr header \<Rightarrow>
          (case mbap_frame_len header of
             Inl e \<Rightarrow> Some (Inl e, 0)
           | Inr need \<Rightarrow> if need \<le> length bs then Some (Inr (take need bs), need) else None))"

lemma mbap_from_take:
  "\<not> length bs < MBAP_HEADER_SIZE \<Longrightarrow> mbap_from_bytes (take MBAP_HEADER_SIZE bs) = mbap_from_bytes bs"
  using mbap_from_bytes_append [of "take MBAP_HEADER_SIZE bs" "drop MBAP_HEADER_SIZE bs"] by simp

lemma mbap_from_bytes_total:
  "\<not> length bs < MBAP_HEADER_SIZE \<Longrightarrow> \<exists>h. mbap_from_bytes bs = Inr h"
  by (simp add: mbap_from_bytes_def)

lemma mbap_frame_len_Inr: "mbap_frame_len h = Inr n \<Longrightarrow> MBAP_HEADER_SIZE + 2 \<le> n \<and> n \<le> MAX_MODBUS_FRAME_SIZE"
  by (auto simp: mbap_frame_len_def Let_def MBAP_MIN_CMD_LENGTH_def split: if_splits)

interpretation mbap_framer: framer mbap_head "\<lambda>_ r. case r of Inl _ \<Rightarrow> True | Inr _ \<Rightarrow> False" "\<lambda>u _. u"
proof
  show "0 < n" if "mbap_head u bs = Some (r, n)" "\<not> (case r of Inl _ \<Rightarrow> True | Inr _ \<Rightarrow> False)" for u bs r n
    using that by (auto simp: mbap_head_def split: sum.splits if_splits dest: mbap_frame_len_Inr)
  show "mbap_head u (bs @ suf) = Some (r, n)" if hd: "mbap_head u bs = Some (r, n)" for u bs r n suf
  proof -
    obtain h where h: "mbap_from_bytes bs = Inr h" using hd by (cases "mbap_from_bytes bs") (auto simp: mbap_head_def)
    note app = mbap_from_bytes_append [OF mbap_from_bytes_Inr [OF h], of suf]
    from hd h show ?thesis by (auto simp: mbap_head_def app split: sum.splits if_splits)
  qed
qed

lemma next_frame_head:
  "next_frame acc =
     (case mbap_head () (ma_buf acc) of
        None \<Rightarrow> (Inr None, acc)
      | Some (Inl e, _) \<Rightarrow> (Inl e, mbap_reset acc)
      | Some (Inr frame, n) \<Rightarrow> (Inr (Some frame), acc \<lparr> ma_buf := drop n (ma_buf acc) \<rparr>))"
proof (cases "length (ma_buf acc) < MBAP_HEADER_SIZE")
  case True
  then show ?thesis by (simp add: next_frame_def head_frame_len_def mbap_head_def mbap_from_bytes_def)
next
  case False
  then obtain h where "mbap_from_bytes (ma_buf acc) = Inr h" using mbap_from_bytes_total by blast
  then show ?thesis
    using False by (auto simp: next_frame_def head_frame_len_def mbap_head_def mbap_from_take split: sum.splits)
qed

lemma next_read_len_positive:
  assumes "mbap_head () (ma_buf acc) = None"
  shows "\<exists>n. next_read_len expected acc = (Some (Inr n), acc) \<and> 0 < n"
proof (cases "length (ma_buf acc) < MBAP_HEADER_SIZE")
  case True
  then show ?thesis by (auto simp: next_read_len_def head_frame_len_def Let_def)
next
  case False
  then obtain h where h: "mbap_from_bytes (ma_buf acc) = Inr h" using mbap_from_bytes_total by blast
  with assms obtain need where "mbap_frame_len h = Inr need" "length (ma_buf acc) < need"
    by (auto simp: mbap_head_def not_le split: sum.splits if_splits)
  with False h show ?thesis
    by (auto simp: next_read_len_def head_frame_len_def mbap_from_take Let_def)
qed

text \<open>Reading one frame: the chunks are the bytes of the frame and of what follows it.\<close>

definition mbap_valid :: "byte list \<Rightarrow> bool" where
  "mbap_valid frame \<longleftrightarrow> (\<exists>h. mbap_from_bytes frame = Inr h \<and> mbap_frame_len h = Inr (length frame))"

lemma mbap_head_valid:
  assumes "mbap_valid frame"
  shows "mbap_head () (frame @ rest) = Some (Inr frame, length frame)"
proof -
  from assms have "mbap_head () frame = Some (Inr frame, length frame)"
    by (auto simp: mbap_valid_def mbap_head_def)
  then show ?thesis by (rule mbap_framer.nxt_stable)
qed

lemma mbap_head_prefix:
  assumes "mbap_valid frame" "bs @ suf = frame @ rest"
  shows "mbap_head () bs = None \<or>
    (mbap_head () bs = Some (Inr frame, length frame) \<and> length frame \<le> length bs)"
proof (cases "mbap_head () bs")
  case (Some p)
  then obtain r n where rn: "mbap_head () bs = Some (r, n)" by (cases p) auto
  from mbap_framer.nxt_stable [OF this, of suf] mbap_head_valid [OF assms(1), of rest] assms(2)
  have eq: "r = Inr frame" "n = length frame" by simp_all
  with rn have "length frame \<le> length bs" by (auto simp: mbap_head_def split: sum.splits if_splits)
  with rn eq show ?thesis by simp
qed simp

lemma read_frame_exact:
  assumes "mbap_valid frame" "ma_buf acc @ concat chunks = frame @ rest" "[] \<notin> set chunks"
  shows "\<exists>asked acc'. read_frame expected acc (map Inr chunks) = (Frame frame, asked, acc') \<and>
    list_all (\<lambda>n. 0 < n) asked \<and> length asked \<le> length chunks \<and>
    ma_buf acc' @ concat (drop (length asked) chunks) = rest"
  using assms(2,3)
proof (induction chunks arbitrary: acc)
  case Nil
  then have "mbap_head () (ma_buf acc) = Some (Inr frame, length frame)"
    using mbap_head_valid [OF assms(1), of rest] by simp
  then show ?case
    using Nil.prems(1) by (subst read_frame.simps) (simp add: next_frame_head)
next
  case (Cons chunk chunks)
  note prefix = mbap_head_prefix [OF assms(1), of "ma_buf acc" "concat (chunk # chunks)" rest]
  show ?case
  proof (cases "mbap_head () (ma_buf acc)")
    case None
    obtain n where n: "next_read_len expected acc = (Some (Inr n), acc)" "0 < n"
      using next_read_len_positive [OF None] by blast
    have "ma_buf (mbap_extend chunk acc) @ concat chunks = frame @ rest" "[] \<notin> set chunks" "chunk \<noteq> []"
      using Cons.prems by (auto simp: mbap_extend_def)
    with Cons.IH [of "mbap_extend chunk acc"] obtain asked acc' where
      "read_frame expected (mbap_extend chunk acc) (map Inr chunks) = (Frame frame, asked, acc')"
      "list_all (\<lambda>n. 0 < n) asked" "length asked \<le> length chunks"
      "ma_buf acc' @ concat (drop (length asked) chunks) = rest" by blast
    with None n \<open>chunk \<noteq> []\<close> show ?thesis
      by (subst read_frame.simps) (simp add: next_frame_head)
  next
    case (Some p)
    with prefix Cons.prems(1) have head: "mbap_head () (ma_buf acc) = Some (Inr frame, length frame)"
      "length frame \<le> length (ma_buf acc)" by auto
    have "take (length frame) (ma_buf acc @ concat (chunk # chunks)) = frame"
      "drop (length frame) (ma_buf acc @ concat (chunk # chunks)) = rest"
      using Cons.prems(1) by simp_all
    with head show ?thesis by (subst read_frame.simps) (simp add: next_frame_head)
  qed
qed

end
