(* ===== verification/Modbus_Datatype.thy ===== *)
theory Modbus_Datatype
  imports Modbus_Protocol
begin

text \<open>
  Conversions between 16-bit registers and the values records see:
  \<^verbatim>\<open>modbus-rs/src/datatype.rs\<close>.  The constructors of \<open>modbus_data_type\<close> are
  the source's with a leading D.  Signed values are integers, with every \<^verbatim>\<open>as\<close>
  cast written as the reduction modulo the width it performs.  The conversions
  between integers and floating point values are not modelled: reading a float
  type yields its bit pattern, and the integer readers and writers return
  \<open>FloatPath\<close> where the source goes through a floating point value.
\<close>

section \<open>Data types\<close>

datatype modbus_data_type =
    DInt16 | DInt16Sm | DBcdUnsigned | DBcdSigned | DUInt16 | DInt32Le | DInt32LeBs |
    DInt32Be | DInt32BeBs | DUInt32Le | DUInt32LeBs | DUInt32Be | DUInt32BeBs | DInt64Le |
    DInt64LeBs | DInt64Be | DInt64BeBs | DUInt64Le | DUInt64LeBs | DUInt64Be | DUInt64BeBs |
    DFloat32Le | DFloat32LeBs | DFloat32Be | DFloat32BeBs | DFloat64Le | DFloat64LeBs |
    DFloat64Be | DFloat64BeBs | DStringHigh | DStringLow | DStringHighLow | DStringLowHigh |
    DZStringHigh | DZStringLow | DZStringHighLow | DZStringLowHigh

definition ALL_DATA_TYPES :: "modbus_data_type list" where
  "ALL_DATA_TYPES =
    [DInt16, DInt16Sm, DBcdUnsigned, DBcdSigned, DUInt16, DInt32Le, DInt32LeBs, DInt32Be,
    DInt32BeBs, DUInt32Le, DUInt32LeBs, DUInt32Be, DUInt32BeBs, DInt64Le, DInt64LeBs, DInt64Be,
    DInt64BeBs, DUInt64Le, DUInt64LeBs, DUInt64Be, DUInt64BeBs, DFloat32Le, DFloat32LeBs,
    DFloat32Be, DFloat32BeBs, DFloat64Le, DFloat64LeBs, DFloat64Be, DFloat64BeBs, DStringHigh,
    DStringLow, DStringHighLow, DStringLowHigh, DZStringHigh, DZStringLow, DZStringHighLow,
    DZStringLowHigh]"

fun type_str :: "modbus_data_type \<Rightarrow> string" where
  "type_str DInt16 = ''INT16''"
| "type_str DInt16Sm = ''INT16SM''"
| "type_str DBcdUnsigned = ''BCD_UNSIGNED''"
| "type_str DBcdSigned = ''BCD_SIGNED''"
| "type_str DUInt16 = ''UINT16''"
| "type_str DInt32Le = ''INT32_LE''"
| "type_str DInt32LeBs = ''INT32_LE_BS''"
| "type_str DInt32Be = ''INT32_BE''"
| "type_str DInt32BeBs = ''INT32_BE_BS''"
| "type_str DUInt32Le = ''UINT32_LE''"
| "type_str DUInt32LeBs = ''UINT32_LE_BS''"
| "type_str DUInt32Be = ''UINT32_BE''"
| "type_str DUInt32BeBs = ''UINT32_BE_BS''"
| "type_str DInt64Le = ''INT64_LE''"
| "type_str DInt64LeBs = ''INT64_LE_BS''"
| "type_str DInt64Be = ''INT64_BE''"
| "type_str DInt64BeBs = ''INT64_BE_BS''"
| "type_str DUInt64Le = ''UINT64_LE''"
| "type_str DUInt64LeBs = ''UINT64_LE_BS''"
| "type_str DUInt64Be = ''UINT64_BE''"
| "type_str DUInt64BeBs = ''UINT64_BE_BS''"
| "type_str DFloat32Le = ''FLOAT32_LE''"
| "type_str DFloat32LeBs = ''FLOAT32_LE_BS''"
| "type_str DFloat32Be = ''FLOAT32_BE''"
| "type_str DFloat32BeBs = ''FLOAT32_BE_BS''"
| "type_str DFloat64Le = ''FLOAT64_LE''"
| "type_str DFloat64LeBs = ''FLOAT64_LE_BS''"
| "type_str DFloat64Be = ''FLOAT64_BE''"
| "type_str DFloat64BeBs = ''FLOAT64_BE_BS''"
| "type_str DStringHigh = ''STRING_HIGH''"
| "type_str DStringLow = ''STRING_LOW''"
| "type_str DStringHighLow = ''STRING_HIGH_LOW''"
| "type_str DStringLowHigh = ''STRING_LOW_HIGH''"
| "type_str DZStringHigh = ''ZSTRING_HIGH''"
| "type_str DZStringLow = ''ZSTRING_LOW''"
| "type_str DZStringHighLow = ''ZSTRING_HIGH_LOW''"
| "type_str DZStringLowHigh = ''ZSTRING_LOW_HIGH''"

text \<open>\<^verbatim>\<open>eq_ignore_ascii_case\<close>.\<close>

definition ascii_lower :: "char \<Rightarrow> char" where
  "ascii_lower c = (let n = (of_char c :: nat) in if 65 \<le> n \<and> n \<le> 90 then char_of (n + 32) else c)"

definition from_type_string :: "string \<Rightarrow> modbus_data_type option" where
  "from_type_string s = find (\<lambda>dt. map ascii_lower (type_str dt) = map ascii_lower s) ALL_DATA_TYPES"

definition data_type_from_i32 :: "int \<Rightarrow> modbus_data_type option" where
  "data_type_from_i32 v =
     (if 0 \<le> v \<and> nat v < length ALL_DATA_TYPES then Some (ALL_DATA_TYPES ! nat v) else None)"

definition register_count :: "modbus_data_type \<Rightarrow> nat" where
  "register_count dt =
     (if dt \<in> {DInt16, DInt16Sm, DBcdUnsigned, DBcdSigned, DUInt16} then 1
      else if dt \<in> {
          DInt32Le, DInt32LeBs, DInt32Be, DInt32BeBs, DUInt32Le, DUInt32LeBs, DUInt32Be,
          DUInt32BeBs, DFloat32Le, DFloat32LeBs, DFloat32Be, DFloat32BeBs} then 2
      else if dt \<in> {
          DInt64Le, DInt64LeBs, DInt64Be, DInt64BeBs, DUInt64Le, DUInt64LeBs, DUInt64Be,
          DUInt64BeBs, DFloat64Le, DFloat64LeBs, DFloat64Be, DFloat64BeBs} then 4
      else 0)"

definition is_zero_terminated_string :: "modbus_data_type \<Rightarrow> bool" where
  "is_zero_terminated_string dt \<longleftrightarrow> dt \<in> {DZStringHigh, DZStringLow, DZStringHighLow, DZStringLowHigh}"

definition is_string_type :: "modbus_data_type \<Rightarrow> bool" where
  "is_string_type dt \<longleftrightarrow> dt \<in> {
     DStringHigh, DStringLow, DStringHighLow, DStringLowHigh, DZStringHigh, DZStringLow,
     DZStringHighLow, DZStringLowHigh}"

datatype word_order = LittleWords | BigWords

definition order_of :: "modbus_data_type \<Rightarrow> (word_order \<times> bool) option" where
  "order_of dt =
     (if dt \<in> {DInt32Le, DUInt32Le, DInt64Le, DUInt64Le, DFloat32Le, DFloat64Le} then Some (LittleWords, False)
      else if dt \<in> {DInt32LeBs, DUInt32LeBs, DInt64LeBs, DUInt64LeBs, DFloat32LeBs, DFloat64LeBs} then Some (LittleWords, True)
      else if dt \<in> {DInt32Be, DUInt32Be, DInt64Be, DUInt64Be, DFloat32Be, DFloat64Be} then Some (BigWords, False)
      else if dt \<in> {DInt32BeBs, DUInt32BeBs, DInt64BeBs, DUInt64BeBs, DFloat32BeBs, DFloat64BeBs} then Some (BigWords, True)
      else None)"

section \<open>Words\<close>

definition swap_bytes :: "u16 \<Rightarrow> u16" where
  "swap_bytes w = push_bit 8 w OR drop_bit 8 w"

definition order_bytes :: "bool \<Rightarrow> u16 \<Rightarrow> u16" where
  "order_bytes bs r = (if bs then swap_bytes r else r)"

definition word_shift :: "word_order \<Rightarrow> nat \<Rightarrow> nat \<Rightarrow> nat" where
  "word_shift order n i = (case order of LittleWords \<Rightarrow> 16 * i | BigWords \<Rightarrow> 16 * (n - 1 - i))"

fun combine_from :: "nat \<Rightarrow> nat \<Rightarrow> u16 list \<Rightarrow> word_order \<Rightarrow> bool \<Rightarrow> u64 \<Rightarrow> u64" where
  "combine_from n i [] order bs acc = acc"
| "combine_from n i (r # regs) order bs acc =
     combine_from n (i + 1) regs order bs
       (acc OR push_bit (word_shift order n i) (ucast (order_bytes bs r)))"

definition combine :: "u16 list \<Rightarrow> word_order \<Rightarrow> bool \<Rightarrow> u64" where
  "combine regs order bs = combine_from (length regs) 0 regs order bs 0"

definition split_word :: "u64 \<Rightarrow> nat \<Rightarrow> word_order \<Rightarrow> bool \<Rightarrow> nat \<Rightarrow> u16" where
  "split_word v n order bs i =
     (let word = (ucast (drop_bit (word_shift order n i) v AND 0xFFFF) :: u16)
      in order_bytes bs word)"

definition split_words :: "u64 \<Rightarrow> nat \<Rightarrow> word_order \<Rightarrow> bool \<Rightarrow> u16 list" where
  "split_words v n order bs = map (split_word v n order bs) [0..<n]"

definition need_regs :: "u16 list \<Rightarrow> nat \<Rightarrow> modbus_error + unit" where
  "need_regs regs need =
     (if length regs < need then Inl (FrameTooShort (length regs * 2) (need * 2)) else Inr ())"

section \<open>Casts\<close>

definition as_i16 :: "int \<Rightarrow> int" where "as_i16 v = sint (word_of_int v :: u16)"
definition as_i32 :: "int \<Rightarrow> int" where "as_i32 v = sint (word_of_int v :: u32)"

definition negate_promoted_int16 :: "int \<Rightarrow> int" where
  "negate_promoted_int16 v = - as_i16 v"

section \<open>Integers\<close>

text \<open>
  What a conversion that is not an error does: yield a value, go through a floating
  point conversion, or panic (an \<^verbatim>\<open>unwrap\<close> of \<^verbatim>\<open>None\<close>, an overflow in a checked build).
\<close>

datatype 'a conv = Conv 'a | FloatPath | ConvPanic

text \<open>Four nibbles, least significant first.\<close>

fun bcd_value :: "nat \<Rightarrow> u16 \<Rightarrow> int \<Rightarrow> int \<Rightarrow> int" where
  "bcd_value 0 v mult result = result"
| "bcd_value (Suc k) v mult result =
     bcd_value k (drop_bit 4 v) (mult * 10) (result + uint (v AND 0xF) * mult)"

definition read_int64 :: "modbus_data_type \<Rightarrow> u16 list \<Rightarrow> modbus_error + (int \<times> nat) conv" where
  "read_int64 dt regs =
     (if dt = DUInt16 then and_then (need_regs regs 1) (\<lambda>_. Inr (Conv (uint (regs ! 0), 1)))
      else if dt = DInt16 then and_then (need_regs regs 1) (\<lambda>_. Inr (Conv (sint (regs ! 0), 1)))
      else if dt = DInt16Sm then and_then (need_regs regs 1) (\<lambda>_.
        let v = regs ! 0;
            result = (if v AND 0x8000 \<noteq> 0 then - as_i16 (uint (v AND 0x7FFF)) else uint v)
        in Inr (Conv (result, 1)))
      else if dt = DBcdUnsigned \<or> dt = DBcdSigned then and_then (need_regs regs 1) (\<lambda>_.
        let v = regs ! 0;
            negative = (dt = DBcdSigned \<and> v AND 0x8000 \<noteq> 0);
            v = (if negative then v AND 0x7FFF else v);
            result = bcd_value 4 v 1 0
        in Inr (Conv (if negative then - result else result, 1)))
      else if dt \<in> {DInt32Le, DInt32LeBs, DInt32Be, DInt32BeBs} then and_then (need_regs regs 2) (\<lambda>_.
        case order_of dt of
          None \<Rightarrow> Inr ConvPanic
        | Some (order, bs) \<Rightarrow>
            Inr (Conv (sint (ucast (combine (take 2 regs) order bs) :: u32), 2)))
      else if dt \<in> {DUInt32Le, DUInt32LeBs, DUInt32Be, DUInt32BeBs} then and_then (need_regs regs 2) (\<lambda>_.
        case order_of dt of
          None \<Rightarrow> Inr ConvPanic
        | Some (order, bs) \<Rightarrow>
            Inr (Conv (uint (ucast (combine (take 2 regs) order bs) :: u32), 2)))
      else if dt \<in> {DInt64Le, DInt64LeBs, DInt64Be, DInt64BeBs, DUInt64Le, DUInt64LeBs, DUInt64Be,
          DUInt64BeBs} then and_then (need_regs regs 4) (\<lambda>_.
        case order_of dt of
          None \<Rightarrow> Inr ConvPanic
        | Some (order, bs) \<Rightarrow> Inr (Conv (sint (combine (take 4 regs) order bs), 4)))
      else if is_string_type dt then Inl (InvalidFunction 0)
      else and_then (need_regs regs (register_count dt)) (\<lambda>_. Inr FloatPath))"

definition read_int32 :: "modbus_data_type \<Rightarrow> u16 list \<Rightarrow> modbus_error + (int \<times> nat) conv" where
  "read_int32 dt regs =
     and_then (read_int64 dt regs) (\<lambda>c. Inr (case c of
        Conv (v, words) \<Rightarrow> Conv (as_i32 v, words) | FloatPath \<Rightarrow> FloatPath | ConvPanic \<Rightarrow> ConvPanic))"

text \<open>
  The floating point number a read yields, before its last conversion to \<^verbatim>\<open>f64\<close>: a
  32-bit pattern, a 64-bit pattern, or an integer.
\<close>

datatype float_source = Bits32 u32 | Bits64 u64 | OfInt int

definition float_of_int :: "(int \<times> nat) conv \<Rightarrow> (int \<Rightarrow> int) \<Rightarrow> (float_source \<times> nat) conv" where
  "float_of_int c cast = map_conv (\<lambda>(v, words). (OfInt (cast v), words)) c"

definition read_float :: "modbus_data_type \<Rightarrow> u16 list \<Rightarrow> modbus_error + (float_source \<times> nat) conv" where
  "read_float dt regs =
     (if dt \<in> {DUInt16, DInt16Sm, DBcdSigned, DBcdUnsigned, DInt16, DInt32Le, DInt32LeBs, DInt32Be,
          DInt32BeBs}
      then and_then (read_int32 dt regs) (\<lambda>c. Inr (float_of_int c id))
      else if dt \<in> {DUInt32Le, DUInt32LeBs, DUInt32Be, DUInt32BeBs}
      then and_then (read_int64 dt regs) (\<lambda>c. Inr (float_of_int c (\<lambda>v. uint (word_of_int v :: u32))))
      else if dt \<in> {DInt64Le, DInt64LeBs, DInt64Be, DInt64BeBs}
      then and_then (read_int64 dt regs) (\<lambda>c. Inr (float_of_int c id))
      else if dt \<in> {DUInt64Le, DUInt64LeBs, DUInt64Be, DUInt64BeBs}
      then and_then (read_int64 dt regs) (\<lambda>c. Inr (float_of_int c (\<lambda>v. uint (word_of_int v :: u64))))
      else if dt \<in> {DFloat32Le, DFloat32LeBs, DFloat32Be, DFloat32BeBs} then and_then (need_regs regs 2) (\<lambda>_.
        case order_of dt of
          None \<Rightarrow> Inr ConvPanic
        | Some (order, bs) \<Rightarrow> Inr (Conv (Bits32 (ucast (combine (take 2 regs) order bs)), 2)))
      else if dt \<in> {DFloat64Le, DFloat64LeBs, DFloat64Be, DFloat64BeBs} then and_then (need_regs regs 4) (\<lambda>_.
        case order_of dt of
          None \<Rightarrow> Inr ConvPanic
        | Some (order, bs) \<Rightarrow> Inr (Conv (Bits64 (combine (take 4 regs) order bs), 4)))
      else Inl (InvalidFunction 0))"

text \<open>The floating point arms of the writer, on the bits of the (already narrowed) value.\<close>

definition write_float_bits :: "modbus_data_type \<Rightarrow> float_source \<Rightarrow> (u16 list) option" where
  "write_float_bits dt f =
     (case (f, order_of dt) of
        (Bits32 bits, Some (order, bs)) \<Rightarrow> Some (split_words (ucast bits) 2 order bs)
      | (Bits64 bits, Some (order, bs)) \<Rightarrow> Some (split_words bits 4 order bs)
      | _ \<Rightarrow> None)"

text \<open>
  The digit loop of the BCD writers.  Division truncates towards zero, the digit
  is narrowed to 16 bits before the product is subtracted, and a difference
  outside \<^verbatim>\<open>i64\<close> is the overflow panic of a checked build (\<open>None\<close>).
\<close>

definition trunc_div :: "int \<Rightarrow> int \<Rightarrow> int" where
  "trunc_div a b = (if a < 0 then - ((- a) div b) else a div b)"

fun bcd_digits :: "nat \<Rightarrow> int \<Rightarrow> int \<Rightarrow> u16 \<Rightarrow> u16 option" where
  "bcd_digits 0 magnitude dv out = Some out"
| "bcd_digits (Suc k) magnitude dv out =
     (let digit = (word_of_int (trunc_div magnitude dv) :: u16);
          m = magnitude - uint digit * dv
      in if m < - (2 ^ 63) then None
         else bcd_digits k m (trunc_div dv 10) (push_bit 4 out OR (digit AND 0xF)))"

definition write_int64 :: "modbus_data_type \<Rightarrow> int \<Rightarrow> modbus_error + (u16 list) conv" where
  "write_int64 dt v =
     (if dt = DUInt16 \<or> dt = DInt16 then Inr (Conv [word_of_int v])
      else if dt = DInt16Sm then
        let w = (word_of_int v :: u16);
            w = (if w AND 0x8000 \<noteq> 0
                 then word_of_int (negate_promoted_int16 (uint w)) OR 0x8000 else w)
        in Inr (Conv [w])
      else if dt = DBcdUnsigned \<or> dt = DBcdSigned then
        let negative = (dt = DBcdSigned \<and> as_i16 v < 0);
            magnitude = (if negative then negate_promoted_int16 v else v)
        in (case bcd_digits 4 magnitude 1000 0 of
              None \<Rightarrow> Inr ConvPanic
            | Some out \<Rightarrow> Inr (Conv [if negative then out OR 0x8000 else out]))
      else if is_string_type dt then Inl (InvalidFunction 0)
      else if dt \<in> {DFloat32Le, DFloat32LeBs, DFloat32Be, DFloat32BeBs, DFloat64Le, DFloat64LeBs,
          DFloat64Be, DFloat64BeBs} then Inr FloatPath
      else case order_of dt of
          None \<Rightarrow> Inr ConvPanic
        | Some (order, bs) \<Rightarrow>
            if register_count dt = 2
            then Inr (Conv (split_words (ucast (word_of_int v :: u32)) 2 order bs))
            else Inr (Conv (split_words (word_of_int v) 4 order bs)))"

definition write_int32 :: "modbus_data_type \<Rightarrow> int \<Rightarrow> modbus_error + (u16 list) conv" where
  "write_int32 dt v = write_int64 dt v"

section \<open>Strings\<close>

definition reg_hi :: "u16 \<Rightarrow> byte" where "reg_hi r = ucast (drop_bit 8 r)"
definition reg_lo :: "u16 \<Rightarrow> byte" where "reg_lo r = ucast (r AND 0xFF)"

text \<open>The characters one register contributes, before the limit.\<close>

definition reg_chars :: "modbus_data_type \<Rightarrow> u16 \<Rightarrow> byte list" where
  "reg_chars dt r =
     (if dt = DStringHigh \<or> dt = DZStringHigh then [reg_hi r]
      else if dt = DStringLow \<or> dt = DZStringLow then [reg_lo r]
      else if dt = DStringHighLow \<or> dt = DZStringHighLow then [reg_hi r, reg_lo r]
      else [reg_lo r, reg_hi r])"

fun read_chars :: "modbus_data_type \<Rightarrow> u16 list \<Rightarrow> nat \<Rightarrow> byte list \<Rightarrow> nat \<Rightarrow> byte list \<times> nat" where
  "read_chars dt [] max_chars chars idx = (chars, idx)"
| "read_chars dt (r # regs) max_chars chars idx =
     (if length chars < max_chars
      then read_chars dt regs max_chars (take max_chars (chars @ reg_chars dt r)) (idx + 1)
      else (chars, idx))"

definition read_string :: "modbus_data_type \<Rightarrow> u16 list \<Rightarrow> nat \<Rightarrow> modbus_error + byte list \<times> nat" where
  "read_string dt regs max_chars =
     (if \<not> is_string_type dt then Inl (InvalidFunction 0)
      else let (chars, idx) = read_chars dt regs max_chars [] 0
           in Inr (takeWhile (\<lambda>c. c \<noteq> 0) chars, idx))"

text \<open>The loop of the writer; the first two arguments are the registers and characters so far.\<close>

fun write_chars :: "modbus_data_type \<Rightarrow> u16 list \<Rightarrow> nat \<Rightarrow> byte list \<Rightarrow> nat \<Rightarrow> u16 list \<times> nat" where
  "write_chars dt regs idx [] max_regs = (regs, idx)"
| "write_chars dt regs idx (c0 # cs) max_regs =
     (if \<not> length regs < max_regs then (regs, idx)
      else if dt = DStringHigh \<or> dt = DZStringHigh
      then write_chars dt (regs @ [push_bit 8 (ucast c0) AND 0xFF00]) (idx + 1) cs max_regs
      else if dt = DStringLow \<or> dt = DZStringLow
      then write_chars dt (regs @ [ucast c0 AND 0x00FF]) (idx + 1) cs max_regs
      else if dt = DStringHighLow \<or> dt = DZStringHighLow
      then (case cs of
              [] \<Rightarrow> (regs @ [push_bit 8 (ucast c0) AND 0xFF00], idx + 1)
            | c1 # cs' \<Rightarrow>
                write_chars dt (regs @ [(push_bit 8 (ucast c0) AND 0xFF00) OR (ucast c1 AND 0x00FF)])
                  (idx + 2) cs' max_regs)
      else (case cs of
              [] \<Rightarrow> (regs @ [ucast c0 AND 0x00FF], idx + 1)
            | c1 # cs' \<Rightarrow>
                write_chars dt (regs @ [(ucast c0 AND 0x00FF) OR (push_bit 8 (ucast c1) AND 0xFF00)])
                  (idx + 2) cs' max_regs))"

definition write_string :: "modbus_data_type \<Rightarrow> byte list \<Rightarrow> nat \<Rightarrow> modbus_error + u16 list \<times> nat" where
  "write_string dt dat max_regs =
     (if \<not> is_string_type dt then Inl (InvalidFunction 0) else Inr (write_chars dt [] 0 dat max_regs))"

section \<open>Lemmas: words\<close>

lemma bit_swap_bytes: "bit (swap_bytes w) k \<longleftrightarrow> k < 16 \<and> bit w (if k < 8 then k + 8 else k - 8)"
proof (cases "k < 16")
  case True
  have "\<not> bit w (k + 8)" if "\<not> k < 8" using that bit_imp_le_length [of w "k + 8"] by auto
  with True show ?thesis by (auto simp: swap_bytes_def bit_simps add.commute)
qed (use bit_imp_le_length [of "swap_bytes w" k] in auto)

lemma swap_bytes_swap_bytes [simp]: "swap_bytes (swap_bytes w) = w"
  by (rule bit_eqI) (auto simp: bit_swap_bytes possible_bit_def)

lemma order_bytes_order_bytes [simp]: "order_bytes bs (order_bytes bs w) = w"
  by (simp add: order_bytes_def)

lemma bit_combine_from:
  "bit (combine_from n i regs order bs acc) k \<longleftrightarrow>
     bit acc k \<or> (k < 64 \<and> (\<exists>j < length regs. word_shift order n (i + j) \<le> k \<and>
       bit (order_bytes bs (regs ! j)) (k - word_shift order n (i + j))))"
proof (induction n i regs order bs acc rule: combine_from.induct)
  case (2 n i r regs order bs acc)
  let ?w = "order_bytes bs"
  let ?s = "\<lambda>j. word_shift order n (i + j)"
  have split: "(\<exists>j < length (r # regs). ?s j \<le> k \<and> bit (?w ((r # regs) ! j)) (k - ?s j)) \<longleftrightarrow>
      (word_shift order n i \<le> k \<and> bit (?w r) (k - word_shift order n i)) \<or>
      (\<exists>j < length regs. word_shift order n (i + 1 + j) \<le> k \<and>
         bit (?w (regs ! j)) (k - word_shift order n (i + 1 + j)))"
    by (auto simp: less_Suc_eq_0_disj)
  have push: "bit (push_bit (word_shift order n i) (ucast (?w r)) :: u64) k \<longleftrightarrow>
      k < 64 \<and> word_shift order n i \<le> k \<and> bit (?w r) (k - word_shift order n i)"
    by (auto simp: bit_simps dest: bit_imp_le_length)
  show ?case
    unfolding combine_from.simps 2 split bit_or_iff push by blast
qed simp

lemma word_shift_cover:
  assumes "k < 16 * n"
  shows "\<exists>j < n. word_shift order n j = 16 * (k div 16)"
proof -
  have "k div 16 < n" using assms by (simp add: div_less_iff_less_mult mult.commute)
  then show ?thesis
    by (cases order) (auto simp: word_shift_def intro: exI [of _ "k div 16"] exI [of _ "n - 1 - k div 16"])
qed

lemma word_shift_unique:
  assumes "word_shift order n j \<le> k" "k < word_shift order n j + 16"
  shows "word_shift order n j = 16 * (k div 16)"
proof -
  have "16 dvd word_shift order n j" by (cases order) (simp_all add: word_shift_def)
  then obtain q where q: "word_shift order n j = 16 * q" by blast
  then have "k div 16 = q" using assms by (intro div_nat_eqI) simp_all
  with q show ?thesis by simp
qed

lemma word_shift_bound: "j < n \<Longrightarrow> word_shift order n j + 16 \<le> 16 * n"
  by (cases order) (auto simp: word_shift_def)

lemma bit_split_word:
  assumes "n \<le> 4" "j < n"
  shows "bit (order_bytes bs (split_word v n order bs j)) k \<longleftrightarrow>
    k < 16 \<and> bit v (word_shift order n j + k)"
proof -
  have mask: "(0xFFFF :: u64) = mask 16" by code_simp
  have "bit (ucast (drop_bit s v AND 0xFFFF) :: u16) k \<longleftrightarrow> k < 16 \<and> bit v (s + k)" for s
    by (auto simp: bit_simps mask)
  then show ?thesis by (simp add: split_word_def Let_def)
qed

lemma combine_split:
  assumes "n \<le> 4"
  shows "combine (split_words v n order bs) order bs = take_bit (16 * n) v"
proof (rule bit_eqI)
  fix k assume k: "possible_bit TYPE(u64) k"
  let ?s = "word_shift order n"
  have "bit (combine (split_words v n order bs) order bs) k \<longleftrightarrow>
      (\<exists>j < n. ?s j \<le> k \<and> k - ?s j < 16 \<and> bit v k)"
  proof -
    have "length (split_words v n order bs) = n" by (simp add: split_words_def)
    moreover have "split_words v n order bs ! j = split_word v n order bs j" if "j < n" for j
      using that by (simp add: split_words_def)
    ultimately have "bit (combine (split_words v n order bs) order bs) k \<longleftrightarrow>
        (\<exists>j < n. ?s j \<le> k \<and> bit (order_bytes bs (split_word v n order bs j)) (k - ?s j))"
      unfolding combine_def bit_combine_from using k by (simp add: possible_bit_def cong: conj_cong)
    also have "\<dots> \<longleftrightarrow> (\<exists>j < n. ?s j \<le> k \<and> k - ?s j < 16 \<and> bit v k)"
      by (rule ex_cong1, rule conj_cong [OF refl]) (simp add: bit_split_word [OF assms] cong: conj_cong)
    finally show ?thesis .
  qed
  also have "\<dots> \<longleftrightarrow> k < 16 * n \<and> bit v k"
  proof
    assume "\<exists>j < n. ?s j \<le> k \<and> k - ?s j < 16 \<and> bit v k"
    then obtain j where "j < n" "?s j \<le> k" "k - ?s j < 16" "bit v k" by blast
    with word_shift_bound [of j n order] show "k < 16 * n \<and> bit v k" by auto
  next
    assume "k < 16 * n \<and> bit v k"
    with word_shift_cover [of k n order] obtain j where "j < n" "?s j = 16 * (k div 16)" "bit v k" by blast
    moreover have "16 * (k div 16) \<le> k" "k - 16 * (k div 16) < 16"
      by (simp_all add: minus_mult_div_eq_mod)
    ultimately show "\<exists>j < n. ?s j \<le> k \<and> k - ?s j < 16 \<and> bit v k" by auto
  qed
  finally show "bit (combine (split_words v n order bs) order bs) k = bit (take_bit (16 * n) v) k"
    by (simp add: bit_take_bit_iff)
qed

lemma word_shift_inject: "i < n \<Longrightarrow> j < n \<Longrightarrow> word_shift order n i = word_shift order n j \<Longrightarrow> i = j"
  by (cases order) (auto simp: word_shift_def)

lemma split_combine:
  assumes "length regs \<le> 4"
  shows "split_words (combine regs order bs) (length regs) order bs = regs"
proof (rule nth_equalityI)
  fix j assume "j < length (split_words (combine regs order bs) (length regs) order bs)"
  then have j: "j < length regs" by (simp add: split_words_def)
  let ?n = "length regs" and ?w = "order_bytes bs"
  let ?s = "word_shift order ?n"
  have "?w (split_word (combine regs order bs) ?n order bs j) = ?w (regs ! j)"
  proof (rule bit_eqI)
    fix k assume "possible_bit TYPE(u16) k"
    then have k: "k < 16" by (simp add: possible_bit_def)
    have lt: "?s j + k < 64" using word_shift_bound [OF j, of order] k assms by linarith
    have "bit (combine regs order bs) (?s j + k) \<longleftrightarrow>
        (\<exists>i < ?n. ?s i \<le> ?s j + k \<and> bit (?w (regs ! i)) (?s j + k - ?s i))"
      using lt by (simp add: combine_def bit_combine_from)
    also have "\<dots> \<longleftrightarrow> bit (?w (regs ! j)) k"
    proof
      assume "\<exists>i < ?n. ?s i \<le> ?s j + k \<and> bit (?w (regs ! i)) (?s j + k - ?s i)"
      then obtain i where i: "i < ?n" "?s i \<le> ?s j + k" "bit (?w (regs ! i)) (?s j + k - ?s i)" by blast
      then have "?s j + k - ?s i < 16" using bit_imp_le_length [OF i(3)] by simp
      then have "?s i = 16 * ((?s j + k) div 16)" using i(2) by (intro word_shift_unique) simp_all
      moreover have "?s j = 16 * ((?s j + k) div 16)" using k by (intro word_shift_unique) simp_all
      ultimately have "i = j" using word_shift_inject [OF i(1) j] by simp
      with i(3) show "bit (?w (regs ! j)) k" by (simp only: add_diff_cancel_left')
    next
      assume "bit (?w (regs ! j)) k"
      with j show "\<exists>i < ?n. ?s i \<le> ?s j + k \<and> bit (?w (regs ! i)) (?s j + k - ?s i)"
        by (intro exI [of _ j]) simp
    qed
    finally show "bit (?w (split_word (combine regs order bs) ?n order bs j)) k = bit (?w (regs ! j)) k"
      using bit_split_word [OF assms j, of bs "combine regs order bs" order k] k by simp
  qed
  then have "split_word (combine regs order bs) ?n order bs j = regs ! j"
    by (metis order_bytes_order_bytes)
  with j show "split_words (combine regs order bs) ?n order bs ! j = regs ! j"
    by (simp add: split_words_def)
qed (simp add: split_words_def)

section \<open>Lemmas: integers\<close>

lemma order_of_register_count:
  "order_of dt = None \<longleftrightarrow> register_count dt \<le> 1"
  by (cases dt) (simp_all add: order_of_def register_count_def)

lemma register_count_values: "register_count dt \<in> {0, 1, 2, 4}"
  by (simp add: register_count_def)

lemma length_split_words [simp]: "length (split_words v n order bs) = n"
  by (simp add: split_words_def)

lemma combine_split_u32:
  "ucast (combine (split_words (ucast (w :: u32)) 2 order bs) order bs) = w"
proof -
  have "combine (split_words (ucast w) 2 order bs) order bs = (ucast w :: u64)"
    unfolding combine_split [of 2, simplified] by (rule bit_eqI) (auto simp: bit_simps dest: bit_imp_le_length)
  moreover have "ucast (ucast w :: u64) = w" by (rule bit_eqI) (auto simp: bit_simps)
  ultimately show ?thesis by simp
qed

lemma combine_split_u64: "combine (split_words v 4 order bs) order bs = v"
proof -
  have "combine (split_words v 4 order bs) order bs = take_bit 64 v"
    using combine_split [of 4 v order bs] by simp
  also have "take_bit 64 v = v" by (rule bit_eqI) (auto simp: bit_simps dest: bit_imp_le_length)
  finally show ?thesis .
qed

text \<open>Four decimal digits survive the packing into nibbles.\<close>

lemma take_bit_below:
  fixes x :: u16
  assumes "uint x < 2 ^ n"
  shows "take_bit n x = x"
  using assms by (simp add: word_uint_eq_iff unsigned_take_bit_eq take_bit_int_eq_self)

lemma nibble_push:
  fixes x d :: u16
  assumes "uint x < 0x1000"
  shows "drop_bit 4 (push_bit 4 x OR (d AND 0xF)) = x"
    and "(push_bit 4 x OR (d AND 0xF)) AND 0xF = d AND 0xF"
    and "uint (push_bit 4 x OR (d AND 0xF)) < 16 * uint x + 16"
proof -
  have m: "(0xF :: u16) = mask 4" by code_simp
  have "take_bit 12 x = x" using assms by (intro take_bit_below) simp
  then have x: "bit x k \<longleftrightarrow> k < 12 \<and> bit x k" for k by (metis bit_take_bit_iff)
  show drop: "drop_bit 4 (push_bit 4 x OR (d AND 0xF)) = x"
  proof (rule bit_eqI)
    fix k
    show "bit (drop_bit 4 (push_bit 4 x OR (d AND 0xF))) k = bit x k"
      using x [of k] by (auto simp: bit_simps m add.commute)
  qed
  show "(push_bit 4 x OR (d AND 0xF)) AND 0xF = d AND 0xF"
    by (rule bit_eqI) (auto simp: bit_simps m)
  have "uint (push_bit 4 x OR (d AND 0xF)) div 16 = uint x"
    using arg_cong [OF drop, of uint] by (simp add: drop_bit_eq_div uint_div_distrib)
  then show "uint (push_bit 4 x OR (d AND 0xF)) < 16 * uint x + 16" by linarith
qed

lemma bcd_step:
  assumes "0 \<le> q" "q < 10" "0 \<le> r" "r < dv" "0 < dv"
  shows "bcd_digits (Suc k) (q * dv + r) dv out =
    bcd_digits k r (trunc_div dv 10) (push_bit 4 out OR (word_of_int q AND 0xF))"
proof -
  have "0 \<le> q * dv + r" using assms by simp
  then have "trunc_div (q * dv + r) dv = (q * dv + r) div dv" unfolding trunc_div_def by (rule if_not_P [OF leD])
  then have "trunc_div (q * dv + r) dv = q" using assms by simp
  moreover have "uint (word_of_int q :: u16) = q"
    using assms by (simp add: uint_word_of_int take_bit_int_eq_self)
  ultimately show ?thesis using assms by (simp add: Let_def)
qed

lemma digit_nibble:
  assumes "0 \<le> q" "q < 10"
  shows "uint ((word_of_int q :: u16) AND 0xF) = q"
proof -
  have "(word_of_int q :: u16) AND 0xF = take_bit 4 (word_of_int q)"
    unfolding take_bit_eq_mask by (simp add: mask_eq_exp_minus_1)
  also have "uint \<dots> = q"
    using assms by (simp add: unsigned_take_bit_eq uint_word_of_int take_bit_take_bit take_bit_int_eq_self)
  finally show ?thesis .
qed

lemma bcd_roundtrip:
  assumes "0 \<le> m" "m \<le> 9999"
  obtains out where "bcd_digits 4 m 1000 0 = Some out" "bcd_value 4 out 1 0 = m"
    "uint out < 0x1000 * (m div 1000 + 1)"
proof -
  define q1 q2 a where "q1 = m div 10" and "q2 = q1 div 10" and "a = q2 div 10"
  define b c d where "b = q2 mod 10" and "c = q1 mod 10" and "d = m mod 10"
  have eqs: "m = 10 * q1 + d" "q1 = 10 * q2 + c" "q2 = 10 * a + b"
    by (simp_all only: q1_def q2_def a_def b_def c_def d_def mult_div_mod_eq)
  have dig: "0 \<le> b" "b < 10" "0 \<le> c" "c < 10" "0 \<le> d" "d < 10"
    by (simp_all add: b_def c_def d_def)
  then have "0 \<le> a" "a < 10" using eqs assms by linarith+
  note rng = this dig
  have m: "m = a * 1000 + (b * 100 + (c * 10 + d))" using eqs by linarith
  have a: "m div 1000 = a" using m rng by (intro int_div_pos_eq [of _ _ _ "b * 100 + (c * 10 + d)"]) simp_all
  define pk where "pk x q = push_bit 4 x OR (word_of_int q AND 0xF)" for x :: u16 and q
  have t: "trunc_div 1000 10 = 100" "trunc_div 100 10 = 10" "trunc_div 10 10 = 1" "trunc_div 1 10 = 0"
    by (simp_all add: trunc_div_def)
  let ?p1 = "pk 0 a" let ?p2 = "pk ?p1 b" let ?p3 = "pk ?p2 c" let ?p4 = "pk ?p3 d"
  have four: "4 = Suc (Suc (Suc (Suc 0)))" by simp
  have "bcd_digits (Suc 0) d 1 ?p3 = Some ?p4"
    using bcd_step [of d 0 1 0 ?p3] rng by (simp add: pk_def)
  moreover have "bcd_digits (Suc (Suc 0)) (c * 10 + d) 10 ?p2 = bcd_digits (Suc 0) d 1 ?p3"
    using bcd_step [of c d 10 "Suc 0" ?p2] rng by (simp del: bcd_digits.simps add: t pk_def)
  moreover have "bcd_digits (Suc (Suc (Suc 0))) (b * 100 + (c * 10 + d)) 100 ?p1 =
      bcd_digits (Suc (Suc 0)) (c * 10 + d) 10 ?p2"
    using bcd_step [of b "c * 10 + d" 100 "Suc (Suc 0)" ?p1] rng by (simp del: bcd_digits.simps add: t pk_def)
  moreover have "bcd_digits (Suc (Suc (Suc (Suc 0)))) m 1000 0 =
      bcd_digits (Suc (Suc (Suc 0))) (b * 100 + (c * 10 + d)) 100 ?p1"
    using bcd_step [of a "b * 100 + (c * 10 + d)" 1000 "Suc (Suc (Suc 0))" 0] rng
    by (simp del: bcd_digits.simps add: t pk_def m)
  ultimately have digits: "bcd_digits 4 m 1000 0 = Some ?p4" unfolding four by simp
  have z: "uint (0 :: u16) < 0x1000" by simp
  have p1: "uint ?p1 = a"
    using rng by (simp add: pk_def digit_nibble)
  then have l1: "uint ?p1 < 0x1000" using rng by simp
  have l2': "uint ?p2 < 16 * a + 16" using nibble_push(3) [OF l1] p1 by (simp add: pk_def)
  then have l2: "uint ?p2 < 0x1000" using rng by simp
  have l3': "uint ?p3 < 256 * a + 256" using nibble_push(3) [OF l2, of "word_of_int c"] l2' by (simp add: pk_def)
  then have l3: "uint ?p3 < 0x1000" using rng by simp
  have l4: "uint ?p4 < 4096 * a + 4096" using nibble_push(3) [OF l3, of "word_of_int d"] l3' by (simp add: pk_def)
  have "drop_bit 4 ?p4 = ?p3" "drop_bit 4 ?p3 = ?p2" "drop_bit 4 ?p2 = ?p1"
    using nibble_push(1) [OF l1] nibble_push(1) [OF l2] nibble_push(1) [OF l3] by (simp_all add: pk_def)
  moreover have "uint (?p4 AND 0xF) = d" "uint (?p3 AND 0xF) = c" "uint (?p2 AND 0xF) = b" "uint (?p1 AND 0xF) = a"
    using nibble_push(2) [OF l1] nibble_push(2) [OF l2] nibble_push(2) [OF l3] nibble_push(2) [OF z] digit_nibble rng
    by (simp_all add: pk_def)
  ultimately have "bcd_value (Suc (Suc (Suc (Suc 0)))) ?p4 1 0 = m"
    by (simp only: bcd_value.simps) (simp add: m)
  then have "bcd_value 4 ?p4 1 0 = m" unfolding four .
  with digits show thesis
    by (rule that) (use l4 in \<open>simp add: a algebra_simps\<close>)
qed

text \<open>The sign bit beside a 15-bit magnitude.\<close>

lemma bit_0x8000: "bit (0x8000 :: u16) k \<longleftrightarrow> k = 15"
proof -
  have "(0x8000 :: u16) = push_bit 15 1" by code_simp
  then show ?thesis by (simp only: bit_push_bit_iff bit_1_iff) auto
qed

lemma sign_bit:
  fixes x :: u16
  assumes "uint x < 0x8000"
  shows "x AND 0x8000 = 0" "(x OR 0x8000) AND 0x7FFF = x" "(x OR 0x8000) AND 0x8000 \<noteq> 0"
proof -
  have m: "(0x7FFF :: u16) = mask 15" by code_simp
  have "take_bit 15 x = x" using assms by (intro take_bit_below) simp
  then have x: "bit x k \<longleftrightarrow> k < 15 \<and> bit x k" for k by (metis bit_take_bit_iff)
  show "x AND 0x8000 = 0"
  proof (rule bit_eqI)
    fix k show "bit (x AND 0x8000) k = bit (0 :: u16) k"
      using x [of k] unfolding m by (simp only: bit_and_iff bit_or_iff bit_mask_iff bit_0x8000 bit_0_eq) auto
  qed
  show "(x OR 0x8000) AND 0x7FFF = x"
  proof (rule bit_eqI)
    fix k show "bit ((x OR 0x8000) AND 0x7FFF) k = bit x k"
      using x [of k] unfolding m by (simp only: bit_and_iff bit_or_iff bit_mask_iff bit_0x8000 bit_0_eq) auto
  qed
  have "bit ((x OR 0x8000) AND 0x8000) 15" by (simp only: bit_and_iff bit_or_iff bit_mask_iff bit_0x8000 simp_thms)
  then show "(x OR 0x8000) AND 0x8000 \<noteq> 0" by (metis bit_0_eq bot_apply bot_bool_def)
qed

lemma as_i16_small: "- 0x8000 \<le> v \<Longrightarrow> v < 0x8000 \<Longrightarrow> as_i16 v = v"
  unfolding as_i16_def by (simp add: signed_of_int signed_take_bit_int_eq_self)

lemma negative_word: "- 0x8000 \<le> v \<Longrightarrow> v < 0 \<Longrightarrow> (word_of_int v :: u16) AND 0x8000 \<noteq> 0"
proof -
  assume v: "- 0x8000 \<le> v" "v < 0"
  then have "sint (word_of_int v :: u16) < 0" by (simp add: signed_of_int signed_take_bit_int_eq_self)
  then have b: "bit (word_of_int v :: u16) 15" by (simp add: sint_uint not_le bit_last_iff bit_uint_iff)
  have "bit ((word_of_int v :: u16) AND 0x8000) 15" using b by (simp only: bit_and_iff bit_or_iff bit_mask_iff bit_0x8000 simp_thms)
  then show ?thesis by (metis bit_0_eq bot_apply bot_bool_def)
qed

lemma uint_small: "0 \<le> v \<Longrightarrow> v < 0x10000 \<Longrightarrow> uint (word_of_int v :: u16) = v"
  by (simp add: uint_word_of_int take_bit_int_eq_self)

text \<open>The range of values each integer type holds exactly.\<close>

definition in_range :: "modbus_data_type \<Rightarrow> int \<Rightarrow> bool" where
  "in_range dt v \<longleftrightarrow>
     (if dt = DUInt16 then 0 \<le> v \<and> v < 2 ^ 16
      else if dt = DInt16 then - (2 ^ 15) \<le> v \<and> v < 2 ^ 15
      else if dt = DInt16Sm then \<bar>v\<bar> \<le> 32767
      else if dt = DBcdUnsigned then 0 \<le> v \<and> v \<le> 9999
      else if dt = DBcdSigned then \<bar>v\<bar> \<le> 7999
      else if dt \<in> {DInt32Le, DInt32LeBs, DInt32Be, DInt32BeBs} then - (2 ^ 31) \<le> v \<and> v < 2 ^ 31
      else if dt \<in> {DUInt32Le, DUInt32LeBs, DUInt32Be, DUInt32BeBs} then 0 \<le> v \<and> v < 2 ^ 32
      else dt \<in> {DInt64Le, DInt64LeBs, DInt64Be, DInt64BeBs, DUInt64Le, DUInt64LeBs, DUInt64Be,
          DUInt64BeBs} \<and> - (2 ^ 63) \<le> v \<and> v < 2 ^ 63)"

lemma in_range_cases:
  assumes "in_range dt v"
  obtains "dt = DUInt16" "0 \<le> v" "v < 0x10000"
  | "dt = DInt16" "- 0x8000 \<le> v" "v < 0x8000"
  | "dt = DInt16Sm" "\<bar>v\<bar> \<le> 32767"
  | "dt = DBcdUnsigned" "0 \<le> v" "v \<le> 9999"
  | "dt = DBcdSigned" "\<bar>v\<bar> \<le> 7999"
  | order bs where "dt \<in> {DInt32Le, DInt32LeBs, DInt32Be, DInt32BeBs}" "order_of dt = Some (order, bs)"
      "register_count dt = 2" "- (2 ^ 31) \<le> v" "v < 2 ^ 31"
  | order bs where "dt \<in> {DUInt32Le, DUInt32LeBs, DUInt32Be, DUInt32BeBs}" "order_of dt = Some (order, bs)"
      "register_count dt = 2" "0 \<le> v" "v < 2 ^ 32"
  | order bs where "dt \<in> {DInt64Le, DInt64LeBs, DInt64Be, DInt64BeBs, DUInt64Le, DUInt64LeBs, DUInt64Be,
          DUInt64BeBs}" "order_of dt = Some (order, bs)"
      "register_count dt = 4" "- (2 ^ 63) \<le> v" "v < 2 ^ 63"
  using assms by (cases dt) (auto simp: in_range_def order_of_def register_count_def)

lemma need_regs_enough: "n \<le> length regs \<Longrightarrow> need_regs regs n = Inr ()"
  by (simp add: need_regs_def)

lemma bcd_write_read:
  assumes "in_range dt v" "dt = DBcdUnsigned \<or> dt = DBcdSigned"
  shows "\<exists>w. write_int64 dt v = Inr (Conv [w]) \<and> read_int64 dt (w # rest) = Inr (Conv (v, 1))"
proof (cases "dt = DBcdSigned \<and> v < 0")
  case True
  then have v: "- 7999 \<le> v" "v < 0" "as_i16 v = v" using assms(1) by (auto simp: in_range_def intro: as_i16_small)
  obtain out where out: "bcd_digits 4 (- v) 1000 0 = Some out" "bcd_value 4 out 1 0 = - v"
      "uint out < 0x1000 * (- v div 1000 + 1)"
    using v by (rule_tac bcd_roundtrip [of "- v"]) simp_all
  have "- v div 1000 \<le> 7" using v by linarith
  then have "0x1000 * (- v div 1000 + 1) \<le> 0x8000" by simp
  with out(3) have "uint out < 0x8000" by (rule order.strict_trans2)
  note sb = sign_bit [OF this]
  have "write_int64 dt v = Inr (Conv [out OR 0x8000])"
    using True v out(1) by (simp add: write_int64_def negate_promoted_int16_def)
  moreover have "read_int64 dt ((out OR 0x8000) # rest) = Inr (Conv (v, 1))"
    using True sb out(2) by (simp add: read_int64_def need_regs_def)
  ultimately show ?thesis by blast
next
  case False
  with assms have v: "0 \<le> v" "v \<le> 9999" "dt = DBcdSigned \<Longrightarrow> v \<le> 7999" by (auto simp: in_range_def)
  have pos: "\<not> as_i16 v < 0" using v as_i16_small [of v] by simp
  obtain out where out: "bcd_digits 4 v 1000 0 = Some out" "bcd_value 4 out 1 0 = v"
      "uint out < 0x1000 * (v div 1000 + 1)"
    using v(1,2) by (rule bcd_roundtrip)
  have "dt = DBcdSigned \<Longrightarrow> 0x1000 * (v div 1000 + 1) \<le> 0x8000" using v(3) by simp
  then have "dt = DBcdSigned \<Longrightarrow> uint out < 0x8000" using out(3) by (blast intro: order.strict_trans2)
  then have sb: "dt = DBcdSigned \<Longrightarrow> out AND 0x8000 = 0" by (rule sign_bit(1))
  have "write_int64 dt v = Inr (Conv [out])"
    using assms(2) pos out(1) by (auto simp: write_int64_def)
  moreover have "read_int64 dt (out # rest) = Inr (Conv (v, 1))"
    using assms(2) sb out(2) by (auto simp: read_int64_def need_regs_def)
  ultimately show ?thesis by blast
qed

lemma sm_write_read:
  assumes "\<bar>v\<bar> \<le> 32767"
  shows "\<exists>w. write_int64 DInt16Sm v = Inr (Conv [w]) \<and> read_int64 DInt16Sm (w # rest) = Inr (Conv (v, 1))"
proof (cases "0 \<le> v")
  case True
  then have u: "uint (word_of_int v :: u16) = v" using assms by (intro uint_small) simp_all
  then have "uint (word_of_int v :: u16) < 0x8000" using assms by simp
  note sb = sign_bit(1) [OF this]
  show ?thesis
    by (intro exI [of _ "word_of_int v"] conjI) (simp_all add: write_int64_def read_int64_def need_regs_def sb u)
next
  case False
  let ?w = "word_of_int v :: u16" and ?m = "word_of_int (- v) :: u16"
  have neg: "?w AND 0x8000 \<noteq> 0" using False assms by (intro negative_word) simp_all
  have u: "uint ?m = - v" using False assms by (intro uint_small) simp_all
  then have "uint ?m < 0x8000" using assms by simp
  note sb = sign_bit [OF this]
  have "negate_promoted_int16 (uint ?w) = - v"
    using as_i16_small [of v] False assms by (simp add: negate_promoted_int16_def as_i16_def)
  then have "write_int64 DInt16Sm v = Inr (Conv [?m OR 0x8000])"
    using neg by (simp add: write_int64_def)
  moreover have "read_int64 DInt16Sm ((?m OR 0x8000) # rest) = Inr (Conv (v, 1))"
    using sb u as_i16_small [of "- v"] False assms by (simp add: read_int64_def need_regs_def)
  ultimately show ?thesis by blast
qed

text \<open>Every value in a type's range is read back from the registers it was written to.\<close>

lemma write_read_int64:
  assumes "in_range dt v"
  shows "\<exists>regs. write_int64 dt v = Inr (Conv regs) \<and> length regs = register_count dt \<and>
    read_int64 dt (regs @ rest) = Inr (Conv (v, register_count dt))"
  using assms
proof (cases rule: in_range_cases)
  case 1
  then show ?thesis
    by (simp add: write_int64_def read_int64_def need_regs_def register_count_def uint_small)
next
  case 2
  then show ?thesis
    by (simp add: write_int64_def read_int64_def need_regs_def register_count_def signed_of_int
        signed_take_bit_int_eq_self)
next
  case 3
  then obtain w where "write_int64 dt v = Inr (Conv [w])" "read_int64 dt (w # rest) = Inr (Conv (v, 1))"
    using sm_write_read by blast
  then show ?thesis using 3 by (simp add: register_count_def)
next
  case 4
  then obtain w where "write_int64 dt v = Inr (Conv [w])" "read_int64 dt (w # rest) = Inr (Conv (v, 1))"
    using bcd_write_read [OF assms] by blast
  then show ?thesis using 4 by (simp add: register_count_def)
next
  case 5
  then obtain w where "write_int64 dt v = Inr (Conv [w])" "read_int64 dt (w # rest) = Inr (Conv (v, 1))"
    using bcd_write_read [OF assms] by blast
  then show ?thesis using 5 by (simp add: register_count_def)
next
  case (6 order bs)
  let ?regs = "split_words (ucast (word_of_int v :: u32)) 2 order bs"
  have "write_int64 dt v = Inr (Conv ?regs)" using 6 by (auto simp: write_int64_def is_string_type_def)
  moreover have "sint (word_of_int v :: u32) = v"
    using 6 by (simp add: signed_of_int signed_take_bit_int_eq_self)
  then have "read_int64 dt (?regs @ rest) = Inr (Conv (v, 2))"
    using 6 combine_split_u32 by (auto simp: read_int64_def need_regs_enough)
  ultimately show ?thesis using 6 by simp
next
  case (7 order bs)
  let ?regs = "split_words (ucast (word_of_int v :: u32)) 2 order bs"
  have "write_int64 dt v = Inr (Conv ?regs)" using 7 by (auto simp: write_int64_def is_string_type_def)
  moreover have "uint (word_of_int v :: u32) = v"
    using 7 by (simp add: uint_word_of_int take_bit_int_eq_self)
  then have "read_int64 dt (?regs @ rest) = Inr (Conv (v, 2))"
    using 7 combine_split_u32 by (auto simp: read_int64_def need_regs_enough)
  ultimately show ?thesis using 7 by simp
next
  case (8 order bs)
  let ?regs = "split_words (word_of_int v) 4 order bs"
  have "write_int64 dt v = Inr (Conv ?regs)" using 8 by (auto simp: write_int64_def is_string_type_def)
  moreover have "sint (word_of_int v :: u64) = v"
    using 8 by (simp add: signed_of_int signed_take_bit_int_eq_self)
  then have "read_int64 dt (?regs @ rest) = Inr (Conv (v, 4))"
    using 8 combine_split_u64 by (auto simp: read_int64_def need_regs_enough)
  ultimately show ?thesis using 8 by simp
qed

text \<open>
  Where the digit loop of the BCD writers leaves the range of \<^verbatim>\<open>i64\<close>: a digit is the low
  16 bits of a quotient read as unsigned, so below zero it can be far too large.
\<close>

lemma uint16_le: "0 \<le> uint (w :: u16)" "uint (w :: u16) \<le> 65535"
  using uint_bounded [of w] by simp_all

lemma as_i16_range: "- 32768 \<le> as_i16 v" "as_i16 v \<le> 32767"
  using sint_greater_eq [of "word_of_int v :: u16"] sint_less [of "word_of_int v :: u16"] by (simp_all add: as_i16_def)

lemma bcd_digits_step:
  assumes "- (2 ^ 63) + 65535 * dv \<le> m" "0 \<le> dv"
  obtains m' out' where "bcd_digits (Suc k) m dv out = bcd_digits k m' (trunc_div dv 10) out'" "m - 65535 * dv \<le> m'"
proof -
  let ?d = "word_of_int (trunc_div m dv) :: u16"
  have "m - 65535 * dv \<le> m - uint ?d * dv"
    using uint16_le [of ?d] mult_right_mono [OF uint16_le(2) [of ?d] assms(2)] by simp
  moreover from this assms(1) have "\<not> m - uint ?d * dv < - (2 ^ 63)" by linarith
  ultimately show thesis by (intro that [of "m - uint ?d * dv"]) (simp_all add: Let_def)
qed

lemma bcd_digits_total:
  assumes "- (2 ^ 63) + 65535 * 111 \<le> m"
  shows "bcd_digits 3 m 100 out \<noteq> None"
proof -
  have dv: "trunc_div 100 10 = 10" "trunc_div 10 10 = 1" by (simp_all add: trunc_div_def)
  obtain m1 o1 where 1: "bcd_digits (Suc 2) m 100 out = bcd_digits 2 m1 (trunc_div 100 10) o1" "m - 65535 * 100 \<le> m1"
    by (rule bcd_digits_step [of 100 m 2 out]) (use assms in simp_all)
  obtain m2 o2 where 2: "bcd_digits (Suc 1) m1 10 o1 = bcd_digits 1 m2 (trunc_div 10 10) o2" "m1 - 65535 * 10 \<le> m2"
    by (rule bcd_digits_step [of 10 m1 1 o1]) (use assms 1(2) in simp_all)
  obtain m3 o3 where 3: "bcd_digits (Suc 0) m2 1 o2 = bcd_digits 0 m3 (trunc_div 1 10) o3"
    by (rule bcd_digits_step [of 1 m2 0 o2]) (use assms 1(2) 2(2) in simp_all)
  from 1(1) 2(1) 3 show ?thesis unfolding dv by (simp add: numeral_3_eq_3 numeral_2_eq_2)
qed

text \<open>
  The first digit on a value \<open>j\<close> above the lowest: it grows with \<open>j div 1000\<close> from
  44041 until it wraps, and up to there its product exceeds \<open>j\<close>.
\<close>

lemma bcd_first_digit:
  assumes v: "- (2 ^ 63) \<le> v" "v < - (2 ^ 63) + 65535 * 1111"
  defines "m \<equiv> v - uint (word_of_int (trunc_div v 1000) :: u16) * 1000"
  shows "if v < - 9223372036833280999 then m < - (2 ^ 63) else - (2 ^ 63) + 65535 * 111 \<le> m"
proof -
  define n where "n = (- v) div 1000"
  define r where "r = (- v) mod 1000"
  have split: "- v = 1000 * n + r" and r: "0 \<le> r" "r < 1000" by (simp_all add: n_def r_def)
  define i where "i = 9223372036854775 - n"
  have m: "m = v - ((- n) mod 65536) * 1000"
  proof -
    have "trunc_div v 1000 = - n" using v by (simp add: trunc_div_def n_def)
    moreover have "uint (word_of_int x :: u16) = x mod 65536" for x by (simp add: uint_word_of_int)
    ultimately show ?thesis by (simp only: m_def)
  qed
  have i: "0 \<le> i" "i < 21495 + 65536" using split r v by (simp_all add: i_def)
  have n: "- n = (i - 21495) + (- 140737488355) * 65536" by (simp add: i_def)
  have dig: "(- n) mod 65536 = (i - 21495) mod 65536" unfolding n by (rule mod_mult_self1)
  show ?thesis
  proof (cases "i < 21495")
    case True
    then have "(i - 21495) mod 65536 = i + 44041"
      using i(1) mod_pos_pos_trivial [of "i + 44041" 65536] mod_add_self2 [of "i - 21495" "65536 :: int"] by simp
    with True show ?thesis using split r dig m i by (simp add: i_def)
  next
    case False
    then have "(i - 21495) mod 65536 = i - 21495" using i(2) by simp
    with False show ?thesis using split r dig m i by (simp add: i_def)
  qed
qed

lemma bcd_digits_overflow:
  assumes "- (2 ^ 63) \<le> v"
  shows "bcd_digits 4 v 1000 0 = None \<longleftrightarrow> v < - 9223372036833280999"
proof -
  define m where "m = v - uint (word_of_int (trunc_div v 1000) :: u16) * 1000"
  define out where "out = (push_bit 4 0 OR ((word_of_int (trunc_div v 1000) :: u16) AND 0xF))"
  have "trunc_div 1000 10 = 100" "(4 :: nat) = Suc 3" by (simp_all add: trunc_div_def)
  then have unf: "bcd_digits 4 v 1000 0 = (if m < - (2 ^ 63) then None else bcd_digits 3 m 100 out)"
    by (simp only: bcd_digits.simps(2) Let_def m_def out_def)
  show ?thesis
  proof (cases "v < - (2 ^ 63) + 65535 * 1111")
    case True
    from bcd_first_digit [OF assms True] show ?thesis
      using bcd_digits_total [of m out] by (auto simp: unf m_def [symmetric] split: if_splits)
  next
    case False
    then have "- (2 ^ 63) + 65535 * 111 \<le> m"
      using uint16_le(2) [of "word_of_int (trunc_div v 1000)"] by (simp add: m_def)
    with False show ?thesis using bcd_digits_total [of m out] by (simp add: unf)
  qed
qed

text \<open>
  The signed writer negates a value whose low half is negative, so its digit loop
  starts from a small magnitude there and from the value itself otherwise.
\<close>

lemma bcd_overflow_iff:
  assumes "dt = DBcdUnsigned \<or> dt = DBcdSigned" "- (2 ^ 63) \<le> v"
  shows "if v < - 9223372036833280999 \<and> (dt = DBcdUnsigned \<or> 0 \<le> as_i16 v)
    then write_int64 dt v = Inr ConvPanic else \<exists>w. write_int64 dt v = Inr (Conv [w])"
proof (cases "dt = DBcdSigned \<and> as_i16 v < 0")
  case True
  have "- (2 ^ 63) \<le> negate_promoted_int16 v" "\<not> negate_promoted_int16 v < - 9223372036833280999"
    using as_i16_range [of v] by (simp_all add: negate_promoted_int16_def)
  with bcd_digits_overflow obtain out where "bcd_digits 4 (negate_promoted_int16 v) 1000 0 = Some out" by fastforce
  with True show ?thesis by (simp add: write_int64_def Let_def)
next
  case False
  then have "write_int64 dt v = (case bcd_digits 4 v 1000 0 of None \<Rightarrow> Inr ConvPanic | Some out \<Rightarrow> Inr (Conv [out]))"
    using assms(1) by (auto simp: write_int64_def Let_def split: option.split)
  with False assms(1) bcd_digits_overflow [OF assms(2)] show ?thesis by (auto split: option.split)
qed

section \<open>Lemmas: strings\<close>

lemma bit_0xFF00: "bit (0xFF00 :: u16) k \<longleftrightarrow> 8 \<le> k \<and> k < 16"
proof -
  have "(0xFF00 :: u16) = push_bit 8 (mask 8)" by code_simp
  then show ?thesis by (simp only: bit_push_bit_iff bit_mask_iff possible_bit_def) auto
qed

lemma bit_0x00FF: "bit (0x00FF :: u16) k \<longleftrightarrow> k < 8"
proof -
  have "(0x00FF :: u16) = mask 8" by code_simp
  then show ?thesis by (simp only: bit_mask_iff possible_bit_def) auto
qed

lemmas half_bits = bit_and_iff bit_or_iff bit_push_bit_iff bit_drop_bit_eq bit_ucast_iff bit_0xFF00
  bit_0x00FF possible_bit_def comp_def

definition pack_chars :: "byte \<Rightarrow> byte \<Rightarrow> u16" where
  "pack_chars hi lo = (push_bit 8 (ucast hi) AND 0xFF00) OR (ucast lo AND 0x00FF)"

lemma bit_pack_chars:
  "bit (pack_chars hi lo) k \<longleftrightarrow> (if k < 8 then bit lo k else k < 16 \<and> bit hi (k - 8))"
  unfolding pack_chars_def by (simp only: half_bits) (auto dest: bit_imp_le_length)

lemma reg_hi_pack [simp]: "reg_hi (pack_chars hi lo) = hi"
  by (rule bit_eqI) (auto simp: reg_hi_def bit_simps bit_pack_chars)

lemma reg_lo_pack [simp]: "reg_lo (pack_chars hi lo) = lo"
proof (rule bit_eqI)
  fix k assume "possible_bit TYPE(byte) k"
  then have "k < 8" by (simp add: possible_bit_def)
  then show "bit (reg_lo (pack_chars hi lo)) k = bit lo k"
    unfolding reg_lo_def by (simp only: half_bits bit_pack_chars) auto
qed

lemma pack_hi: "push_bit 8 (ucast c) AND 0xFF00 = pack_chars c 0"
  and pack_lo: "ucast c AND 0x00FF = pack_chars 0 c"
  by (simp_all add: pack_chars_def)

lemma pack_join: "pack_chars hi 0 OR pack_chars 0 lo = pack_chars hi lo"
  "pack_chars 0 lo OR pack_chars hi 0 = pack_chars hi lo"
  by (simp_all add: pack_chars_def or.commute)

text \<open>The number of characters a register of a string type holds.\<close>

definition chars_per_reg :: "modbus_data_type \<Rightarrow> nat" where
  "chars_per_reg dt = (if dt \<in> {DStringHigh, DZStringHigh, DStringLow, DZStringLow} then 1 else 2)"

definition padded :: "modbus_data_type \<Rightarrow> byte list \<Rightarrow> nat \<Rightarrow> u16 list \<Rightarrow> bool" where
  "padded dt s room R \<longleftrightarrow> length R \<le> room \<and>
     (concat (map (reg_chars dt) R) = take (chars_per_reg dt * room) s \<or>
      concat (map (reg_chars dt) R) = s @ [0] \<and> length s < chars_per_reg dt * room)"

lemma padded_step1:
  assumes "padded dt s room R" "chars_per_reg dt = 1" "reg_chars dt r = [c]"
  shows "padded dt (c # s) (Suc room) (r # R)"
  using assms by (auto simp: padded_def)

lemma padded_step2:
  assumes "padded dt s room R" "chars_per_reg dt = 2" "reg_chars dt r = [c, c']"
  shows "padded dt (c # c' # s) (Suc room) (r # R)"
  using assms by (auto simp: padded_def)

lemma padded_last:
  assumes "chars_per_reg dt = 2" "reg_chars dt r = [c, 0]"
  shows "padded dt [c] (Suc room) [r]"
  using assms by (auto simp: padded_def)

text \<open>How a string type lays one or two characters out in a register.\<close>

definition put_chars :: "modbus_data_type \<Rightarrow> byte \<Rightarrow> byte \<Rightarrow> u16" where
  "put_chars dt c c' =
     (if dt \<in> {DStringHigh, DZStringHigh} then pack_chars c 0
      else if dt \<in> {DStringLow, DZStringLow} then pack_chars 0 c
      else if dt \<in> {DStringHighLow, DZStringHighLow} then pack_chars c c' else pack_chars c' c)"

lemma reg_chars_put:
  "chars_per_reg dt = 1 \<Longrightarrow> reg_chars dt (put_chars dt c c') = [c]"
  "chars_per_reg dt = 2 \<Longrightarrow> reg_chars dt (put_chars dt c c') = [c, c']"
  by (auto simp: chars_per_reg_def put_chars_def reg_chars_def split: if_splits)

lemma chars_per_reg_cases: "chars_per_reg dt = 1 \<or> chars_per_reg dt = 2"
  by (simp add: chars_per_reg_def)

lemma write_chars_one:
  assumes "chars_per_reg dt = 1" "length regs < max_regs"
  shows "write_chars dt regs idx (c # cs) max_regs =
    write_chars dt (regs @ [put_chars dt c 0]) (idx + 1) cs max_regs"
  using assms by (auto simp: chars_per_reg_def put_chars_def pack_hi pack_lo split: if_splits)

lemma write_chars_two:
  assumes "chars_per_reg dt = 2" "is_string_type dt" "length regs < max_regs"
  shows "write_chars dt regs idx [c] max_regs = (regs @ [put_chars dt c 0], idx + 1)"
    "write_chars dt regs idx (c # c' # cs) max_regs =
      write_chars dt (regs @ [put_chars dt c c']) (idx + 2) cs max_regs"
  using assms unfolding chars_per_reg_def is_string_type_def
  by (auto simp: put_chars_def pack_hi pack_lo pack_join split: if_splits)

lemma write_chars_spec:
  assumes "is_string_type dt"
  shows "\<exists>R. write_chars dt regs idx s max_regs =
      (regs @ R, idx + min (length s) (chars_per_reg dt * (max_regs - length regs))) \<and>
    padded dt s (max_regs - length regs) R"
proof (induction "length s" arbitrary: regs idx s rule: less_induct)
  case less
  consider "s = []" | "\<not> length regs < max_regs"
    | c cs where "s = c # cs" "length regs < max_regs" by (cases s) auto
  then show ?case
  proof cases
    case 1
    then show ?thesis by (simp add: padded_def)
  next
    case 2
    then show ?thesis by (cases s) (simp_all add: padded_def)
  next
    case (3 c cs)
    then obtain room where room: "max_regs - length regs = Suc room" "max_regs - Suc (length regs) = room"
      by (metis Suc_diff_Suc)
    show ?thesis
    proof (cases "chars_per_reg dt = 1")
      case True
      from less [of cs "regs @ [put_chars dt c 0]" "idx + 1"] 3 room True obtain R where
        R: "write_chars dt (regs @ [put_chars dt c 0]) (idx + 1) cs max_regs =
            ((regs @ [put_chars dt c 0]) @ R, idx + 1 + min (length cs) room)" "padded dt cs room R"
        by auto
      then have "padded dt s (Suc room) (put_chars dt c 0 # R)"
        using padded_step1 [OF R(2) True reg_chars_put(1) [OF True]] 3 by simp
      with R(1) show ?thesis
        using write_chars_one [OF True 3(2)] room 3 True
        by (intro exI [of _ "put_chars dt c 0 # R"]) simp
    next
      case False
      then have two: "chars_per_reg dt = 2" using chars_per_reg_cases [of dt] by simp
      note w2 = write_chars_two [OF two assms 3(2)]
      show ?thesis
      proof (cases cs)
        case Nil
        then show ?thesis
          using w2(1) padded_last [OF two reg_chars_put(2) [OF two], of c room] room 3 two
          by (intro exI [of _ "[put_chars dt c 0]"]) simp
      next
        case (Cons c' cs')
        from less [of cs' "regs @ [put_chars dt c c']" "idx + 2"] 3 Cons room two obtain R where
          R: "write_chars dt (regs @ [put_chars dt c c']) (idx + 2) cs' max_regs =
              ((regs @ [put_chars dt c c']) @ R, idx + 2 + min (length cs') (2 * room))" "padded dt cs' room R"
          by auto
        then have "padded dt s (Suc room) (put_chars dt c c' # R)"
          using padded_step2 [OF R(2) two reg_chars_put(2) [OF two]] 3 Cons by simp
        with R(1) show ?thesis
          using w2(2) room 3 Cons two
          by (intro exI [of _ "put_chars dt c c' # R"]) simp
      qed
    qed
  qed
qed

lemma read_chars_spec:
  assumes "length chars \<le> max_chars"
  shows "fst (read_chars dt regs max_chars chars idx) =
    take max_chars (chars @ concat (map (reg_chars dt) regs))"
  using assms
proof (induction dt regs max_chars chars idx rule: read_chars.induct)
  case (2 dt r regs max_chars chars idx)
  have "take m (take m xs @ ys) = take m (xs @ ys)" for m and xs ys :: "byte list"
    by (cases "m \<le> length xs") simp_all
  note tt = this
  show ?case
  proof (cases "length chars < max_chars")
    case True
    with 2 have "fst (read_chars dt (r # regs) max_chars chars idx) =
        take max_chars (take max_chars (chars @ reg_chars dt r) @ concat (map (reg_chars dt) regs))"
      by simp
    also have "\<dots> = take max_chars (chars @ concat (map (reg_chars dt) (r # regs)))"
      by (simp only: tt) simp
    finally show ?thesis .
  qed (use 2(2) in simp)
qed simp

lemma string_roundtrip:
  assumes "is_string_type dt" "0 \<notin> set s"
  obtains regs k where
    "write_string dt s max_regs = Inr (regs, min (length s) (chars_per_reg dt * max_regs))"
    "length regs \<le> max_regs"
    "read_string dt regs max_chars = Inr (take max_chars (take (chars_per_reg dt * max_regs) s), k)"
proof -
  from write_chars_spec [OF assms(1), of "[]" 0 s max_regs] obtain R where
    R: "write_chars dt [] 0 s max_regs = (R, min (length s) (chars_per_reg dt * max_regs))"
      "padded dt s max_regs R" by auto
  have nz: "takeWhile (\<lambda>c. c \<noteq> 0) (take m s) = take m s" for m
    using assms(2) by (intro takeWhile_eq_all_conv [THEN iffD2]) (auto dest: in_set_takeD)
  have nz0: "takeWhile (\<lambda>c. c \<noteq> 0) (take m (s @ [0])) = take m s" for m
    using assms(2) nz [of m] by (cases "m \<le> length s") (auto simp: takeWhile_append)
  have "takeWhile (\<lambda>c. c \<noteq> 0) (take max_chars (concat (map (reg_chars dt) R))) =
      take max_chars (take (chars_per_reg dt * max_regs) s)"
    using R(2) unfolding padded_def
  proof (elim conjE disjE)
    assume "concat (map (reg_chars dt) R) = take (chars_per_reg dt * max_regs) s"
    then show ?thesis by (simp only: take_take nz)
  next
    assume "concat (map (reg_chars dt) R) = s @ [0]" "length s < chars_per_reg dt * max_regs"
    then show ?thesis by (simp only: nz0 take_all less_imp_le)
  qed
  moreover obtain k where "read_chars dt R max_chars [] 0 = (take max_chars (concat (map (reg_chars dt) R)), k)"
    using read_chars_spec [of "[]" max_chars dt R 0] by (cases "read_chars dt R max_chars [] 0") simp
  ultimately show thesis
    using R assms(1) by (intro that [of R k]) (simp_all add: write_string_def read_string_def padded_def)
qed

section \<open>Lemmas: names and numbers\<close>

lemma ALL_DATA_TYPES_complete: "dt \<in> set ALL_DATA_TYPES"
  by (cases dt) (simp_all add: ALL_DATA_TYPES_def)

lemma from_type_string_iff:
  "from_type_string s = Some dt \<longleftrightarrow> map ascii_lower s = map ascii_lower (type_str dt)"
proof -
  let ?f = "\<lambda>dt. map ascii_lower (type_str dt)"
  have "distinct (map ?f ALL_DATA_TYPES)" by code_simp
  then have inj: "?f dt = ?f dt' \<Longrightarrow> dt = dt'" for dt dt'
    using ALL_DATA_TYPES_complete by (auto simp: distinct_map inj_on_def)
  have "find (\<lambda>dt. ?f dt = t) ALL_DATA_TYPES = Some dt \<longleftrightarrow> t = ?f dt" for t
  proof
    assume "find (\<lambda>dt. ?f dt = t) ALL_DATA_TYPES = Some dt"
    then show "t = ?f dt" by (auto simp: find_Some_iff)
  next
    assume t: "t = ?f dt"
    then have "find (\<lambda>dt. ?f dt = t) ALL_DATA_TYPES \<noteq> None"
      using ALL_DATA_TYPES_complete [of dt] by (auto simp: find_None_iff)
    then obtain dt' where "find (\<lambda>dt. ?f dt = t) ALL_DATA_TYPES = Some dt'" by blast
    moreover from this have "?f dt' = t" by (auto simp: find_Some_iff)
    then have "dt' = dt" using t inj by blast
    ultimately show "find (\<lambda>dt. ?f dt = t) ALL_DATA_TYPES = Some dt" by simp
  qed
  then show ?thesis unfolding from_type_string_def by simp
qed

lemma data_type_from_i32_inj:
  assumes "data_type_from_i32 v = Some dt" "data_type_from_i32 v' = Some dt"
  shows "v = v'"
proof -
  have "distinct ALL_DATA_TYPES" by code_simp
  then show ?thesis
    using assms by (auto simp: data_type_from_i32_def nth_eq_iff_index_eq split: if_splits)
qed

end
