(* ===== verification/Modbus_Driver.thy ===== *)
theory Modbus_Driver
  imports Modbus_Framing Modbus_Datatype
begin

text \<open>
  The driver engine of \<^verbatim>\<open>modbus-rs/src/driver.rs\<close>: request building, the
  write/read cycle over an octet transport, response parsing, the register buffer
  and the statistics.  The transport is the record of its operations on a state of
  its own (\<^verbatim>\<open>trait OctetTransport\<close>), the duration of a cycle in milliseconds is an
  argument, message texts are dropped, and \<open>None\<close> is a panic (a slice out of range,
  slices of different length copied).  Counters wrap, as in a release build.
\<close>

section \<open>Functions and configuration\<close>

definition MAX_READ_WORDS :: nat where "MAX_READ_WORDS = 125"
definition MAX_WRITE_WORDS :: nat where "MAX_WRITE_WORDS = 123"
definition HISTOGRAM_LENGTH :: nat where "HISTOGRAM_LENGTH = 200"
definition WAGO_OFFSET :: int where "WAGO_OFFSET = 0x200"
definition UDP_MAX_RETRIES :: nat where "UDP_MAX_RETRIES = 5"
definition MAX_STALE_FRAMES :: nat where "MAX_STALE_FRAMES = 32"

datatype modbus_function =
    FReadCoils | FReadDiscreteInputs | FReadHoldingRegisters | FReadInputRegisters | FReportSlaveId
  | FReadInputRegistersF23 | FWriteSingleCoil | FWriteMultipleCoils | FWriteSingleRegister
  | FWriteMultipleRegisters | FWriteMultipleRegistersF23

definition read_once_function :: "modbus_function \<Rightarrow> modbus_function option" where
  "read_once_function f =
     (if f = FWriteSingleCoil \<or> f = FWriteMultipleCoils then Some FReadCoils
      else if f = FWriteSingleRegister \<or> f = FWriteMultipleRegisters then Some FReadHoldingRegisters
      else if f = FWriteMultipleRegistersF23 then Some FReadInputRegistersF23
      else None)"

fun wire_function :: "modbus_function \<Rightarrow> function_code" where
  "wire_function FReadCoils = ReadCoils"
| "wire_function FReadDiscreteInputs = ReadDiscreteInputs"
| "wire_function FReadHoldingRegisters = ReadHoldingRegisters"
| "wire_function FReadInputRegisters = ReadInputRegisters"
| "wire_function FWriteSingleCoil = WriteSingleCoil"
| "wire_function FWriteSingleRegister = WriteSingleRegister"
| "wire_function FWriteMultipleCoils = WriteMultipleCoils"
| "wire_function FWriteMultipleRegisters = WriteMultipleRegisters"
| "wire_function FReportSlaveId = ReportSlaveId"
| "wire_function FReadInputRegistersF23 = ReadWriteMultipleRegisters"
| "wire_function FWriteMultipleRegistersF23 = ReadWriteMultipleRegisters"

definition wire_code :: "modbus_function \<Rightarrow> byte" where
  "wire_code f = fcode_as_u8 (wire_function f)"

definition function_from_i32 :: "int \<Rightarrow> modbus_function option" where
  "function_from_i32 v =
     map_of [(1, FReadCoils), (2, FReadDiscreteInputs), (3, FReadHoldingRegisters),
       (4, FReadInputRegisters), (5, FWriteSingleCoil), (6, FWriteSingleRegister),
       (15, FWriteMultipleCoils), (16, FWriteMultipleRegisters), (17, FReportSlaveId),
       (123, FReadInputRegistersF23), (223, FWriteMultipleRegistersF23)] v"

fun function_as_i32 :: "modbus_function \<Rightarrow> int" where
  "function_as_i32 FReadCoils = 1"
| "function_as_i32 FReadDiscreteInputs = 2"
| "function_as_i32 FReadHoldingRegisters = 3"
| "function_as_i32 FReadInputRegisters = 4"
| "function_as_i32 FWriteSingleCoil = 5"
| "function_as_i32 FWriteSingleRegister = 6"
| "function_as_i32 FWriteMultipleCoils = 15"
| "function_as_i32 FWriteMultipleRegisters = 16"
| "function_as_i32 FReportSlaveId = 17"
| "function_as_i32 FReadInputRegistersF23 = 123"
| "function_as_i32 FWriteMultipleRegistersF23 = 223"

definition expected_reply_pdu_len :: "modbus_function \<Rightarrow> nat \<Rightarrow> nat" where
  "expected_reply_pdu_len f len =
     (if f \<in> {FReadCoils, FReadDiscreteInputs} then 2 + (len + 7) div 8
      else if f \<in> {FReadHoldingRegisters, FReadInputRegisters, FReadInputRegistersF23} then 2 + 2 * len
      else if f = FReportSlaveId then 2 + len
      else if f = FWriteMultipleRegistersF23 then 2 + 2
      else 5)"

definition function_is_read :: "modbus_function \<Rightarrow> bool" where
  "function_is_read f \<longleftrightarrow> f \<in> {FReadCoils, FReadDiscreteInputs, FReadHoldingRegisters,
     FReadInputRegisters, FReportSlaveId, FReadInputRegistersF23}"

definition function_is_write :: "modbus_function \<Rightarrow> bool" where
  "function_is_write f \<longleftrightarrow> \<not> function_is_read f"

definition function_is_bit :: "modbus_function \<Rightarrow> bool" where
  "function_is_bit f \<longleftrightarrow> f \<in> {FReadCoils, FReadDiscreteInputs, FWriteSingleCoil, FWriteMultipleCoils}"

definition max_length :: "modbus_function \<Rightarrow> nat" where
  "max_length f =
     (if f \<in> {FReadCoils, FReadDiscreteInputs} then MAX_READ_WORDS * 16
      else if f \<in> {FReadHoldingRegisters, FReadInputRegisters, FReportSlaveId, FReadInputRegistersF23}
      then MAX_READ_WORDS
      else if f \<in> {FWriteSingleCoil, FWriteMultipleCoils} then MAX_WRITE_WORDS * 16
      else MAX_WRITE_WORDS)"

definition readonce_function :: "modbus_function \<Rightarrow> modbus_function option" where
  "readonce_function f =
     (if f \<in> {FWriteSingleCoil, FWriteMultipleCoils} then Some FReadCoils
      else if f \<in> {FWriteSingleRegister, FWriteMultipleRegisters} then Some FReadHoldingRegisters
      else if f = FWriteMultipleRegistersF23 then Some FReadInputRegistersF23
      else None)"

record modbus_config =
  mc_slave :: byte
  mc_function :: modbus_function
  mc_start_address :: int
  mc_length :: nat
  mc_data_type :: modbus_data_type
  mc_poll_delay :: nat
  mc_plc_type :: string

definition absolute_addressing :: "modbus_config \<Rightarrow> bool" where
  "absolute_addressing cfg \<longleftrightarrow> mc_start_address cfg = - 1"

definition contains :: "string \<Rightarrow> string \<Rightarrow> bool" where
  "contains s pat \<longleftrightarrow> list_ex (\<lambda>i. take (length pat) (drop i s) = pat) [0..<Suc (length s)]"

definition readback_offset :: "modbus_config \<Rightarrow> int" where
  "readback_offset cfg = (if contains (mc_plc_type cfg) ''Wago'' then WAGO_OFFSET else 0)"

definition config_validate :: "modbus_config \<Rightarrow> modbus_error + unit" where
  "config_validate cfg =
     (if mc_length cfg = 0 then Inl (InvalidFunction 0)
      else if mc_length cfg > max_length (mc_function cfg) then Inl (FrameTooLarge (mc_length cfg))
      else Inr ())"

section \<open>Statistics\<close>

record io_statistics =
  st_read_ok :: u32
  st_write_ok :: u32
  st_io_errors :: u32
  st_current_io_errors :: u32
  st_last_io_msec :: u32
  st_max_io_msec :: u32
  st_histogram_enabled :: bool
  st_histogram_ms_per_bin :: u32
  st_histogram :: "u32 list"
  st_moved :: byte

definition io_statistics_default :: io_statistics where
  "io_statistics_default =
     \<lparr> st_read_ok = 0, st_write_ok = 0, st_io_errors = 0, st_current_io_errors = 0,
       st_last_io_msec = 0, st_max_io_msec = 0, st_histogram_enabled = False,
       st_histogram_ms_per_bin = 1, st_histogram = replicate HISTOGRAM_LENGTH 0, st_moved = 0 \<rparr>"

definition STAT_READ_OK :: byte where "STAT_READ_OK = 1"
definition STAT_WRITE_OK :: byte where "STAT_WRITE_OK = 2"
definition STAT_IO_ERRORS :: byte where "STAT_IO_ERRORS = 4"
definition STAT_LAST_IO :: byte where "STAT_LAST_IO = 8"
definition STAT_MAX_IO :: byte where "STAT_MAX_IO = 16"

definition take_moved :: "io_statistics \<Rightarrow> byte \<times> io_statistics" where
  "take_moved s = (st_moved s, s \<lparr> st_moved := 0 \<rparr>)"

definition record_timing :: "u32 \<Rightarrow> io_statistics \<Rightarrow> io_statistics" where
  "record_timing msec s =
     (let s = s \<lparr> st_last_io_msec := msec, st_moved := st_moved s OR STAT_LAST_IO \<rparr>;
          s = (if msec > st_max_io_msec s
               then s \<lparr> st_max_io_msec := msec, st_moved := st_moved s OR STAT_MAX_IO \<rparr> else s)
      in if st_histogram_enabled s
         then let bin = min (unat (msec div max (st_histogram_ms_per_bin s) 1)) (HISTOGRAM_LENGTH - 1);
                  old = st_histogram s ! bin
              in s \<lparr> st_histogram := (st_histogram s)[bin := if old = - 1 then old else old + 1] \<rparr>
         else s)"

definition clear_histogram :: "io_statistics \<Rightarrow> io_statistics" where
  "clear_histogram s = s \<lparr> st_histogram := replicate (length (st_histogram s)) 0 \<rparr>"

section \<open>Engine and transport\<close>

datatype modbus_io_response = Data "u16 list" | Acknowledged

record transport_failure =
  tf_wrote :: bool
  tf_nread :: nat

datatype io_trace =
    WriteReadFailed nat nat nat
  | WriteReadRecovered u32 nat nat nat
  | ExceptionTrace byte
  | WordCountTrace nat nat

datatype write_read_status = Success | TimedOut | FailedWith io_status

definition write_read_status_of :: "modbus_error + byte list \<Rightarrow> write_read_status" where
  "write_read_status_of r =
     (case r of
        Inr _ \<Rightarrow> Success
      | Inl Timeout \<Rightarrow> TimedOut
      | Inl (Io s) \<Rightarrow> FailedWith s
      | Inl _ \<Rightarrow> FailedWith IoError)"

record 't octet_transport =
  ot_write_read :: "byte list \<Rightarrow> nat \<Rightarrow> 't \<Rightarrow> (modbus_error + byte list) \<times> 't"
  ot_resend_frame :: "byte list \<Rightarrow> 't \<Rightarrow> (modbus_error + unit) \<times> 't"
  ot_read_frame :: "nat \<Rightarrow> 't \<Rightarrow> (modbus_error + byte list) \<times> 't"
  ot_reset_stream :: "'t \<Rightarrow> 't"
  ot_transport_failure :: "'t \<Rightarrow> transport_failure option"

record modbus_engine =
  me_config :: modbus_config
  me_link :: link_type
  me_counter :: u16
  me_data :: "u16 list"
  me_prev_data :: "u16 list"
  me_stats :: io_statistics
  me_prev_write_read :: write_read_status
  me_traces :: "(io_trace list) option"

definition engine_with_counter :: "modbus_config \<Rightarrow> link_type \<Rightarrow> u16 \<Rightarrow> modbus_error + modbus_engine" where
  "engine_with_counter cfg l counter =
     and_then (config_validate cfg) (\<lambda>_.
     Inr \<lparr> me_config = cfg, me_link = l, me_counter = counter,
           me_data = replicate (mc_length cfg) 0, me_prev_data = replicate (mc_length cfg) 0,
           me_stats = io_statistics_default, me_prev_write_read = Success, me_traces = None \<rparr>)"

definition engine_new :: "modbus_config \<Rightarrow> link_type \<Rightarrow> modbus_error + modbus_engine" where
  "engine_new cfg l = engine_with_counter cfg l 0"

definition record_traces :: "modbus_engine \<Rightarrow> modbus_engine" where
  "record_traces e = (case me_traces e of None \<Rightarrow> e \<lparr> me_traces := Some [] \<rparr> | Some _ \<Rightarrow> e)"

definition take_traces :: "modbus_engine \<Rightarrow> io_trace list \<times> modbus_engine" where
  "take_traces e =
     (case me_traces e of None \<Rightarrow> ([], e) | Some ts \<Rightarrow> (ts, e \<lparr> me_traces := Some [] \<rparr>))"

definition trace :: "io_trace \<Rightarrow> modbus_engine \<Rightarrow> modbus_engine" where
  "trace line e = e \<lparr> me_traces := map_option (\<lambda>ts. ts @ [line]) (me_traces e) \<rparr>"

definition check_offset :: "modbus_engine \<Rightarrow> int \<Rightarrow> modbus_error + unit" where
  "check_offset e offset =
     (let ok = (if absolute_addressing (me_config e) then 0 \<le> offset \<and> offset \<le> 0xFFFF
                else 0 \<le> offset \<and> nat offset < mc_length (me_config e))
      in if ok then Inr () else Inl (OffsetOutOfRange offset (int (mc_length (me_config e)))))"

text \<open>\<open>slice dat len\<close> is \<^verbatim>\<open>&data[..len]\<close>.\<close>

definition slice :: "'a list \<Rightarrow> nat \<Rightarrow> ('a list) option" where
  "slice dat len = (if len \<le> length dat then Some (take len dat) else None)"

definition first_or_zero :: "u16 list \<Rightarrow> u16" where
  "first_or_zero dat = (case dat of [] \<Rightarrow> 0 | w # _ \<Rightarrow> w)"

definition build_request :: "modbus_engine \<Rightarrow> modbus_function \<Rightarrow> u16 \<Rightarrow> u16 list \<Rightarrow> nat \<Rightarrow> (byte list) option" where
  "build_request e f start dat len =
     (let slave = mc_slave (me_config e); cnt = (of_nat len :: u16) in
      case f of
        FReadCoils \<Rightarrow> Some (pdu_read slave ReadCoils start cnt)
      | FReadDiscreteInputs \<Rightarrow> Some (pdu_read slave ReadDiscreteInputs start cnt)
      | FReadHoldingRegisters \<Rightarrow> Some (pdu_read slave ReadHoldingRegisters start cnt)
      | FReadInputRegisters \<Rightarrow> Some (pdu_read slave ReadInputRegisters start cnt)
      | FReportSlaveId \<Rightarrow> Some (pdu_report_slave_id slave)
      | FReadInputRegistersF23 \<Rightarrow> Some (pdu_f23_read slave start cnt start)
      | FWriteSingleCoil \<Rightarrow>
          Some (pdu_write_single slave WriteSingleCoil start (if first_or_zero dat \<noteq> 0 then 0xFF00 else 0x0000))
      | FWriteSingleRegister \<Rightarrow> Some (pdu_write_single slave WriteSingleRegister start (first_or_zero dat))
      | FWriteMultipleCoils \<Rightarrow>
          Option.bind (slice dat len) (\<lambda>ws. pdu_write_multiple_coils slave start (map (\<lambda>w. w \<noteq> 0) ws))
      | FWriteMultipleRegisters \<Rightarrow> map_option (pdu_write_multiple_registers slave start) (slice dat len)
      | FWriteMultipleRegistersF23 \<Rightarrow>
          map_option (pdu_read_write_multiple_registers slave start 1 start) (slice dat len))"

fun be_words :: "byte list \<Rightarrow> u16 list" where
  "be_words (a # b # r) = of_be_bytes [a, b] # be_words r"
| "be_words _ = []"

definition coil_words :: "byte list \<Rightarrow> nat \<Rightarrow> u16 list" where
  "coil_words payload len =
     map (\<lambda>i. let byte = (if i div 8 < length payload then payload ! (i div 8) else 0)
              in if byte AND push_bit (i mod 8) 1 \<noteq> 0 then 1 else 0) [0..<len]"

definition parse_response :: "modbus_function \<Rightarrow> nat \<Rightarrow> response_pdu \<Rightarrow> modbus_error + u16 list" where
  "parse_response f len resp =
     (let expected = wire_code f in
      if rp_function resp \<noteq> expected then Inl (FunctionMismatch expected (rp_function resp))
      else if f \<in> {FReadCoils, FReadDiscreteInputs} then
        and_then (read_data resp) (\<lambda>payload. Inr (coil_words payload len))
      else if f \<in> {FReadHoldingRegisters, FReadInputRegisters, FReadInputRegistersF23} then
        and_then (read_data resp) (\<lambda>payload.
        let nread = length payload div 2
        in if nread \<noteq> len then Inl (WordCount len nread) else Inr (be_words payload))
      else if f = FReportSlaveId then
        and_then (read_data resp) (\<lambda>payload.
        if length payload \<noteq> len then Inl (WordCount len (length payload)) else Inr (map ucast payload))
      else Inr [])"

section \<open>The write/read cycle\<close>

text \<open>
  One iteration of the loop of \<^verbatim>\<open>transact_frame\<close>, entered with the result of the
  read it starts with: the first is that of the combined write and read.
\<close>

function transact_loop ::
  "'t octet_transport \<Rightarrow> link_type \<Rightarrow> byte list \<Rightarrow> u16 option \<Rightarrow> bool \<Rightarrow> nat \<Rightarrow>
     modbus_error + byte list \<Rightarrow> nat \<Rightarrow> nat \<Rightarrow> 't \<Rightarrow> (modbus_error + byte list) \<times> 't" where
  "transact_loop T l framed expected_txid is_udp expected_reply attempt udp_retries stale_frames t =
     (case attempt of
        Inr raw \<Rightarrow>
          (case unwrap_response l raw of
             Inr unwrapped \<Rightarrow>
               if ur_transaction_id unwrapped \<noteq> None \<and> ur_transaction_id unwrapped \<noteq> expected_txid
               then if stale_frames + 1 > MAX_STALE_FRAMES then (Inl Timeout, t)
                    else let (attempt, t) = ot_read_frame T expected_reply t
                         in transact_loop T l framed expected_txid is_udp expected_reply attempt
                              udp_retries (stale_frames + 1) t
               else (Inr (ur_pdu unwrapped), t)
           | Inl e \<Rightarrow>
               if (case e of FrameTooShort _ _ \<Rightarrow> True | _ \<Rightarrow> False) \<and> (l = Tcp \<or> l = Udp)
               then if stale_frames + 1 > MAX_STALE_FRAMES then (Inl Timeout, t)
                    else let (attempt, t) = ot_read_frame T expected_reply t
                         in transact_loop T l framed expected_txid is_udp expected_reply attempt
                              udp_retries (stale_frames + 1) t
               else (Inl e, t))
      | Inl e \<Rightarrow>
          if is_udp \<and> udp_retries + 1 < UDP_MAX_RETRIES
          then (case ot_resend_frame T framed t of
                  (Inl e', t) \<Rightarrow> (Inl e', t)
                | (Inr _, t) \<Rightarrow>
                    let (attempt, t) = ot_read_frame T expected_reply t
                    in transact_loop T l framed expected_txid is_udp expected_reply attempt
                         (udp_retries + 1) stale_frames t)
          else (Inl e, t))"
  by pat_completeness auto
termination
  by (relation "measure (\<lambda>(_, _, _, _, _, _, _, udp_retries, stale_frames, _).
        (UDP_MAX_RETRIES - udp_retries) + (MAX_STALE_FRAMES + 1 - stale_frames))") auto

declare transact_loop.simps [simp del]

definition transact_frame ::
  "'t octet_transport \<Rightarrow> link_type \<Rightarrow> byte list \<Rightarrow> u16 option \<Rightarrow> bool \<Rightarrow> nat \<Rightarrow> 't \<Rightarrow>
     (modbus_error + byte list) \<times> 't" where
  "transact_frame T l framed expected_txid is_udp expected_reply t =
     (let (attempt, t) = ot_write_read T framed expected_reply t
      in transact_loop T l framed expected_txid is_udp expected_reply attempt 0 0 t)"

definition transact ::
  "'t octet_transport \<Rightarrow> link_type \<Rightarrow> byte list \<Rightarrow> u16 option \<Rightarrow> bool \<Rightarrow> nat \<Rightarrow> 't \<Rightarrow>
     (modbus_error + byte list) \<times> 't" where
  "transact T l framed expected_txid is_udp expected_reply t =
     (case transact_frame T l framed expected_txid is_udp expected_reply t of
        (Inl e, t) \<Rightarrow> (Inl e, ot_reset_stream T t)
      | (Inr pdu, t) \<Rightarrow> (Inr pdu, t))"

text \<open>The bookkeeping of a transport outcome, and of a decoded reply.\<close>

definition note_outcome ::
  "'t octet_transport \<Rightarrow> nat \<Rightarrow> modbus_error + byte list \<Rightarrow> 't \<Rightarrow> modbus_engine \<Rightarrow> modbus_engine" where
  "note_outcome T request_size outcome t e =
     (let status = write_read_status_of outcome in
      if status = me_prev_write_read e then e
      else
        let line = (case outcome of
               Inr reply \<Rightarrow> WriteReadRecovered (st_current_io_errors (me_stats e)) request_size request_size (length reply)
             | Inl _ \<Rightarrow>
                 let failure = (case ot_transport_failure T t of
                        Some f \<Rightarrow> f | None \<Rightarrow> \<lparr> tf_wrote = True, tf_nread = 0 \<rparr>)
                 in WriteReadFailed (if tf_wrote failure then request_size else 0) request_size (tf_nread failure))
        in (trace line e) \<lparr> me_prev_write_read := status \<rparr>)"

definition count_error :: "io_statistics \<Rightarrow> io_statistics" where
  "count_error s = s \<lparr> st_io_errors := st_io_errors s + 1, st_moved := st_moved s OR STAT_IO_ERRORS,
     st_current_io_errors := st_current_io_errors s + 1 \<rparr>"

definition count_ok :: "modbus_function \<Rightarrow> io_statistics \<Rightarrow> io_statistics" where
  "count_ok f s =
     (if function_is_read f
      then s \<lparr> st_read_ok := st_read_ok s + 1, st_moved := st_moved s OR STAT_READ_OK \<rparr>
      else s \<lparr> st_write_ok := st_write_ok s + 1, st_moved := st_moved s OR STAT_WRITE_OK \<rparr>)"

definition handle_reply ::
  "modbus_function \<Rightarrow> nat \<Rightarrow> byte list \<Rightarrow> modbus_engine \<Rightarrow> (modbus_error + modbus_io_response) \<times> modbus_engine" where
  "handle_reply f len reply e =
     (case response_parse reply of
        Inl (ModbusException code) \<Rightarrow>
          (if code = Acknowledge then Inr Acknowledged else Inl (ModbusException code),
           trace (ExceptionTrace (exception_as_u8 code)) e)
      | Inl err \<Rightarrow> (Inl err, e)
      | Inr resp \<Rightarrow>
          let e = e \<lparr> me_stats := count_ok f (me_stats e) \<rparr>;
              ws = parse_response f len resp;
              e = (case ws of Inl (WordCount expected received) \<Rightarrow> trace (WordCountTrace expected received) e
                            | _ \<Rightarrow> e)
          in (map_sum id Data ws, e))"

definition do_modbus_io ::
  "'t octet_transport \<Rightarrow> u32 \<Rightarrow> modbus_function \<Rightarrow> u16 \<Rightarrow> u16 list \<Rightarrow> nat \<Rightarrow> modbus_engine \<Rightarrow> 't \<Rightarrow>
     ((modbus_error + modbus_io_response) \<times> modbus_engine \<times> 't) option" where
  "do_modbus_io T msec f start dat len e t =
     (case build_request e f start dat len of
        None \<Rightarrow> None
      | Some pdu \<Rightarrow>
          let (fr, counter) = frame_request (me_link e) pdu (me_counter e);
              e = e \<lparr> me_counter := counter \<rparr>
          in (case fr of
                Inl err \<Rightarrow> Some (Inl err, e, t)
              | Inr framed \<Rightarrow>
                  let expected_reply = expected_reply_frame_len (me_link e) (expected_reply_pdu_len f len);
                      (outcome, t) = transact T (me_link e) (fr_bytes framed) (fr_transaction_id framed)
                                       (me_link e = Udp) expected_reply t;
                      e = note_outcome T (length pdu) outcome t e
                  in (case outcome of
                        Inl err \<Rightarrow> Some (Inl err, e \<lparr> me_stats := count_error (me_stats e) \<rparr>, t)
                      | Inr reply \<Rightarrow>
                          let e = e \<lparr> me_stats := (record_timing msec (me_stats e)) \<lparr> st_current_io_errors := 0 \<rparr> \<rparr>;
                              (res, e) = handle_reply f len reply e
                          in Some (res, e, t))))"

section \<open>Polling and individual access\<close>

text \<open>\<^verbatim>\<open>dst[..n].copy_from_slice(src)\<close> with \<^verbatim>\<open>n\<close> the length the caller names.\<close>

definition copy_into :: "'a list \<Rightarrow> nat \<Rightarrow> 'a list \<Rightarrow> ('a list) option" where
  "copy_into dst n src = (if n \<le> length dst \<and> length src = n then Some (src @ drop n dst) else None)"

definition store_words :: "nat \<Rightarrow> modbus_io_response \<Rightarrow> modbus_engine \<Rightarrow> modbus_engine option" where
  "store_words n r e =
     (case r of
        Data ws \<Rightarrow> map_option (\<lambda>d. e \<lparr> me_data := d \<rparr>) (copy_into (me_data e) n ws)
      | Acknowledged \<Rightarrow> Some e)"

definition poll ::
  "'t octet_transport \<Rightarrow> u32 \<Rightarrow> modbus_engine \<Rightarrow> 't \<Rightarrow> ((modbus_error + bool) \<times> modbus_engine \<times> 't) option" where
  "poll T msec e t =
     (if absolute_addressing (me_config e) then Some (Inl PollNotValidInAbsoluteMode, e, t)
      else if \<not> function_is_read (mc_function (me_config e)) then Some (Inl (InvalidFunction 0), e, t)
      else
        let start = word_of_int (max (mc_start_address (me_config e)) 0);
            len = mc_length (me_config e)
        in (case do_modbus_io T msec (mc_function (me_config e)) start [] len e t of
              None \<Rightarrow> None
            | Some (Inl err, e, t) \<Rightarrow> Some (Inl err, e, t)
            | Some (Inr r, e, t) \<Rightarrow>
                Option.bind (store_words (length (me_data e)) r e) (\<lambda>e.
                let changed = (me_data e \<noteq> me_prev_data e)
                in map_option (\<lambda>p. (Inr changed, e \<lparr> me_prev_data := p \<rparr>, t))
                     (copy_into (me_prev_data e) (length (me_prev_data e)) (me_data e)))))"

definition read_absolute ::
  "'t octet_transport \<Rightarrow> u32 \<Rightarrow> modbus_function \<Rightarrow> int \<Rightarrow> nat \<Rightarrow> modbus_engine \<Rightarrow> 't \<Rightarrow>
     ((modbus_error + u16 list) \<times> modbus_engine \<times> 't) option" where
  "read_absolute T msec f addr cnt e t =
     (if \<not> function_is_read f then Some (Inl (InvalidFunction 0), e, t)
      else case check_offset e addr of
        Inl err \<Rightarrow> Some (Inl err, e, t)
      | Inr _ \<Rightarrow>
          let len = max (min cnt (mc_length (me_config e))) 1
          in (case do_modbus_io T msec f (word_of_int addr) [] len e t of
                None \<Rightarrow> None
              | Some (Inl err, e, t) \<Rightarrow> Some (Inl err, e, t)
              | Some (Inr r, e, t) \<Rightarrow>
                  Option.bind (store_words len r e) (\<lambda>e.
                  map_option (\<lambda>ws. (Inr ws, e, t)) (slice (me_data e) len))))"

definition read_once ::
  "'t octet_transport \<Rightarrow> u32 \<Rightarrow> modbus_function \<Rightarrow> u16 \<Rightarrow> modbus_engine \<Rightarrow> 't \<Rightarrow>
     ((modbus_error + unit) \<times> modbus_engine \<times> 't) option" where
  "read_once T msec f addr e t =
     (case do_modbus_io T msec f addr [] (mc_length (me_config e)) e t of
        None \<Rightarrow> None
      | Some (Inl err, e, t) \<Rightarrow> Some (Inl err, e, t)
      | Some (Inr Acknowledged, e, t) \<Rightarrow> Some (Inr (), e, t)
      | Some (Inr (Data ws), e, t) \<Rightarrow>
          let n = min (length ws) (length (me_data e))
          in map_option (\<lambda>e. (Inr (), e, t)) (store_words n (Data (take n ws)) e))"

definition write_absolute ::
  "'t octet_transport \<Rightarrow> u32 \<Rightarrow> modbus_function \<Rightarrow> int \<Rightarrow> u16 list \<Rightarrow> modbus_engine \<Rightarrow> 't \<Rightarrow>
     ((modbus_error + unit) \<times> modbus_engine \<times> 't) option" where
  "write_absolute T msec f addr dat e t =
     (if \<not> function_is_write f then Some (Inl (InvalidFunction 0), e, t)
      else case check_offset e addr of
        Inl err \<Rightarrow> Some (Inl err, e, t)
      | Inr _ \<Rightarrow>
          map_option (\<lambda>(r, e, t). (map_sum id (\<lambda>_. ()) r, e, t))
            (do_modbus_io T msec f (word_of_int addr) dat (length dat) e t))"

section \<open>Lemmas: the loop\<close>

text \<open>
  A transport that behaves as the one below and writes down what it was asked: the
  combined exchange, retransmissions and single reads.
\<close>

datatype io_event = Exchange "modbus_error + byte list" | Resend | Reread "modbus_error + byte list"

definition logged :: "'t octet_transport \<Rightarrow> ('t \<times> io_event list) octet_transport" where
  "logged T =
     \<lparr> ot_write_read = (\<lambda>dat n (t, evs). let (r, t) = ot_write_read T dat n t in (r, t, evs @ [Exchange r])),
       ot_resend_frame = (\<lambda>dat (t, evs). let (r, t) = ot_resend_frame T dat t in (r, t, evs @ [Resend])),
       ot_read_frame = (\<lambda>n (t, evs). let (r, t) = ot_read_frame T n t in (r, t, evs @ [Reread r])),
       ot_reset_stream = (\<lambda>(t, evs). (ot_reset_stream T t, evs)),
       ot_transport_failure = (\<lambda>(t, evs). ot_transport_failure T t) \<rparr>"

definition rereads :: "io_event list \<Rightarrow> nat" where
  "rereads evs = length (filter (\<lambda>ev. case ev of Reread _ \<Rightarrow> True | _ \<Rightarrow> False) evs)"

definition resends :: "io_event list \<Rightarrow> nat" where
  "resends evs = length (filter (\<lambda>ev. ev = Resend) evs)"

lemma rereads_simps [simp]:
  "rereads [] = 0" "rereads (a @ b) = rereads a + rereads b" "rereads (Reread r # evs) = Suc (rereads evs)"
  "rereads (Resend # evs) = rereads evs" "rereads (Exchange r # evs) = rereads evs"
  by (simp_all add: rereads_def)

lemma resends_simps [simp]:
  "resends [] = 0" "resends (a @ b) = resends a + resends b" "resends (Reread r # evs) = resends evs"
  "resends (Resend # evs) = Suc (resends evs)" "resends (Exchange r # evs) = resends evs"
  by (simp_all add: resends_def)

text \<open>What a reply must be to end the loop, and to be skipped.\<close>

definition matching :: "link_type \<Rightarrow> u16 option \<Rightarrow> byte list \<Rightarrow> byte list \<Rightarrow> bool" where
  "matching l txid raw pdu \<longleftrightarrow>
     (case unwrap_response l raw of
        Inl _ \<Rightarrow> False
      | Inr u \<Rightarrow> ur_pdu u = pdu \<and> (ur_transaction_id u = None \<or> ur_transaction_id u = txid))"

definition stale :: "link_type \<Rightarrow> u16 option \<Rightarrow> byte list \<Rightarrow> bool" where
  "stale l txid raw \<longleftrightarrow>
     (case unwrap_response l raw of
        Inl (FrameTooShort _ _) \<Rightarrow> l = Tcp \<or> l = Udp
      | Inl _ \<Rightarrow> False
      | Inr u \<Rightarrow> ur_transaction_id u \<noteq> None \<and> ur_transaction_id u \<noteq> txid)"

lemma loop_reply:
  "transact_loop T l framed txid udp n (Inr raw) u s t =
     (if stale l txid raw
      then if s + 1 > MAX_STALE_FRAMES then (Inl Timeout, t)
           else let (attempt, t) = ot_read_frame T n t
                in transact_loop T l framed txid udp n attempt u (s + 1) t
      else (map_sum id ur_pdu (unwrap_response l raw), t))"
  by (subst transact_loop.simps)
    (auto simp: stale_def Let_def split: sum.split modbus_error.split prod.split)

lemma loop_failure:
  "transact_loop T l framed txid udp n (Inl e) u s t =
     (if udp \<and> u + 1 < UDP_MAX_RETRIES
      then (case ot_resend_frame T framed t of
              (Inl e', t) \<Rightarrow> (Inl e', t)
            | (Inr _, t) \<Rightarrow>
                let (attempt, t) = ot_read_frame T n t
                in transact_loop T l framed txid udp n attempt (u + 1) s t)
      else (Inl e, t))"
  by (subst transact_loop.simps) simp

text \<open>An induction rule that follows the loop in these two forms.\<close>

lemma loop_induct [case_names reply failure]:
  assumes reply: "\<And>raw u s t. (\<And>attempt t'. stale l txid raw \<Longrightarrow> s + 1 \<le> MAX_STALE_FRAMES \<Longrightarrow>
        ot_read_frame T n t = (attempt, t') \<Longrightarrow> P attempt u (s + 1) t') \<Longrightarrow> P (Inr raw) u s t"
    and failure: "\<And>e u s t. (\<And>x t' attempt t''. udp \<Longrightarrow> u + 1 < UDP_MAX_RETRIES \<Longrightarrow>
        ot_resend_frame T framed t = (Inr x, t') \<Longrightarrow> ot_read_frame T n t' = (attempt, t'') \<Longrightarrow>
        P attempt (u + 1) s t'') \<Longrightarrow> P (Inl e) u s t"
  shows "P attempt u s t"
proof (induction "(UDP_MAX_RETRIES - u) + (MAX_STALE_FRAMES + 1 - s)" arbitrary: attempt u s t rule: less_induct)
  case less
  show ?case
  proof (cases attempt)
    case (Inl e)
    show ?thesis unfolding Inl by (rule failure, rule less) simp
  next
    case (Inr raw)
    show ?thesis unfolding Inr by (rule reply, rule less) simp
  qed
qed

lemma logged_loop:
  assumes "s \<le> MAX_STALE_FRAMES" "u < UDP_MAX_RETRIES"
    "transact_loop (logged T) l framed txid udp n attempt u s (t, evs) = (r, t', evs')"
  shows "transact_loop T l framed txid udp n attempt u s t = (r, t') \<and>
    (\<exists>more. evs' = evs @ more \<and> rereads more \<le> (MAX_STALE_FRAMES - s) + (UDP_MAX_RETRIES - 1 - u) \<and>
      resends more \<le> (if udp then UDP_MAX_RETRIES - 1 - u else 0) \<and>
      (\<forall>pdu. r = Inr pdu \<longrightarrow>
         (\<exists>raw. matching l txid raw pdu \<and> (attempt = Inr raw \<or> Reread (Inr raw) \<in> set more))))"
  using assms
proof (induction attempt u s t arbitrary: evs rule: loop_induct [where T = T and l = l and txid = txid and n = n and udp = udp and framed = framed])
  case (reply raw u s t)
  show ?case
  proof (cases "stale l txid raw")
    case False
    then have "r = map_sum id ur_pdu (unwrap_response l raw) \<and> t' = t \<and> evs' = evs"
      using reply.prems by (simp add: loop_reply)
    moreover have "matching l txid raw pdu" if "map_sum id ur_pdu (unwrap_response l raw) = Inr pdu" for pdu
      using that False by (auto simp: matching_def stale_def split: sum.splits)
    ultimately show ?thesis using False by (simp add: loop_reply)
  next
    case True
    show ?thesis
    proof (cases "s + 1 \<le> MAX_STALE_FRAMES")
      case False
      then show ?thesis using True reply.prems by (auto simp: loop_reply not_le)
    next
      case s: True
      obtain attempt t1 where rd: "ot_read_frame T n t = (attempt, t1)" by fastforce
      have "transact_loop (logged T) l framed txid udp n attempt u (s + 1) (t1, evs @ [Reread attempt]) = (r, t', evs')"
        using reply.prems(3) True s rd by (simp add: loop_reply logged_def)
      from reply.IH [OF True s rd s reply.prems(2) this] obtain more where
        IH: "transact_loop T l framed txid udp n attempt u (s + 1) t1 = (r, t')" "evs' = (evs @ [Reread attempt]) @ more"
          "rereads more \<le> (MAX_STALE_FRAMES - (s + 1)) + (UDP_MAX_RETRIES - 1 - u)"
          "resends more \<le> (if udp then UDP_MAX_RETRIES - 1 - u else 0)"
          "\<forall>pdu. r = Inr pdu \<longrightarrow>
             (\<exists>raw. matching l txid raw pdu \<and> (attempt = Inr raw \<or> Reread (Inr raw) \<in> set more))"
        by blast
      have "transact_loop T l framed txid udp n (Inr raw) u s t = (r, t')"
        using IH(1) True s rd by (simp add: loop_reply)
      moreover have "evs' = evs @ (Reread attempt # more)" using IH(2) by simp
      moreover have "rereads (Reread attempt # more) \<le> (MAX_STALE_FRAMES - s) + (UDP_MAX_RETRIES - 1 - u)"
        using IH(3) s by simp
      ultimately show ?thesis using IH(4,5) by (intro conjI exI [of _ "Reread attempt # more"]) auto
    qed
  qed
next
  case (failure e u s t)
  show ?case
  proof (cases "udp \<and> u + 1 < UDP_MAX_RETRIES")
    case False
    then show ?thesis using failure.prems by (auto simp: loop_failure)
  next
    case True
    obtain rs t1 where rs: "ot_resend_frame T framed t = (rs, t1)" by fastforce
    show ?thesis
    proof (cases rs)
      case (Inl e')
      then show ?thesis using failure.prems True rs by (auto simp: loop_failure logged_def)
    next
      case (Inr x)
      obtain attempt t2 where rd: "ot_read_frame T n t1 = (attempt, t2)" by fastforce
      have "transact_loop (logged T) l framed txid udp n attempt (u + 1) s
          (t2, (evs @ [Resend]) @ [Reread attempt]) = (r, t', evs')"
        using failure.prems(3) True rs Inr rd by (simp add: loop_failure logged_def)
      from failure.IH [OF _ _ _ rd failure.prems(1) _ this] True rs Inr obtain more where
        IH: "transact_loop T l framed txid udp n attempt (u + 1) s t2 = (r, t')"
          "evs' = ((evs @ [Resend]) @ [Reread attempt]) @ more"
          "rereads more \<le> (MAX_STALE_FRAMES - s) + (UDP_MAX_RETRIES - 1 - (u + 1))"
          "resends more \<le> (if udp then UDP_MAX_RETRIES - 1 - (u + 1) else 0)"
          "\<forall>pdu. r = Inr pdu \<longrightarrow>
             (\<exists>raw. matching l txid raw pdu \<and> (attempt = Inr raw \<or> Reread (Inr raw) \<in> set more))"
        by blast
      have "transact_loop T l framed txid udp n (Inl e) u s t = (r, t')"
        using IH(1) True rs Inr rd by (simp add: loop_failure)
      moreover have "evs' = evs @ (Resend # Reread attempt # more)" using IH(2) by simp
      moreover have "rereads (Resend # Reread attempt # more) \<le> (MAX_STALE_FRAMES - s) + (UDP_MAX_RETRIES - 1 - u)"
        "resends (Resend # Reread attempt # more) \<le> (if udp then UDP_MAX_RETRIES - 1 - u else 0)"
        using IH(3,4) True by auto
      ultimately show ?thesis using IH(5) by (intro conjI exI [of _ "Resend # Reread attempt # more"]) auto
    qed
  qed
qed

text \<open>
  A transaction issues one exchange, a bounded number of further reads and resends, and
  returns only a reply whose transaction identifier is the request's.
\<close>

lemma transact_spec:
  assumes "transact (logged T) l framed txid udp n (t, []) = (r, t', evs)"
  shows "transact T l framed txid udp n t = (r, t') \<and>
    (\<exists>first more. evs = Exchange first # more \<and> rereads more \<le> MAX_STALE_FRAMES + (UDP_MAX_RETRIES - 1) \<and>
      resends more \<le> (if udp then UDP_MAX_RETRIES - 1 else 0) \<and>
      (\<forall>pdu. r = Inr pdu \<longrightarrow>
         (\<exists>raw. matching l txid raw pdu \<and> (first = Inr raw \<or> Reread (Inr raw) \<in> set more))))"
proof -
  obtain first t1 where wr: "ot_write_read T framed n t = (first, t1)" by fastforce
  obtain r1 t2 evs1 where loop: "transact_loop (logged T) l framed txid udp n first 0 0 (t1, [Exchange first]) = (r1, t2, evs1)"
    by (metis surj_pair)
  note spec = logged_loop [OF _ _ loop]
  have "r = r1 \<and> evs = evs1 \<and> t' = (case r1 of Inl _ \<Rightarrow> ot_reset_stream T t2 | Inr _ \<Rightarrow> t2)"
    using assms wr loop by (auto simp: transact_def transact_frame_def logged_def split: sum.splits)
  moreover have "transact T l framed txid udp n t =
      (r1, case r1 of Inl _ \<Rightarrow> ot_reset_stream T t2 | Inr _ \<Rightarrow> t2)"
    using spec wr by (auto simp: transact_def transact_frame_def UDP_MAX_RETRIES_def split: sum.splits)
  ultimately show ?thesis using spec by (auto simp: UDP_MAX_RETRIES_def)
qed

text \<open>A transport that answers from a list: what a link delivers, in order.\<close>

definition scripted :: "((modbus_error + byte list) list) octet_transport" where
  "scripted =
     (let next_reply = (\<lambda>t. case t of [] \<Rightarrow> (Inl Timeout, []) | r # t \<Rightarrow> (r, t))
      in \<lparr> ot_write_read = (\<lambda>_ _. next_reply), ot_resend_frame = (\<lambda>_ t. (Inr (), t)),
           ot_read_frame = (\<lambda>_. next_reply), ot_reset_stream = id, ot_transport_failure = (\<lambda>_. None) \<rparr>)"

lemma scripted_loop:
  assumes "list_all (stale l txid) skipped" "s + length skipped \<le> MAX_STALE_FRAMES" "matching l txid raw pdu"
  shows "transact_loop scripted l framed txid udp n (hd (map Inr skipped @ [Inr raw])) u s
      (tl (map Inr skipped @ [Inr raw]) @ rest) = (Inr pdu, rest)"
  using assms(1,2)
proof (induction skipped arbitrary: s)
  case Nil
  have "\<not> stale l txid raw" using assms(3) by (auto simp: matching_def stale_def split: sum.splits modbus_error.splits)
  moreover have "map_sum id ur_pdu (unwrap_response l raw) = Inr pdu"
    using assms(3) by (auto simp: matching_def split: sum.splits)
  ultimately show ?case by (simp add: loop_reply)
next
  case (Cons x xs)
  have "ot_read_frame scripted n (map Inr xs @ Inr raw # rest) =
      (hd (map Inr xs @ [Inr raw]), tl (map Inr xs @ [Inr raw]) @ rest)"
    by (cases xs) (simp_all add: scripted_def Let_def)
  with Cons show ?case by (simp add: loop_reply)
qed

lemma scripted_transact:
  assumes "list_all (stale l txid) skipped" "length skipped \<le> MAX_STALE_FRAMES" "matching l txid raw pdu"
  shows "transact scripted l framed txid udp n (map Inr skipped @ Inr raw # rest) = (Inr pdu, rest)"
proof -
  have "ot_write_read scripted framed n (map Inr skipped @ Inr raw # rest) =
      (hd (map Inr skipped @ [Inr raw]), tl (map Inr skipped @ [Inr raw]) @ rest)"
    by (cases skipped) (simp_all add: scripted_def Let_def)
  with scripted_loop [OF assms(1) _ assms(3), of 0 framed udp n 0 rest] assms(2) show ?thesis
    by (simp add: transact_def transact_frame_def)
qed

section \<open>Lemmas: replies and the engine\<close>

lemma length_be_words: "length (be_words bs) = length bs div 2"
  by (induction bs rule: be_words.induct) simp_all

lemma be_words_concat: "be_words (concat (map (be_bytes 2) ws)) = ws"
proof (induction ws)
  case (Cons w ws)
  have "be_bytes 2 w = [be_bytes 2 w ! 0, be_bytes 2 w ! 1]"
    by (rule nth_equalityI) (auto simp: less_2_cases_iff)
  moreover have "of_be_bytes (be_bytes 2 w) = w" by (simp add: of_bytes_roundtrip)
  ultimately show ?case using Cons by (metis (no_types, lifting) append_Cons append_Nil be_words.simps(1) concat.simps(2) list.simps(9))
qed simp

lemma parse_response_length:
  assumes "function_is_read f" "parse_response f len resp = Inr ws"
  shows "length ws = len"
  using assms
  by (auto simp: parse_response_def function_is_read_def coil_words_def length_be_words Let_def and_then_eq_Inr
      split: if_splits)

text \<open>What an engine keeps: a valid configuration, buffers of its length, the histogram's size.\<close>

definition engine_ok :: "modbus_engine \<Rightarrow> bool" where
  "engine_ok e \<longleftrightarrow>
     config_validate (me_config e) = Inr () \<and>
     length (me_data e) = mc_length (me_config e) \<and> length (me_prev_data e) = mc_length (me_config e) \<and>
     length (st_histogram (me_stats e)) = HISTOGRAM_LENGTH"

text \<open>What a cycle leaves alone.\<close>

definition same_port :: "modbus_engine \<Rightarrow> modbus_engine \<Rightarrow> bool" where
  "same_port e e' \<longleftrightarrow>
     me_config e' = me_config e \<and> me_link e' = me_link e \<and> me_data e' = me_data e \<and>
     me_prev_data e' = me_prev_data e \<and>
     length (st_histogram (me_stats e')) = length (st_histogram (me_stats e))"

lemma same_port_refl [simp]: "same_port e e"
  by (simp add: same_port_def)

lemma same_port_trans: "same_port a b \<Longrightarrow> same_port b c \<Longrightarrow> same_port a c"
  by (simp add: same_port_def)

lemma same_port_ok:
  assumes "same_port e e'" "engine_ok e"
  shows "engine_ok e'" "me_config e' = me_config e"
  using assms by (simp_all add: same_port_def engine_ok_def)

lemma same_port_trace [simp]: "same_port e (trace line e') \<longleftrightarrow> same_port e e'"
  by (simp add: same_port_def trace_def)

lemma same_port_note: "same_port e (note_outcome T n outcome t e)"
  by (simp add: note_outcome_def Let_def same_port_def trace_def)

lemma length_histogram [simp]:
  "length (st_histogram (record_timing msec s)) = length (st_histogram s)"
  "length (st_histogram (count_error s)) = length (st_histogram s)"
  "length (st_histogram (count_ok f s)) = length (st_histogram s)"
  by (simp_all add: record_timing_def count_error_def count_ok_def Let_def)

lemma handle_reply_spec:
  assumes "handle_reply f len reply e = (res, e')"
  shows "same_port e e'" "res = Inr (Data ws) \<Longrightarrow> function_is_read f \<Longrightarrow> length ws = len"
proof -
  show "same_port e e'"
    using assms by (auto simp: handle_reply_def Let_def same_port_def trace_def
        split: sum.splits modbus_error.splits if_splits)
  show "length ws = len" if "res = Inr (Data ws)" "function_is_read f"
  proof -
    from assms that(1) obtain resp where "parse_response f len resp = Inr ws"
      by (cases "response_parse reply"; cases "parse_response f len (projr (response_parse reply))")
        (auto simp: handle_reply_def Let_def split: modbus_error.splits if_splits)
    with that(2) show ?thesis by (rule parse_response_length)
  qed
qed

lemma build_request_read: "function_is_read f \<Longrightarrow> build_request e f start dat len \<noteq> None"
  by (auto simp: function_is_read_def build_request_def Let_def)

text \<open>The three ways a cycle ends, once the request is built and framed.\<close>

lemma do_modbus_io_unframed:
  assumes "build_request e f start dat len = Some pdu"
    "frame_request (me_link e) pdu (me_counter e) = (Inl err, counter)"
  shows "do_modbus_io T msec f start dat len e t = Some (Inl err, e \<lparr> me_counter := counter \<rparr>, t)"
  unfolding do_modbus_io_def using assms by simp

definition after_exchange ::
  "'t octet_transport \<Rightarrow> u32 \<Rightarrow> modbus_function \<Rightarrow> nat \<Rightarrow> nat \<Rightarrow> modbus_error + byte list \<Rightarrow> 't \<Rightarrow> modbus_engine \<Rightarrow>
     (modbus_error + modbus_io_response) \<times> modbus_engine" where
  "after_exchange T msec f len request_size outcome t e =
     (let e = note_outcome T request_size outcome t e
      in case outcome of
           Inl err \<Rightarrow> (Inl err, e \<lparr> me_stats := count_error (me_stats e) \<rparr>)
         | Inr reply \<Rightarrow>
             handle_reply f len reply
               (e \<lparr> me_stats := (record_timing msec (me_stats e)) \<lparr> st_current_io_errors := 0 \<rparr> \<rparr>))"

lemma do_modbus_io_framed:
  assumes "build_request e f start dat len = Some pdu"
    "frame_request (me_link e) pdu (me_counter e) = (Inr framed, counter)"
    "transact T (me_link e) (fr_bytes framed) (fr_transaction_id framed) (me_link e = Udp)
       (expected_reply_frame_len (me_link e) (expected_reply_pdu_len f len)) t = (outcome, t')"
    "after_exchange T msec f len (length pdu) outcome t' (e \<lparr> me_counter := counter \<rparr>) = (res, e')"
  shows "do_modbus_io T msec f start dat len e t = Some (res, e', t')"
proof -
  let ?e = "e \<lparr> me_counter := counter \<rparr>"
  have "do_modbus_io T msec f start dat len e t =
      (let e = note_outcome T (length pdu) outcome t' ?e
       in case outcome of
            Inl err \<Rightarrow> Some (Inl err, e \<lparr> me_stats := count_error (me_stats e) \<rparr>, t')
          | Inr reply \<Rightarrow>
              let e = e \<lparr> me_stats := (record_timing msec (me_stats e)) \<lparr> st_current_io_errors := 0 \<rparr> \<rparr>;
                  (res, e) = handle_reply f len reply e
              in Some (res, e, t'))"
    unfolding do_modbus_io_def using assms(1,2,3) by simp
  also have "\<dots> = Some (res, e', t')"
    using assms(4) by (cases outcome) (simp_all add: after_exchange_def Let_def)
  finally show ?thesis .
qed

lemma after_exchange_spec:
  assumes "after_exchange T msec f len n outcome t e = (res, e')"
  shows "same_port e e'" "res = Inr (Data ws) \<Longrightarrow> function_is_read f \<Longrightarrow> length ws = len"
proof -
  let ?n = "note_outcome T n outcome t e"
  have n: "same_port e ?n" by (rule same_port_note)
  have "same_port e e' \<and> (res = Inr (Data ws) \<longrightarrow> function_is_read f \<longrightarrow> length ws = len)"
  proof (cases outcome)
    case (Inl err)
    then have "e' = ?n \<lparr> me_stats := count_error (me_stats ?n) \<rparr>" "res = Inl err"
      using assms by (auto simp: after_exchange_def Let_def)
    then show ?thesis using n by (simp add: same_port_def)
  next
    case (Inr reply)
    let ?s = "?n \<lparr> me_stats := (record_timing msec (me_stats ?n)) \<lparr> st_current_io_errors := 0 \<rparr> \<rparr>"
    have "handle_reply f len reply ?s = (res, e')" using assms Inr by (simp add: after_exchange_def Let_def)
    note h = handle_reply_spec [OF this]
    have "same_port e ?s" using n by (simp add: same_port_def)
    with h show ?thesis using same_port_trans by blast
  qed
  then show "same_port e e'" "res = Inr (Data ws) \<Longrightarrow> function_is_read f \<Longrightarrow> length ws = len" by blast+
qed

lemma do_modbus_io_spec:
  assumes "build_request e f start dat len \<noteq> None"
  obtains res e' t' where "do_modbus_io T msec f start dat len e t = Some (res, e', t')" "same_port e e'"
    "\<forall>ws. res = Inr (Data ws) \<longrightarrow> function_is_read f \<longrightarrow> length ws = len"
proof -
  from assms obtain pdu where pdu: "build_request e f start dat len = Some pdu" by blast
  obtain fr counter where fr: "frame_request (me_link e) pdu (me_counter e) = (fr, counter)" by fastforce
  let ?e = "e \<lparr> me_counter := counter \<rparr>"
  have e: "same_port e ?e" by (simp add: same_port_def)
  show thesis
  proof (cases fr)
    case (Inl err)
    show ?thesis
      by (rule that [OF do_modbus_io_unframed [OF pdu fr [unfolded Inl]] e]) simp
  next
    case (Inr framed)
    obtain outcome t1 where tr: "transact T (me_link e) (fr_bytes framed) (fr_transaction_id framed)
        (me_link e = Udp) (expected_reply_frame_len (me_link e) (expected_reply_pdu_len f len)) t = (outcome, t1)"
      by fastforce
    obtain res e' where ax: "after_exchange T msec f len (length pdu) outcome t1 ?e = (res, e')" by fastforce
    show ?thesis
      by (rule that [OF do_modbus_io_framed [OF pdu fr [unfolded Inr] tr ax]
            same_port_trans [OF e after_exchange_spec(1) [OF ax]]])
        (use after_exchange_spec(2) [OF ax] in blast)
  qed
qed

lemma copy_into_total: "n \<le> length dst \<Longrightarrow> length src = n \<Longrightarrow> copy_into dst n src = Some (src @ drop n dst)"
  by (simp add: copy_into_def)

lemma store_words_total:
  assumes "n \<le> length (me_data e)" "\<And>ws. r = Data ws \<Longrightarrow> length ws = n"
  obtains d where "store_words n r e = Some (e \<lparr> me_data := d \<rparr>)" "length d = length (me_data e)"
proof (cases r)
  case (Data ws)
  then show ?thesis
    using assms by (intro that [of "ws @ drop n (me_data e)"]) (simp_all add: store_words_def copy_into_total)
next
  case Acknowledged
  then show ?thesis by (intro that [of "me_data e"]) (simp_all add: store_words_def)
qed

text \<open>No access panics, and each keeps the engine's invariant.\<close>

lemma engine_ok_data:
  "engine_ok e \<Longrightarrow> length d = length (me_data e) \<Longrightarrow> engine_ok (e \<lparr> me_data := d \<rparr>)"
  by (simp add: engine_ok_def)

lemma engine_new_ok: "engine_with_counter cfg l c = Inr e \<Longrightarrow> engine_ok e"
  by (auto simp: engine_with_counter_def and_then_eq_Inr engine_ok_def io_statistics_default_def)

lemma engine_ok_lengths:
  assumes "engine_ok e"
  shows "length (me_data e) = mc_length (me_config e)" "length (me_prev_data e) = mc_length (me_config e)"
    "0 < mc_length (me_config e)" "mc_length (me_config e) \<le> max_length (mc_function (me_config e))"
  using assms by (auto simp: engine_ok_def config_validate_def split: if_splits)

lemma poll_ok:
  assumes "engine_ok e"
  shows "\<exists>r e' t'. poll T msec e t = Some (r, e', t') \<and> engine_ok e' \<and> me_config e' = me_config e"
proof (cases "absolute_addressing (me_config e) \<or> \<not> function_is_read (mc_function (me_config e))")
  case True
  then show ?thesis using assms by (auto simp: poll_def)
next
  case False
  let ?f = "mc_function (me_config e)" and ?n = "mc_length (me_config e)"
  let ?start = "word_of_int (max (mc_start_address (me_config e)) 0) :: u16"
  have "build_request e ?f ?start [] ?n \<noteq> None" using False by (intro build_request_read) simp
  then obtain res e1 t1 where io: "do_modbus_io T msec ?f ?start [] ?n e t = Some (res, e1, t1)"
    and same: "same_port e e1" and ws: "\<forall>ws. res = Inr (Data ws) \<longrightarrow> function_is_read ?f \<longrightarrow> length ws = ?n"
    by (rule do_modbus_io_spec [where T = T and msec = msec and t = t])
  have ok: "engine_ok e1" "me_config e1 = me_config e" by (rule same_port_ok [OF same assms(1)])+
  note len = engine_ok_lengths [OF ok(1)]
  show ?thesis
  proof (cases res)
    case (Inl err)
    then show ?thesis using False io ok by (simp add: poll_def)
  next
    case (Inr r)
    obtain d where d: "store_words (length (me_data e1)) r e1 = Some (e1 \<lparr> me_data := d \<rparr>)" "length d = length (me_data e1)"
      by (rule store_words_total [of "length (me_data e1)" e1 r]) (use Inr ws False len ok in auto)
    have "poll T msec e t = Some (Inr (d \<noteq> me_prev_data e1), e1 \<lparr> me_data := d, me_prev_data := d \<rparr>, t1)"
      using False io Inr d len by (simp add: poll_def copy_into_total)
    then show ?thesis using ok d len by (auto simp: engine_ok_def)
  qed
qed

lemma read_absolute_ok:
  assumes "engine_ok e"
  shows "\<exists>r e' t'. read_absolute T msec f addr cnt e t = Some (r, e', t') \<and> engine_ok e' \<and>
    me_config e' = me_config e \<and>
    (case r of Inl _ \<Rightarrow> True | Inr ws \<Rightarrow> length ws = max (min cnt (mc_length (me_config e))) 1)"
proof (cases "function_is_read f \<and> check_offset e addr = Inr ()")
  case False
  then show ?thesis using assms by (auto simp: read_absolute_def split: sum.split)
next
  case True
  define len where "len = max (min cnt (mc_length (me_config e))) 1"
  have "build_request e f (word_of_int addr) [] len \<noteq> None" using True by (intro build_request_read) simp
  then obtain res e1 t1 where io: "do_modbus_io T msec f (word_of_int addr) [] len e t = Some (res, e1, t1)"
    and same: "same_port e e1" and ws: "\<forall>ws. res = Inr (Data ws) \<longrightarrow> function_is_read f \<longrightarrow> length ws = len"
    by (rule do_modbus_io_spec [where T = T and msec = msec and t = t])
  have ok: "engine_ok e1" "me_config e1 = me_config e" by (rule same_port_ok [OF same assms(1)])+
  have le: "len \<le> length (me_data e1)" using engine_ok_lengths [OF ok(1)] ok(2) by (simp add: len_def)
  show ?thesis
  proof (cases res)
    case (Inl err)
    then show ?thesis using True io ok by (simp add: read_absolute_def len_def)
  next
    case (Inr r)
    obtain d where d: "store_words len r e1 = Some (e1 \<lparr> me_data := d \<rparr>)" "length d = length (me_data e1)"
      by (rule store_words_total [OF le, of r]) (use Inr ws True in auto)
    have "read_absolute T msec f addr cnt e t = Some (Inr (take len d), e1 \<lparr> me_data := d \<rparr>, t1)"
      unfolding read_absolute_def len_def [symmetric] using True io Inr d le by (simp add: slice_def)
    then show ?thesis using ok d le unfolding len_def [symmetric] by (simp add: engine_ok_data)
  qed
qed

lemma read_once_ok:
  assumes "engine_ok e" "function_is_read f"
  shows "\<exists>r e' t'. read_once T msec f addr e t = Some (r, e', t') \<and> engine_ok e' \<and> me_config e' = me_config e"
proof -
  let ?n = "mc_length (me_config e)"
  have "build_request e f addr [] ?n \<noteq> None" using assms(2) by (rule build_request_read)
  then obtain res e1 t1 where io: "do_modbus_io T msec f addr [] ?n e t = Some (res, e1, t1)"
    and same: "same_port e e1"
    by (rule do_modbus_io_spec [where T = T and msec = msec and t = t])
  have ok: "engine_ok e1" "me_config e1 = me_config e" by (rule same_port_ok [OF same assms(1)])+
  consider err where "res = Inl err" | "res = Inr Acknowledged" | ws where "res = Inr (Data ws)"
    using modbus_io_response.exhaust sum.exhaust by metis
  then show ?thesis
  proof cases
    case (3 ws)
    let ?m = "min (length ws) (length (me_data e1))"
    obtain d where d: "store_words ?m (Data (take ?m ws)) e1 = Some (e1 \<lparr> me_data := d \<rparr>)" "length d = length (me_data e1)"
      by (rule store_words_total [of ?m e1 "Data (take ?m ws)"]) auto
    then show ?thesis using 3 io ok by (auto simp: read_once_def Let_def intro: engine_ok_data)
  qed (use io ok in \<open>simp_all add: read_once_def\<close>)
qed

lemma coils_buildable: "length dat \<le> 2040 \<Longrightarrow> pdu_write_multiple_coils slave start dat \<noteq> None"
proof -
  assume "length dat \<le> 2040"
  then have "(length dat + 7) div 8 < 256" by simp
  then have "unat (of_nat ((length dat + 7) div 8) :: byte) = (length dat + 7) div 8"
    by (intro unat_of_nat_less) simp
  moreover have "0 + length dat \<le> 8 * length (replicate ((length dat + 7) div 8) (0 :: byte))" by simp
  then obtain dat' where "set_coils (replicate ((length dat + 7) div 8) 0) 0 dat = Some dat'"
    using set_coils_total by blast
  ultimately show ?thesis by (simp add: pdu_write_multiple_coils_def Let_def)
qed

lemma write_absolute_ok:
  assumes "engine_ok e" "length dat \<le> 2040"
  shows "\<exists>r e' t'. write_absolute T msec f addr dat e t = Some (r, e', t') \<and> engine_ok e' \<and> me_config e' = me_config e"
proof (cases "function_is_write f \<and> check_offset e addr = Inr ()")
  case False
  then show ?thesis using assms by (auto simp: write_absolute_def split: sum.split)
next
  case True
  have "build_request e f (word_of_int addr) dat (length dat) \<noteq> None"
    using coils_buildable [of "map (\<lambda>w. w \<noteq> 0) dat"] assms(2)
    by (cases f) (auto simp: build_request_def slice_def Let_def)
  then obtain res e1 t1 where "do_modbus_io T msec f (word_of_int addr) dat (length dat) e t = Some (res, e1, t1)"
    and same: "same_port e e1"
    by (rule do_modbus_io_spec [where T = T and msec = msec and t = t])
  then show ?thesis
    using True same_port_ok [OF same assms(1)] by (simp add: write_absolute_def)
qed

section \<open>Lemmas: a cycle from end to end\<close>

definition framed_bytes :: "link_type \<Rightarrow> byte list \<Rightarrow> u16 \<Rightarrow> byte list" where
  "framed_bytes l pdu c = (case fst (frame_request l pdu c) of Inr fr \<Rightarrow> fr_bytes fr | Inl _ \<Rightarrow> [])"

lemma frame_request_ok:
  assumes "length pdu \<le> 297"
  obtains fr where "frame_request l pdu c = (Inr fr, if is_mbap l then c + 1 else c)"
    "fr_bytes fr = framed_bytes l pdu c" "fr_transaction_id fr = (if is_mbap l then Some (c + 1) else None)"
    "length (fr_bytes fr) = (case l of Rtu \<Rightarrow> length pdu + 2 | Ascii \<Rightarrow> 2 * length pdu + 3 | _ \<Rightarrow> length pdu + 6)"
proof -
  have len: "length (concat (map encode_ascii pdu)) = 2 * length pdu" by (rule length_concat_ascii)
  have "length (encode_ascii b) = 2" for b by (simp add: encode_ascii_def)
  then have "\<exists>fr. frame_request l pdu c = (Inr fr, if is_mbap l then c + 1 else c) \<and>
      fr_transaction_id fr = (if is_mbap l then Some (c + 1) else None) \<and>
      length (fr_bytes fr) = (case l of Rtu \<Rightarrow> length pdu + 2 | Ascii \<Rightarrow> 2 * length pdu + 3 | _ \<Rightarrow> length pdu + 6)"
    using assms len
    by (cases l) (auto simp: frame_request_def check_size_def is_mbap_def next_transaction_def Let_def
        MAX_MODBUS_FRAME_SIZE_def MBAP_HEADER_SIZE_def)
  then obtain fr where fr: "frame_request l pdu c = (Inr fr, if is_mbap l then c + 1 else c)"
      "fr_transaction_id fr = (if is_mbap l then Some (c + 1) else None)"
      "length (fr_bytes fr) = (case l of Rtu \<Rightarrow> length pdu + 2 | Ascii \<Rightarrow> 2 * length pdu + 3 | _ \<Rightarrow> length pdu + 6)"
    by blast
  show thesis by (rule that [OF fr(1) _ fr(2,3)]) (simp add: framed_bytes_def fr(1))
qed

text \<open>A link that answers at once, under the transaction identifier of the request.\<close>

lemma transact_answered:
  assumes "ot_write_read T framed n t = (Inr (framed_bytes l reply c), t')"
    and "2 \<le> length reply" "length reply \<le> 297" "txid = (if is_mbap l then Some (c + 1) else None)"
  shows "transact T l framed txid udp n t = (Inr (tl reply), t')"
proof -
  obtain fr where fr: "frame_request l reply c = (Inr fr, if is_mbap l then c + 1 else c)"
      "fr_bytes fr = framed_bytes l reply c" "fr_transaction_id fr = (if is_mbap l then Some (c + 1) else None)"
    by (rule frame_request_ok [OF assms(3), of l c])
  have u: "unwrap_response l (framed_bytes l reply c) = Inr \<lparr> ur_pdu = tl reply, ur_transaction_id = txid \<rparr>"
    using frame_unwrap [OF fr(1) assms(2)] fr(2,3) assms(4) by simp
  then have "\<not> stale l txid (framed_bytes l reply c)" by (simp add: stale_def)
  with u show ?thesis by (simp add: transact_def transact_frame_def assms(1) loop_reply)
qed

lemma do_modbus_io_answered:
  assumes "build_request e f start dat len = Some pdu" "length pdu \<le> 297"
    and "ot_write_read T (framed_bytes (me_link e) pdu (me_counter e))
          (expected_reply_frame_len (me_link e) (expected_reply_pdu_len f len)) t =
        (Inr (framed_bytes (me_link e) reply (me_counter e)), t')"
    and "2 \<le> length reply" "length reply \<le> 297"
  shows "\<exists>e1. do_modbus_io T msec f start dat len e t =
      (let (res, e') = handle_reply f len (tl reply) e1 in Some (res, e', t')) \<and>
    me_data e1 = me_data e \<and> me_prev_data e1 = me_prev_data e \<and> me_config e1 = me_config e \<and>
    st_read_ok (me_stats e1) = st_read_ok (me_stats e) \<and> st_write_ok (me_stats e1) = st_write_ok (me_stats e) \<and>
    st_io_errors (me_stats e1) = st_io_errors (me_stats e) \<and> st_current_io_errors (me_stats e1) = 0"
proof -
  let ?l = "me_link e" and ?c = "me_counter e"
  let ?k = "if is_mbap ?l then ?c + 1 else ?c"
  obtain fr where fr: "frame_request ?l pdu ?c = (Inr fr, ?k)" "fr_bytes fr = framed_bytes ?l pdu ?c"
      "fr_transaction_id fr = (if is_mbap ?l then Some (?c + 1) else None)"
    by (rule frame_request_ok [OF assms(2), of ?l ?c])
  have tr: "transact T ?l (fr_bytes fr) (fr_transaction_id fr) (?l = Udp)
      (expected_reply_frame_len ?l (expected_reply_pdu_len f len)) t = (Inr (tl reply), t')"
    unfolding fr(2) by (rule transact_answered [OF assms(3,4,5) fr(3)])
  define n where "n = note_outcome T (length pdu) (Inr (tl reply)) t' (e \<lparr> me_counter := ?k \<rparr>)"
  define e1 where "e1 = n \<lparr> me_stats := (record_timing msec (me_stats n)) \<lparr> st_current_io_errors := 0 \<rparr> \<rparr>"
  obtain res e' where h: "handle_reply f len (tl reply) e1 = (res, e')" by fastforce
  then have "after_exchange T msec f len (length pdu) (Inr (tl reply)) t' (e \<lparr> me_counter := ?k \<rparr>) = (res, e')"
    by (simp add: after_exchange_def n_def [symmetric] e1_def [symmetric] Let_def)
  from do_modbus_io_framed [OF assms(1) fr(1) tr this]
  have "do_modbus_io T msec f start dat len e t = (let (res, e') = handle_reply f len (tl reply) e1 in Some (res, e', t'))"
    using h by simp
  moreover have n: "me_data n = me_data e" "me_prev_data n = me_prev_data e" "me_config n = me_config e"
      "me_stats n = me_stats e"
    by (simp_all add: n_def note_outcome_def trace_def Let_def)
  then have "me_data e1 = me_data e" "me_prev_data e1 = me_prev_data e" "me_config e1 = me_config e"
      "st_read_ok (me_stats e1) = st_read_ok (me_stats e)" "st_write_ok (me_stats e1) = st_write_ok (me_stats e)"
      "st_io_errors (me_stats e1) = st_io_errors (me_stats e)" "st_current_io_errors (me_stats e1) = 0"
    by (simp_all add: e1_def record_timing_def Let_def)
  ultimately show ?thesis by blast
qed

text \<open>The replies of a slave: to a read of bits, registers or its identity, and an exception.\<close>

definition pack_coils :: "bool list \<Rightarrow> byte list" where
  "pack_coils bits =
     (case set_coils (replicate ((length bits + 7) div 8) 0) 0 bits of Some d \<Rightarrow> d | None \<Rightarrow> [])"

definition reply_payload :: "modbus_function \<Rightarrow> u16 list \<Rightarrow> byte list" where
  "reply_payload f ws =
     (if f \<in> {FReadCoils, FReadDiscreteInputs} then pack_coils (map (\<lambda>w. w \<noteq> 0) ws)
      else if f = FReportSlaveId then map ucast ws
      else concat (map (be_bytes 2) ws))"

definition slave_reply :: "byte \<Rightarrow> modbus_function \<Rightarrow> u16 list \<Rightarrow> byte list" where
  "slave_reply slave f ws = [slave, wire_code f, of_nat (length (reply_payload f ws))] @ reply_payload f ws"

definition exception_reply :: "byte \<Rightarrow> modbus_function \<Rightarrow> byte \<Rightarrow> byte list" where
  "exception_reply slave f code = [slave, wire_code f OR MODBUS_EXCEPTION_FCN, code]"

text \<open>The words a function can carry.\<close>

definition carries :: "modbus_function \<Rightarrow> u16 list \<Rightarrow> bool" where
  "carries f ws \<longleftrightarrow> function_is_read f \<and> length ws \<le> max_length f \<and>
     (f \<in> {FReadCoils, FReadDiscreteInputs} \<longrightarrow> set ws \<subseteq> {0, 1}) \<and>
     (f = FReportSlaveId \<longrightarrow> (\<forall>w \<in> set ws. unat w < 256))"

lemma wire_code_plain: "wire_code f AND MODBUS_EXCEPTION_FCN = 0"
  by (cases f) (simp_all add: wire_code_def MODBUS_EXCEPTION_FCN_def)

lemma pack_coils_some:
  "set_coils (replicate ((length bits + 7) div 8) 0) 0 bits = Some (pack_coils bits)"
  "length (pack_coils bits) = (length bits + 7) div 8"
proof -
  have "0 + length bits \<le> 8 * length (replicate ((length bits + 7) div 8) (0 :: byte))" by simp
  then obtain d where d: "set_coils (replicate ((length bits + 7) div 8) 0) 0 bits = Some d"
    using set_coils_total by blast
  then show "set_coils (replicate ((length bits + 7) div 8) 0) 0 bits = Some (pack_coils bits)"
    by (simp add: pack_coils_def)
  from length_set_coils [OF this] show "length (pack_coils bits) = (length bits + 7) div 8" by simp
qed

lemma coil_words_pack:
  assumes "set ws \<subseteq> {0, 1}"
  shows "coil_words (pack_coils (map (\<lambda>w. w \<noteq> 0) ws)) (length ws) = ws"
proof (rule nth_equalityI)
  fix i assume "i < length (coil_words (pack_coils (map (\<lambda>w. w \<noteq> 0) ws)) (length ws))"
  then have i: "i < length ws" by (simp add: coil_words_def)
  let ?bits = "map (\<lambda>w. w \<noteq> 0) ws"
  let ?d = "pack_coils ?bits"
  have "i < 8 * length (replicate ((length ?bits + 7) div 8) (0 :: byte))" using i by simp
  from set_coils_spec [OF pack_coils_some(1) _ this]
  have "coil ?d i \<longleftrightarrow> coil (replicate ((length ?bits + 7) div 8) 0) i \<or> (0 \<le> i \<and> i < 0 + length ?bits \<and> ?bits ! (i - 0))"
    by simp
  moreover have idx: "i div 8 < (length ws + 7) div 8" using i by linarith
  then have "\<not> coil (replicate ((length ?bits + 7) div 8) 0) i" by (simp add: coil_def)
  ultimately have "coil ?d i \<longleftrightarrow> ws ! i \<noteq> 0" using i by simp
  moreover have "?d ! (i div 8) AND push_bit (i mod 8) 1 \<noteq> 0 \<longleftrightarrow> coil ?d i"
    by (simp add: coil_def and_exp_eq_0_iff_not_bit push_bit_eq_mult)
  moreover have "ws ! i = 0 \<or> ws ! i = 1" using assms nth_mem [OF i] by auto
  ultimately show "coil_words ?d (length ws) ! i = ws ! i"
    using i idx by (auto simp: coil_words_def pack_coils_some(2) Let_def)
qed (simp add: coil_words_def)

lemma reply_payload_length:
  assumes "carries f ws"
  shows "expected_reply_pdu_len f (length ws) = 2 + length (reply_payload f ws)" "length (reply_payload f ws) < 256"
proof -
  have cat: "length (concat (map (be_bytes 2) ws)) = 2 * length ws" by (induction ws) simp_all
  have f: "function_is_read f" "length ws \<le> max_length f" using assms by (simp_all add: carries_def)
  show "expected_reply_pdu_len f (length ws) = 2 + length (reply_payload f ws)"
    using f(1) cat by (auto simp: function_is_read_def expected_reply_pdu_len_def reply_payload_def pack_coils_some)
  show "length (reply_payload f ws) < 256"
    using f cat
    by (auto simp: function_is_read_def max_length_def MAX_READ_WORDS_def reply_payload_def pack_coils_some)
qed

lemma read_data_reply:
  assumes "carries f ws"
  shows "read_data \<lparr> rp_function = wire_code f, rp_data = of_nat (length (reply_payload f ws)) # reply_payload f ws \<rparr> =
    Inr (reply_payload f ws)"
proof -
  have "unat (of_nat (length (reply_payload f ws)) :: byte) = length (reply_payload f ws)"
    using reply_payload_length(2) [OF assms] by (intro unat_of_nat_less) simp
  then show ?thesis by (simp add: read_data_def)
qed

lemma parse_slave_reply:
  assumes "carries f ws"
  shows "\<exists>resp. response_parse (tl (slave_reply slave f ws)) = Inr resp \<and> parse_response f (length ws) resp = Inr ws"
proof -
  let ?resp = "\<lparr> rp_function = wire_code f, rp_data = of_nat (length (reply_payload f ws)) # reply_payload f ws \<rparr>"
  have "response_parse (tl (slave_reply slave f ws)) = Inr ?resp"
    by (simp add: slave_reply_def response_parse_def wire_code_plain)
  moreover have "parse_response f (length ws) ?resp = Inr ws"
  proof -
    have f: "function_is_read f" using assms by (simp add: carries_def)
    have "length (concat (map (be_bytes 2) ws)) = 2 * length ws" by (induction ws) simp_all
    moreover have "map (ucast \<circ> (ucast :: u16 \<Rightarrow> byte)) ws = ws" if "f = FReportSlaveId"
    proof -
      have "ucast (ucast w :: byte) = w" if "unat w < 256" for w :: u16
        using that by (intro word_unat_eq_iff [THEN iffD2]) (simp add: unsigned_ucast_eq take_bit_nat_eq_self unsigned_take_bit_eq)
      then show ?thesis using assms that by (auto simp: carries_def intro: map_idI)
    qed
    ultimately show ?thesis
      using f assms read_data_reply [OF assms] be_words_concat coil_words_pack
      by (auto simp: function_is_read_def parse_response_def reply_payload_def carries_def)
  qed
  ultimately show ?thesis by blast
qed

lemma build_request_read_short:
  "function_is_read f \<Longrightarrow> \<exists>pdu. build_request e f start dat len = Some pdu \<and> length pdu \<le> 297"
  by (auto simp: function_is_read_def build_request_def pdu_read_def pdu_report_slave_id_def pdu_f23_read_def Let_def)

lemma poll_answered:
  assumes ok: "engine_ok e" and mode: "\<not> absolute_addressing (me_config e)"
    and ws: "carries (mc_function (me_config e)) ws" "length ws = mc_length (me_config e)"
    and pdu: "build_request e (mc_function (me_config e))
        (word_of_int (max (mc_start_address (me_config e)) 0)) [] (mc_length (me_config e)) = Some pdu"
    and link: "ot_write_read T (framed_bytes (me_link e) pdu (me_counter e))
        (expected_reply_frame_len (me_link e)
           (expected_reply_pdu_len (mc_function (me_config e)) (mc_length (me_config e)))) t =
        (Inr (framed_bytes (me_link e) (slave_reply slave (mc_function (me_config e)) ws) (me_counter e)), t')"
  shows "\<exists>e'. poll T msec e t = Some (Inr (ws \<noteq> me_prev_data e), e', t') \<and> me_data e' = ws \<and>
    me_prev_data e' = ws \<and> st_read_ok (me_stats e') = st_read_ok (me_stats e) + 1 \<and>
    st_io_errors (me_stats e') = st_io_errors (me_stats e) \<and> st_current_io_errors (me_stats e') = 0"
proof -
  let ?f = "mc_function (me_config e)" and ?n = "mc_length (me_config e)"
  let ?reply = "slave_reply slave ?f ws"
  have f: "function_is_read ?f" using ws(1) by (simp add: carries_def)
  have short: "length pdu \<le> 297" using build_request_read_short [OF f] pdu by (metis option.inject)
  have rl: "2 \<le> length ?reply" "length ?reply \<le> 297"
    using reply_payload_length(2) [OF ws(1)] by (simp_all add: slave_reply_def)
  from do_modbus_io_answered [OF pdu short link rl, of msec] obtain e1 where
    io: "do_modbus_io T msec ?f (word_of_int (max (mc_start_address (me_config e)) 0)) [] ?n e t =
      (let (res, e') = handle_reply ?f ?n (tl ?reply) e1 in Some (res, e', t'))"
    and e1: "me_data e1 = me_data e" "me_prev_data e1 = me_prev_data e"
      "st_read_ok (me_stats e1) = st_read_ok (me_stats e)"
      "st_io_errors (me_stats e1) = st_io_errors (me_stats e)" "st_current_io_errors (me_stats e1) = 0"
    by blast
  obtain resp where resp: "response_parse (tl ?reply) = Inr resp" "parse_response ?f ?n resp = Inr ws"
    using parse_slave_reply [OF ws(1), of slave] ws(2) by auto
  let ?e2 = "e1 \<lparr> me_stats := count_ok ?f (me_stats e1) \<rparr>"
  have io2: "do_modbus_io T msec ?f (word_of_int (max (mc_start_address (me_config e)) 0)) [] ?n e t =
      Some (Inr (Data ws), ?e2, t')"
    unfolding io handle_reply_def using resp by simp
  note len = engine_ok_lengths [OF ok]
  have "poll T msec e t = Some (Inr (ws \<noteq> me_prev_data e), ?e2 \<lparr> me_data := ws, me_prev_data := ws \<rparr>, t')"
    unfolding poll_def using mode f io2 e1 len ws(2) by (simp add: store_words_def copy_into_total)
  then show ?thesis using e1 f by (simp add: count_ok_def)
qed

lemma exception_answered:
  assumes pdu: "build_request e f start dat len = Some pdu" "length pdu \<le> 297"
    and link: "ot_write_read T (framed_bytes (me_link e) pdu (me_counter e))
        (expected_reply_frame_len (me_link e) (expected_reply_pdu_len f len)) t =
        (Inr (framed_bytes (me_link e) (exception_reply slave f code) (me_counter e)), t')"
  shows "\<exists>e'. do_modbus_io T msec f start dat len e t =
      Some (if code = 5 then Inr Acknowledged else Inl (ModbusException (exception_from_u8 code)), e', t') \<and>
    me_data e' = me_data e \<and> st_read_ok (me_stats e') = st_read_ok (me_stats e) \<and>
    st_write_ok (me_stats e') = st_write_ok (me_stats e) \<and> st_io_errors (me_stats e') = st_io_errors (me_stats e) \<and>
    st_current_io_errors (me_stats e') = 0"
proof -
  let ?reply = "exception_reply slave f code"
  have rl: "2 \<le> length ?reply" "length ?reply \<le> 297" by (simp_all add: exception_reply_def)
  from do_modbus_io_answered [OF pdu link rl, of msec] obtain e1 where
    io: "do_modbus_io T msec f start dat len e t = (let (res, e') = handle_reply f len (tl ?reply) e1 in Some (res, e', t'))"
    and e1: "me_data e1 = me_data e" "st_read_ok (me_stats e1) = st_read_ok (me_stats e)"
      "st_write_ok (me_stats e1) = st_write_ok (me_stats e)" "st_io_errors (me_stats e1) = st_io_errors (me_stats e)"
      "st_current_io_errors (me_stats e1) = 0"
    by blast
  have "bit ((wire_code f OR MODBUS_EXCEPTION_FCN) AND MODBUS_EXCEPTION_FCN) 7"
    by (simp add: MODBUS_EXCEPTION_FCN_def bit_and_iff bit_or_iff)
  then have "(wire_code f OR MODBUS_EXCEPTION_FCN) AND MODBUS_EXCEPTION_FCN \<noteq> 0"
    by (metis bit_0_eq bot_apply bot_bool_def)
  then have rp: "response_parse (tl ?reply) = Inl (ModbusException (exception_from_u8 code))"
    by (simp add: exception_reply_def response_parse_def)
  have ack: "exception_from_u8 code = Acknowledge \<longleftrightarrow> code = 5"
    by (auto simp: exception_from_u8_def split: if_splits)
  show ?thesis unfolding io handle_reply_def using rp ack e1 by (auto simp: trace_def)
qed

lemma framed_reply_length:
  assumes "carries f ws"
  shows "length (framed_bytes l (slave_reply slave f ws) c) + (if l = Ascii then 2 else 0) =
    expected_reply_frame_len l (expected_reply_pdu_len f (length ws))"
proof -
  have len: "length (slave_reply slave f ws) = 1 + expected_reply_pdu_len f (length ws)"
    "length (slave_reply slave f ws) \<le> 297"
    using reply_payload_length [OF assms] by (simp_all add: slave_reply_def)
  obtain fr where "frame_request l (slave_reply slave f ws) c = (Inr fr, if is_mbap l then c + 1 else c)"
    "fr_bytes fr = framed_bytes l (slave_reply slave f ws) c"
    "fr_transaction_id fr = (if is_mbap l then Some (c + 1) else None)"
    "length (fr_bytes fr) = (case l of Rtu \<Rightarrow> length (slave_reply slave f ws) + 2
       | Ascii \<Rightarrow> 2 * length (slave_reply slave f ws) + 3 | _ \<Rightarrow> length (slave_reply slave f ws) + 6)"
    by (rule frame_request_ok [OF len(2), of l c])
  then show ?thesis
    using len(1) by (cases l) (simp_all add: expected_reply_frame_len_def MBAP_HEADER_SIZE_def)
qed

lemma function_i32_roundtrip: "function_from_i32 (function_as_i32 f) = Some f"
  by (cases f) (simp_all add: function_from_i32_def)

lemma readonce_agree: "readonce_function f = read_once_function f"
  by (cases f) (simp_all add: readonce_function_def read_once_function_def)

lemma max_length_bound: "max_length f \<le> 2000"
  by (simp add: max_length_def MAX_READ_WORDS_def MAX_WRITE_WORDS_def)

end
