(* ===== verification/Modbus_Port.thy ===== *)
theory Modbus_Port
  imports Modbus_Driver
begin

text \<open>
  The Modbus port of \<^verbatim>\<open>modbus-rs/src/ioc.rs\<close> as far as it drives the engine: creation
  with the seeding read, connection management, the acquisition of a poll cycle, the
  register reads and writes every accessor goes through, and the histogram controls.
  A value is converted by \<^verbatim>\<open>datatype.rs\<close> before the operations here see it
  (theory \<open>Modbus_Datatype\<close>), so they take registers.  The texts of errors and trace
  lines, the parameter library and the delivery of callbacks are left out.
  Arithmetic is that of the release profile, which wraps.

  The lemmas show that every operation returns, whatever the link does, and keeps
  the invariant of the engine; the closure \<open>served\<close> of the operations is what a port
  can reach.
\<close>

section \<open>Status and accessors\<close>

datatype asyn_status = AsynSuccess | AsynTimeout | AsynOverflow | AsynError | AsynDisconnected | AsynDisabled

definition to_asyn :: "modbus_error \<Rightarrow> asyn_status" where
  "to_asyn e =
     (case e of
        Timeout \<Rightarrow> AsynTimeout
      | Io IoOverflow \<Rightarrow> AsynOverflow
      | Io IoDisconnected \<Rightarrow> AsynDisconnected
      | Io IoDisabled \<Rightarrow> AsynDisabled
      | _ \<Rightarrow> AsynError)"

datatype accessor =
    ReadUInt32Digital | WriteUInt32Digital | ReadInt32 | WriteInt32 | ReadInt64 | WriteInt64
  | ReadFloat64 | WriteFloat64 | ReadFloat64Array | WriteFloat64Array | ReadInt32Array | WriteInt32Array
  | ReadOctet | WriteOctet

definition accessor_serves :: "accessor \<Rightarrow> modbus_function \<Rightarrow> bool" where
  "accessor_serves a f =
     (case a of
        ReadUInt32Digital \<Rightarrow> True
      | ReadInt32 \<Rightarrow> True
      | ReadInt64 \<Rightarrow> f \<noteq> FReportSlaveId
      | ReadFloat64 \<Rightarrow> f \<noteq> FReportSlaveId
      | ReadFloat64Array \<Rightarrow> f \<noteq> FReportSlaveId
      | ReadInt32Array \<Rightarrow> f \<noteq> FReportSlaveId
      | ReadOctet \<Rightarrow> f \<in> {FReadHoldingRegisters, FReadInputRegisters, FReadInputRegistersF23,
          FWriteMultipleRegisters, FWriteMultipleRegistersF23}
      | WriteUInt32Digital \<Rightarrow> f \<in> {FWriteSingleCoil, FWriteSingleRegister, FWriteMultipleRegisters}
      | WriteInt32 \<Rightarrow> f \<in> {FWriteSingleCoil, FWriteSingleRegister, FWriteMultipleRegisters, FWriteMultipleRegistersF23}
      | WriteInt64 \<Rightarrow> f \<in> {FWriteSingleCoil, FWriteSingleRegister, FWriteMultipleRegisters, FWriteMultipleRegistersF23}
      | WriteFloat64 \<Rightarrow> f \<in> {FWriteSingleCoil, FWriteSingleRegister, FWriteMultipleRegisters, FWriteMultipleRegistersF23}
      | WriteFloat64Array \<Rightarrow> f \<in> {FWriteMultipleCoils, FWriteMultipleRegisters, FWriteMultipleRegistersF23}
      | WriteInt32Array \<Rightarrow> f \<in> {FWriteMultipleCoils, FWriteMultipleRegisters, FWriteMultipleRegistersF23}
      | WriteOctet \<Rightarrow> f \<in> {FWriteMultipleRegisters, FWriteMultipleRegistersF23})"

section \<open>The port and its transactions\<close>

text \<open>The operations of a transport by which a port manages a connection left to it.\<close>

record 't link_control =
  lc_manual_connection :: "'t \<Rightarrow> bool option"
  lc_disconnect_device :: "'t \<Rightarrow> (modbus_error + unit) \<times> 't"
  lc_connect_device :: "'t \<Rightarrow> (modbus_error + unit) \<times> 't"

record modbus_port =
  mp_engine :: modbus_engine
  mp_io_status :: asyn_status

abbreviation port_config :: "modbus_port \<Rightarrow> modbus_config" where
  "port_config p \<equiv> me_config (mp_engine p)"

definition manage_connection :: "'t link_control \<Rightarrow> modbus_port \<Rightarrow> 't \<Rightarrow> (modbus_error + unit) \<times> 't" where
  "manage_connection C p t =
     (case lc_manual_connection C t of
        None \<Rightarrow> (Inr (), t)
      | Some connected \<Rightarrow>
          if mp_io_status p = AsynSuccess \<and> connected then (Inr (), t)
          else let (_, t) = lc_disconnect_device C t in lc_connect_device C t)"

text \<open>After a transaction the trace lines and the marks of moved statistics are taken.\<close>

definition after_io :: "modbus_engine \<Rightarrow> modbus_engine" where
  "after_io e =
     (let e = snd (take_traces e) in e \<lparr> me_stats := snd (take_moved (me_stats e)) \<rparr>)"

definition modbus_io ::
  "'t link_control \<Rightarrow> (modbus_engine \<Rightarrow> 't \<Rightarrow> ((modbus_error + 'a) \<times> modbus_engine \<times> 't) option) \<Rightarrow>
     modbus_port \<Rightarrow> 't \<Rightarrow> ((modbus_error + 'a) \<times> modbus_port \<times> 't) option" where
  "modbus_io C io p t =
     (case manage_connection C p t of
        (Inl err, t) \<Rightarrow> Some (Inl err, p \<lparr> mp_engine := after_io (mp_engine p) \<rparr>, t)
      | (Inr _, t) \<Rightarrow>
          map_option (\<lambda>(r, e, t). (r, p \<lparr> mp_engine := after_io e \<rparr>, t)) (io (mp_engine p) t))"

text \<open>The status a port keeps of a result.\<close>

definition status_of :: "modbus_error + 'a \<Rightarrow> asyn_status" where
  "status_of r = (case r of Inl err \<Rightarrow> to_asyn err | Inr _ \<Rightarrow> AsynSuccess)"

definition port_read_once ::
  "'t link_control \<Rightarrow> 't octet_transport \<Rightarrow> u32 \<Rightarrow> modbus_port \<Rightarrow> 't \<Rightarrow> (modbus_port \<times> 't) option" where
  "port_read_once C T msec p t =
     (case read_once_function (mc_function (port_config p)) of
        None \<Rightarrow> Some (p, t)
      | Some f \<Rightarrow>
          if absolute_addressing (port_config p) \<or> mc_poll_delay (port_config p) = 0 then Some (p, t)
          else
            let addr = word_of_int (max (mc_start_address (port_config p) + readback_offset (port_config p)) 0)
            in map_option (\<lambda>(r, p, t). (p \<lparr> mp_io_status := status_of r \<rparr>, t))
                 (modbus_io C (read_once T msec f addr) p t))"

definition port_new ::
  "'t link_control \<Rightarrow> 't octet_transport \<Rightarrow> u32 \<Rightarrow> modbus_config \<Rightarrow> link_type \<Rightarrow> u16 \<Rightarrow> 't \<Rightarrow>
     ((asyn_status + modbus_port) \<times> 't) option" where
  "port_new C T msec cfg l counter t =
     (case engine_with_counter cfg l counter of
        Inl err \<Rightarrow> Some (Inl (to_asyn err), t)
      | Inr e \<Rightarrow>
          map_option (\<lambda>(p, t). (Inr p, t))
            (port_read_once C T msec \<lparr> mp_engine = record_traces e, mp_io_status = AsynError \<rparr> t))"

text \<open>
  The acquisition of a poll cycle.  The callbacks that follow it, and a cycle that only
  delivers callbacks held back by the previous one, do no transaction.
\<close>

definition poll_acquire ::
  "'t link_control \<Rightarrow> 't octet_transport \<Rightarrow> u32 \<Rightarrow> modbus_port \<Rightarrow> 't \<Rightarrow> (modbus_port \<times> 't) option" where
  "poll_acquire C T msec p t =
     (if absolute_addressing (port_config p) \<or> \<not> function_is_read (mc_function (port_config p)) then Some (p, t)
      else map_option (\<lambda>(r, p, t). (p \<lparr> mp_io_status := status_of r \<rparr>, t)) (modbus_io C (poll T msec) p t))"

section \<open>Reads\<close>

definition absolute_read_function :: "modbus_config \<Rightarrow> asyn_status + modbus_function" where
  "absolute_read_function cfg =
     (if function_is_read (mc_function cfg) then Inr (mc_function cfg)
      else if mc_poll_delay cfg = 0 then Inl AsynError
      else case readonce_function (mc_function cfg) of None \<Rightarrow> Inl AsynError | Some f \<Rightarrow> Inr f)"

definition read_absolute_words ::
  "'t link_control \<Rightarrow> 't octet_transport \<Rightarrow> u32 \<Rightarrow> int \<Rightarrow> nat \<Rightarrow> modbus_port \<Rightarrow> 't \<Rightarrow>
     ((asyn_status + u16 list) \<times> modbus_port \<times> 't) option" where
  "read_absolute_words C T msec addr cnt p t =
     (case absolute_read_function (port_config p) of
        Inl st \<Rightarrow> Some (Inl st, p, t)
      | Inr f \<Rightarrow>
          map_option (\<lambda>(r, p, t). (map_sum to_asyn id r, p \<lparr> mp_io_status := status_of r \<rparr>, t))
            (modbus_io C (read_absolute T msec f addr cnt) p t))"

definition polled_data :: "modbus_port \<Rightarrow> asyn_status + u16 list" where
  "polled_data p = (if mp_io_status p \<noteq> AsynSuccess then Inl (mp_io_status p) else Inr (me_data (mp_engine p)))"

text \<open>\<open>slice_from dat k\<close> is \<^verbatim>\<open>&data[k..]\<close>, with \<^verbatim>\<open>k\<close> a checked offset cast to \<^verbatim>\<open>usize\<close>.\<close>

definition slice_from :: "'a list \<Rightarrow> int \<Rightarrow> ('a list) option" where
  "slice_from dat k = (if 0 \<le> k \<and> nat k \<le> length dat then Some (drop (nat k) dat) else None)"

definition read_registers ::
  "'t link_control \<Rightarrow> 't octet_transport \<Rightarrow> u32 \<Rightarrow> accessor \<Rightarrow> int \<Rightarrow> nat \<Rightarrow> modbus_port \<Rightarrow> 't \<Rightarrow>
     ((asyn_status + u16 list) \<times> modbus_port \<times> 't) option" where
  "read_registers C T msec a offset cnt p t =
     map_option (\<lambda>(r, p, t).
         (and_then r (\<lambda>regs. if accessor_serves a (mc_function (port_config p)) then Inr regs else Inl AsynError), p, t))
       (if absolute_addressing (port_config p) then read_absolute_words C T msec offset cnt p t
        else case polled_data p of
          Inl st \<Rightarrow> Some (Inl st, p, t)
        | Inr dat \<Rightarrow> map_option (\<lambda>regs. (Inr regs, p, t)) (slice_from dat offset))"

text \<open>What every read accessor does before it decodes the registers.\<close>

definition port_read ::
  "'t link_control \<Rightarrow> 't octet_transport \<Rightarrow> u32 \<Rightarrow> accessor \<Rightarrow> int \<Rightarrow> nat \<Rightarrow> modbus_port \<Rightarrow> 't \<Rightarrow>
     ((asyn_status + u16 list) \<times> modbus_port \<times> 't) option" where
  "port_read C T msec a offset cnt p t =
     (case check_offset (mp_engine p) offset of
        Inl err \<Rightarrow> Some (Inl (to_asyn err), p, t)
      | Inr _ \<Rightarrow> read_registers C T msec a offset cnt p t)"

section \<open>Writes\<close>

definition modbus_address :: "modbus_port \<Rightarrow> int \<Rightarrow> u16" where
  "modbus_address p offset = word_of_int (max (mc_start_address (port_config p)) 0 + offset)"

definition flush_write ::
  "'t link_control \<Rightarrow> 't octet_transport \<Rightarrow> u32 \<Rightarrow> int \<Rightarrow> u16 list \<Rightarrow> modbus_port \<Rightarrow> 't \<Rightarrow>
     ((asyn_status + unit) \<times> modbus_port \<times> 't) option" where
  "flush_write C T msec offset regs p t =
     map_option (\<lambda>(r, p, t). (map_sum to_asyn id r, p, t))
       (let f = mc_function (port_config p) in
        if absolute_addressing (port_config p)
        then modbus_io C (write_absolute T msec f offset regs) p t
        else map_option (\<lambda>(r, p, t). (map_sum id (\<lambda>_. ()) r, p, t))
               (modbus_io C (do_modbus_io T msec f (modbus_address p offset) regs (length regs)) p t))"

text \<open>The registers of a scalar one by one; \<open>stop\<close> is \<^verbatim>\<open>RegisterRun::StopAtFailure\<close>.\<close>

fun scalar_run ::
  "'t link_control \<Rightarrow> 't octet_transport \<Rightarrow> (nat \<Rightarrow> u32) \<Rightarrow> bool \<Rightarrow> int \<Rightarrow> nat \<Rightarrow> u16 list \<Rightarrow> asyn_status + unit \<Rightarrow>
     modbus_port \<Rightarrow> 't \<Rightarrow> ((asyn_status + unit) \<times> modbus_port \<times> 't) option" where
  "scalar_run C T msec stop offset i [] last_result p t = Some (last_result, p, t)"
| "scalar_run C T msec stop offset i (r # regs) last_result p t =
     (case flush_write C T (msec i) (offset + int i) [r] p t of
        None \<Rightarrow> None
      | Some (res, p, t) \<Rightarrow>
          if stop \<and> res \<noteq> Inr () then Some (res, p, t)
          else scalar_run C T msec stop offset (i + 1) regs res p t)"

definition write_scalar ::
  "'t link_control \<Rightarrow> 't octet_transport \<Rightarrow> (nat \<Rightarrow> u32) \<Rightarrow> bool \<Rightarrow> int \<Rightarrow> u16 list \<Rightarrow> modbus_port \<Rightarrow> 't \<Rightarrow>
     ((asyn_status + unit) \<times> modbus_port \<times> 't) option" where
  "write_scalar C T msec stop offset regs p t =
     (if mc_function (port_config p) \<noteq> FWriteSingleRegister \<or> length regs < 2
      then flush_write C T (msec 0) offset regs p t
      else scalar_run C T msec stop offset 0 regs (Inr ()) p t)"

text \<open>The registers written into the cache: those past its end are dropped.\<close>

fun stage :: "nat \<Rightarrow> u16 list \<Rightarrow> u16 list \<Rightarrow> u16 list" where
  "stage k [] buf = buf"
| "stage k (r # regs) buf = stage (k + 1) regs (if k < length buf then buf[k := r] else buf)"

definition flush_write_staged ::
  "'t link_control \<Rightarrow> 't octet_transport \<Rightarrow> u32 \<Rightarrow> int \<Rightarrow> u16 list \<Rightarrow> modbus_port \<Rightarrow> 't \<Rightarrow>
     ((asyn_status + unit) \<times> modbus_port \<times> 't) option" where
  "flush_write_staged C T msec offset regs p t =
     (let e = mp_engine p;
          p = (if absolute_addressing (me_config e) then p
               else p \<lparr> mp_engine := e \<lparr> me_data := stage (nat offset) regs (me_data e) \<rparr> \<rparr>)
      in flush_write C T msec offset regs p t)"

text \<open>
  The conversion loop of the array writes: an element is taken while the index of
  its first register is below the length of the port.
\<close>

fun array_regs :: "('v \<Rightarrow> modbus_error + u16 list) \<Rightarrow> nat \<Rightarrow> nat \<Rightarrow> nat \<Rightarrow> 'v list \<Rightarrow> modbus_error + u16 list" where
  "array_regs conv limit rc out_index [] = Inr []"
| "array_regs conv limit rc out_index (v # vs) =
     (if out_index \<ge> limit then Inr []
      else and_then (conv v) (\<lambda>ws. map_sum id (\<lambda>rest. ws @ rest) (array_regs conv limit rc (out_index + rc) vs)))"

text \<open>
  What every write accessor but the digital one does with the registers of its
  value: the two refusals, then the write of its kind.
\<close>

definition port_write ::
  "'t link_control \<Rightarrow> 't octet_transport \<Rightarrow> (nat \<Rightarrow> u32) \<Rightarrow> accessor \<Rightarrow> int \<Rightarrow> u16 list \<Rightarrow> modbus_port \<Rightarrow> 't \<Rightarrow>
     ((asyn_status + unit) \<times> modbus_port \<times> 't) option" where
  "port_write C T msec a offset regs p t =
     (if check_offset (mp_engine p) offset \<noteq> Inr () \<or> \<not> accessor_serves a (mc_function (port_config p))
      then Some (Inl AsynError, p, t)
      else if a \<in> {WriteInt32, WriteInt64} then write_scalar C T msec False offset regs p t
      else if a = WriteFloat64 then write_scalar C T msec True offset regs p t
      else flush_write_staged C T (msec 0) offset regs p t)"

text \<open>The digital write: a partial mask is merged with the register read back first.\<close>

definition readback_address :: "modbus_port \<Rightarrow> int \<Rightarrow> u16" where
  "readback_address p offset =
     (let addr = (if absolute_addressing (port_config p) then offset else uint (modbus_address p offset))
      in word_of_int (max (addr + readback_offset (port_config p)) 0))"

definition readback_word :: "modbus_io_response \<Rightarrow> u32 \<Rightarrow> u32" where
  "readback_word resp v =
     (case resp of Data regs \<Rightarrow> (case regs of [] \<Rightarrow> 0 | r # _ \<Rightarrow> ucast r) | Acknowledged \<Rightarrow> v AND 0xFFFF)"

definition write_uint32_digital ::
  "'t link_control \<Rightarrow> 't octet_transport \<Rightarrow> (nat \<Rightarrow> u32) \<Rightarrow> int \<Rightarrow> u32 \<Rightarrow> u32 \<Rightarrow> modbus_port \<Rightarrow> 't \<Rightarrow>
     ((asyn_status + unit) \<times> modbus_port \<times> 't) option" where
  "write_uint32_digital C T msec offset v msk p t =
     (if check_offset (mp_engine p) offset \<noteq> Inr () \<or> \<not> accessor_serves WriteUInt32Digital (mc_function (port_config p))
      then Some (Inl AsynError, p, t)
      else if mc_function (port_config p) = FWriteSingleCoil \<or> msk = 0 \<or> msk = 0xFFFF
      then flush_write C T (msec 0) offset [ucast v] p t
      else (case modbus_io C (do_modbus_io T (msec 0) FReadHoldingRegisters (readback_address p offset) [] 1) p t of
              None \<Rightarrow> None
            | Some (Inl err, p, t) \<Rightarrow> Some (Inl (to_asyn err), p, t)
            | Some (Inr resp, p, t) \<Rightarrow>
                let merged = (readback_word resp v AND NOT msk) OR (v AND msk)
                in flush_write C T (msec 1) offset [ucast merged] p t))"

section \<open>Histogram controls\<close>

definition set_histogram_bin :: "int \<Rightarrow> modbus_port \<Rightarrow> modbus_port" where
  "set_histogram_bin v p =
     (let e = mp_engine p
      in p \<lparr> mp_engine := e \<lparr> me_stats :=
           clear_histogram ((me_stats e) \<lparr> st_histogram_ms_per_bin := word_of_int (max v 1) \<rparr>) \<rparr> \<rparr>)"

definition enable_histogram :: "u32 \<Rightarrow> modbus_port \<Rightarrow> modbus_port" where
  "enable_histogram v p =
     (let e = mp_engine p; s = me_stats e;
          s = (if v \<noteq> 0 \<and> \<not> st_histogram_enabled s then clear_histogram s else s)
      in p \<lparr> mp_engine := e \<lparr> me_stats := s \<lparr> st_histogram_enabled := (v \<noteq> 0) \<rparr> \<rparr> \<rparr>)"

section \<open>Reachable ports\<close>

text \<open>
  What a port can become: any sequence of its operations, with any duration of a
  transaction, while the link does what it wants between them and other ports
  draw from the shared transaction counter.  A write carries the registers of a
  scalar, of a string that fits the port or of an array, which are at most three
  more than the port has (\<open>write_int64_length\<close>, \<open>array_regs_length\<close>).
\<close>

inductive served :: "'t link_control \<Rightarrow> 't octet_transport \<Rightarrow> modbus_config \<Rightarrow> link_type \<Rightarrow> modbus_port \<Rightarrow> bool"
  for C T cfg l where
  created: "port_new C T msec cfg l counter t = Some (Inr p, t') \<Longrightarrow> served C T cfg l p"
| polled: "served C T cfg l p \<Longrightarrow> poll_acquire C T msec p t = Some (p', t') \<Longrightarrow> served C T cfg l p'"
| read_by: "served C T cfg l p \<Longrightarrow> port_read C T msec a offset cnt p t = Some (r, p', t') \<Longrightarrow> served C T cfg l p'"
| written: "served C T cfg l p \<Longrightarrow> length regs \<le> mc_length cfg + 3 \<Longrightarrow>
    port_write C T msecs a offset regs p t = Some (w, p', t') \<Longrightarrow> served C T cfg l p'"
| digital: "served C T cfg l p \<Longrightarrow> write_uint32_digital C T msecs offset v msk p t = Some (w, p', t') \<Longrightarrow>
    served C T cfg l p'"
| bin_time: "served C T cfg l p \<Longrightarrow> served C T cfg l (set_histogram_bin k p)"
| histogram: "served C T cfg l p \<Longrightarrow> served C T cfg l (enable_histogram v p)"
| shared: "served C T cfg l p \<Longrightarrow>
    served C T cfg l (p \<lparr> mp_engine := (mp_engine p) \<lparr> me_counter := counter \<rparr> \<rparr>)"

section \<open>Lemmas: every operation returns and keeps the invariant\<close>

text \<open>A result that is no panic and leaves a sound engine of the same configuration.\<close>

definition runs :: "modbus_port \<Rightarrow> ('a \<times> modbus_port \<times> 't) option \<Rightarrow> bool" where
  "runs p r \<longleftrightarrow> (\<exists>x p' t'. r = Some (x, p', t') \<and> engine_ok (mp_engine p') \<and> port_config p' = port_config p)"

lemma runs_Some [simp]:
  "runs p (Some (x, p', t')) \<longleftrightarrow> engine_ok (mp_engine p') \<and> port_config p' = port_config p"
  by (simp add: runs_def)

lemma runs_map:
  assumes "runs p r" "\<And>x q t. mp_engine (fst (snd (g (x, q, t)))) = mp_engine q"
  shows "runs p (map_option g r)"
proof -
  from assms(1) obtain x q t where r: "r = Some (x, q, t)" "engine_ok (mp_engine q)" "port_config q = port_config p"
    by (auto simp: runs_def)
  obtain y q' t' where "g (x, q, t) = (y, q', t')" by (cases "g (x, q, t)") auto
  with assms(2) [of x q t] r show ?thesis by simp
qed

lemma runs_same: "port_config q = port_config p \<Longrightarrow> runs q r \<longleftrightarrow> runs p r"
  by (simp add: runs_def)

lemma after_io_ok [simp]: "engine_ok (after_io e) = engine_ok e" "me_config (after_io e) = me_config e"
  by (auto simp: after_io_def take_traces_def take_moved_def engine_ok_def Let_def split: option.splits)

lemma modbus_io_runs:
  assumes "engine_ok (mp_engine p)"
    and "\<And>t. \<exists>r e' t'. io (mp_engine p) t = Some (r, e', t') \<and> engine_ok e' \<and> me_config e' = port_config p"
  shows "runs p (modbus_io C io p t)"
proof (cases "manage_connection C p t")
  case (Pair c t1)
  show ?thesis
  proof (cases c)
    case Inl
    with Pair assms(1) show ?thesis by (simp add: modbus_io_def)
  next
    case Inr
    with Pair assms(2) [of t1] show ?thesis by (auto simp: modbus_io_def)
  qed
qed

lemma build_request_write:
  "length dat \<le> 2040 \<Longrightarrow> build_request e f start dat (length dat) \<noteq> None"
  using coils_buildable [of "map (\<lambda>w. w \<noteq> 0) dat"]
  by (cases f) (auto simp: build_request_def slice_def Let_def)

lemma do_modbus_io_ok:
  assumes "engine_ok e" "build_request e f start dat len \<noteq> None"
  shows "\<exists>r e' t'. do_modbus_io T msec f start dat len e t = Some (r, e', t') \<and> engine_ok e' \<and> me_config e' = me_config e"
proof -
  obtain r e' t' where "do_modbus_io T msec f start dat len e t = Some (r, e', t')" "same_port e e'"
    by (rule do_modbus_io_spec [OF assms(2), where T = T and msec = msec and t = t])
  with same_port_ok [OF _ assms(1)] show ?thesis by blast
qed

lemma port_length:
  "engine_ok (mp_engine p) \<Longrightarrow> mc_length (port_config p) + 3 \<le> 2040"
  using engine_ok_lengths(4) [of "mp_engine p"] max_length_bound [of "mc_function (port_config p)"] by linarith

lemma flush_write_runs:
  assumes "engine_ok (mp_engine p)" "length regs \<le> mc_length (port_config p) + 3"
  shows "runs p (flush_write C T msec offset regs p t)"
proof -
  have len: "length regs \<le> 2040" using assms(2) port_length [OF assms(1)] by linarith
  have "runs p (modbus_io C (write_absolute T msec f offset regs) p t)" for f
    by (intro modbus_io_runs write_absolute_ok assms(1) len)
  moreover have "runs p (modbus_io C (do_modbus_io T msec f a regs (length regs)) p t)" for f a
    by (intro modbus_io_runs do_modbus_io_ok build_request_write assms(1) len)
  ultimately show ?thesis
    by (auto simp: flush_write_def Let_def intro!: runs_map)
qed

lemma scalar_run_runs:
  "engine_ok (mp_engine p) \<Longrightarrow> runs p (scalar_run C T msec stop offset i regs r0 p t)"
proof (induction regs arbitrary: i r0 p t)
  case (Cons r regs)
  have "runs p (flush_write C T (msec i) (offset + int i) [r] p t)"
    using Cons.prems engine_ok_lengths(3) [OF Cons.prems] by (intro flush_write_runs) simp_all
  then obtain res q t1 where q: "flush_write C T (msec i) (offset + int i) [r] p t = Some (res, q, t1)"
    "engine_ok (mp_engine q)" "port_config q = port_config p" by (auto simp: runs_def)
  then show ?case using Cons.IH [OF q(2)] by (simp add: runs_same [OF q(3)])
qed simp

lemma write_scalar_runs:
  assumes "engine_ok (mp_engine p)" "length regs \<le> mc_length (port_config p) + 3"
  shows "runs p (write_scalar C T msec stop offset regs p t)"
  by (simp add: write_scalar_def flush_write_runs [OF assms] scalar_run_runs [OF assms(1)])

lemma length_stage [simp]: "length (stage k regs buf) = length buf"
  by (induction regs arbitrary: k buf) simp_all

lemma flush_write_staged_runs:
  assumes "engine_ok (mp_engine p)" "length regs \<le> mc_length (port_config p) + 3"
  shows "runs p (flush_write_staged C T msec offset regs p t)"
proof -
  let ?q = "p \<lparr> mp_engine := (mp_engine p) \<lparr> me_data := stage (nat offset) regs (me_data (mp_engine p)) \<rparr> \<rparr>"
  have "engine_ok (mp_engine ?q)" using assms(1) by (simp add: engine_ok_data)
  from flush_write_runs [OF this, of regs C T msec offset t] assms(2)
  have "runs p (flush_write C T msec offset regs ?q t)" by (simp add: runs_same [of ?q p])
  with flush_write_runs [OF assms, of C T msec offset t] show ?thesis
    by (simp add: flush_write_staged_def Let_def)
qed

lemma port_write_runs:
  assumes "engine_ok (mp_engine p)" "length regs \<le> mc_length (port_config p) + 3"
  shows "runs p (port_write C T msec a offset regs p t)"
  by (simp add: port_write_def assms(1) write_scalar_runs [OF assms] flush_write_staged_runs [OF assms])

lemma write_uint32_digital_runs:
  assumes "engine_ok (mp_engine p)"
  shows "runs p (write_uint32_digital C T msec offset v msk p t)"
proof -
  have one: "runs q (flush_write C T n offset [w] q u)" if "engine_ok (mp_engine q)" for q n w u
    using that engine_ok_lengths(3) [OF that] by (intro flush_write_runs) simp_all
  have "build_request (mp_engine p) FReadHoldingRegisters a [] 1 \<noteq> None" for a
    by (rule build_request_read) (simp add: function_is_read_def)
  then have "runs p (modbus_io C (do_modbus_io T (msec 0) FReadHoldingRegisters (readback_address p offset) [] 1) p t)"
    by (intro modbus_io_runs do_modbus_io_ok assms)
  then obtain r q t1 where q:
    "modbus_io C (do_modbus_io T (msec 0) FReadHoldingRegisters (readback_address p offset) [] 1) p t = Some (r, q, t1)"
    "engine_ok (mp_engine q)" "port_config q = port_config p" by (auto simp: runs_def)
  show ?thesis
    using assms one [OF assms] one [OF q(2)] q(2,3)
    by (cases r) (simp_all add: write_uint32_digital_def q(1) runs_same [OF q(3)] Let_def del: One_nat_def)
qed

lemma poll_acquire_ok:
  assumes "engine_ok (mp_engine p)"
  obtains p' t' where "poll_acquire C T msec p t = Some (p', t')" "engine_ok (mp_engine p')" "port_config p' = port_config p"
proof -
  have "runs p (modbus_io C (poll T msec) p t)" by (intro modbus_io_runs poll_ok assms)
  then obtain r q t1 where q: "modbus_io C (poll T msec) p t = Some (r, q, t1)" "engine_ok (mp_engine q)"
    "port_config q = port_config p" by (auto simp: runs_def)
  show thesis
  proof (cases "absolute_addressing (port_config p) \<or> \<not> function_is_read (mc_function (port_config p))")
    case True
    then show thesis by (intro that [OF _ assms]) (simp_all add: poll_acquire_def)
  next
    case False
    then show thesis
      by (intro that [of "q \<lparr> mp_io_status := status_of r \<rparr>" t1]) (simp_all add: poll_acquire_def q)
  qed
qed

lemma read_once_is_read: "read_once_function g = Some f \<Longrightarrow> function_is_read f"
  by (cases g) (auto simp: read_once_function_def function_is_read_def)

lemma port_read_once_ok:
  assumes "engine_ok (mp_engine p)"
  obtains p' t' where "port_read_once C T msec p t = Some (p', t')" "engine_ok (mp_engine p')" "port_config p' = port_config p"
proof (cases "read_once_function (mc_function (port_config p))")
  case None
  then show thesis using assms that by (simp add: port_read_once_def)
next
  case (Some f)
  then have "function_is_read f" by (rule read_once_is_read)
  let ?a = "word_of_int (max (mc_start_address (port_config p) + readback_offset (port_config p)) 0) :: u16"
  have "runs p (modbus_io C (read_once T msec f ?a) p t)"
    by (intro modbus_io_runs read_once_ok assms \<open>function_is_read f\<close>)
  then obtain r q t1 where q: "modbus_io C (read_once T msec f ?a) p t = Some (r, q, t1)"
    "engine_ok (mp_engine q)" "port_config q = port_config p" by (auto simp: runs_def)
  show thesis
  proof (cases "absolute_addressing (port_config p) \<or> mc_poll_delay (port_config p) = 0")
    case True
    then show thesis by (intro that [OF _ assms]) (simp_all add: port_read_once_def Some)
  next
    case False
    then show thesis
      by (intro that [of "q \<lparr> mp_io_status := status_of r \<rparr>" t1]) (simp_all add: port_read_once_def Some q)
  qed
qed

lemma port_new_ok:
  obtains (refused) st t' where "port_new C T msec cfg l c t = Some (Inl st, t')"
  | (created) p t' where "port_new C T msec cfg l c t = Some (Inr p, t')" "engine_ok (mp_engine p)" "port_config p = cfg"
proof (cases "engine_with_counter cfg l c")
  case (Inl err)
  then show thesis by (intro refused) (simp add: port_new_def)
next
  case (Inr e)
  let ?p = "\<lparr> mp_engine = record_traces e, mp_io_status = AsynError \<rparr>"
  have e: "engine_ok (record_traces e)" "me_config (record_traces e) = cfg"
    using engine_new_ok [OF Inr] Inr
    by (auto simp: record_traces_def engine_ok_def engine_with_counter_def and_then_eq_Inr split: option.splits)
  obtain p t' where "port_read_once C T msec ?p t = Some (p, t')" "engine_ok (mp_engine p)" "port_config p = port_config ?p"
    by (rule port_read_once_ok [of ?p C T msec t]) (use e in simp_all)
  with Inr e show thesis by (intro created) (simp_all add: port_new_def)
qed

lemma port_read_runs:
  assumes "engine_ok (mp_engine p)"
  shows "runs p (port_read C T msec a offset cnt p t)"
proof (cases "check_offset (mp_engine p) offset")
  case (Inl err)
  then show ?thesis using assms by (simp add: port_read_def)
next
  case ok: (Inr u)
  have words: "runs p (read_absolute_words C T msec offset cnt p t)"
  proof (cases "absolute_read_function (port_config p)")
    case (Inl st)
    then show ?thesis using assms by (simp add: read_absolute_words_def)
  next
    case (Inr f)
    have "runs p (modbus_io C (read_absolute T msec f offset cnt) p t)"
    proof (rule modbus_io_runs [OF assms])
      fix u
      from read_absolute_ok [OF assms, of T msec f offset cnt u]
      show "\<exists>r e' t'. read_absolute T msec f offset cnt (mp_engine p) u = Some (r, e', t') \<and>
          engine_ok e' \<and> me_config e' = port_config p" by blast
    qed
    then show ?thesis by (auto simp: read_absolute_words_def Inr intro!: runs_map)
  qed
  have "slice_from (me_data (mp_engine p)) offset \<noteq> None" if "\<not> absolute_addressing (port_config p)"
    using ok that engine_ok_lengths(1) [OF assms] by (auto simp: check_offset_def slice_from_def Let_def split: if_splits)
  then have "runs p (read_registers C T msec a offset cnt p t)"
    using words assms unfolding read_registers_def
    by (intro runs_map) (auto simp: polled_data_def split: sum.split)
  then show ?thesis by (simp add: port_read_def ok)
qed

lemma array_regs_length:
  assumes "\<And>v ws. conv v = Inr ws \<Longrightarrow> length ws = rc" "1 \<le> rc" "rc \<le> 4"
    and "array_regs conv limit rc out_index vs = Inr regs"
  shows "length regs \<le> (limit - out_index) + 3"
  using assms(4)
proof (induction vs arbitrary: out_index regs)
  case (Cons v vs)
  show ?case
  proof (cases "out_index \<ge> limit")
    case False
    with Cons.prems obtain ws rest where ws: "conv v = Inr ws" "regs = ws @ rest"
      "array_regs conv limit rc (out_index + rc) vs = Inr rest"
      by (auto simp: and_then_eq_Inr map_sum_def split: sum.splits)
    with Cons.IH [OF ws(3)] assms(1) [OF ws(1)] assms(3) False show ?thesis
    proof (cases "out_index + rc \<ge> limit")
      case True
      with ws(3) have "rest = []" by (cases vs) simp_all
      with ws assms(1) [OF ws(1)] assms(3) False show ?thesis by simp
    qed simp
  qed (use Cons.prems in simp)
qed simp

lemma write_int64_length: "write_int64 dt v = Inr (Conv ws) \<Longrightarrow> length ws = max (register_count dt) 1"
  by (cases dt) (auto simp: write_int64_def register_count_def Let_def order_of_def split: option.splits if_splits)

section \<open>Lemmas: the invariant of a reachable port\<close>

lemma controls_ok [simp]:
  "engine_ok (mp_engine (set_histogram_bin k p)) = engine_ok (mp_engine p)"
  "port_config (set_histogram_bin k p) = port_config p"
  "engine_ok (mp_engine (enable_histogram v p)) = engine_ok (mp_engine p)"
  "port_config (enable_histogram v p) = port_config p"
  by (simp_all add: set_histogram_bin_def enable_histogram_def clear_histogram_def engine_ok_def Let_def)

lemma served_ok:
  assumes "served C T cfg l p"
  shows "engine_ok (mp_engine p) \<and> port_config p = cfg"
  using assms
proof (induction rule: served.induct)
  case (created msec counter t p t')
  show ?case by (rule port_new_ok [of C T msec cfg l counter t]) (use created in auto)
next
  case (polled p msec t p' t')
  show ?case by (rule poll_acquire_ok [of p C T msec t]) (use polled in auto)
next
  case (read_by p msec a offset cnt t r p' t')
  with port_read_runs [of p C T msec a offset cnt t] show ?case by simp
next
  case (written p regs msecs a offset t w p' t')
  with port_write_runs [of p regs C T msecs a offset t] show ?case by simp
next
  case (digital p msecs offset v msk t w p' t')
  with write_uint32_digital_runs [of p C T msecs offset v msk t] show ?case by simp
next
  case (shared p counter)
  then show ?case by (auto simp: engine_ok_def)
qed simp_all

end
