(* ===== verification/Spec2Isabelle.thy ===== *)
theory Spec2Isabelle
  imports Pva_Monitor_Correct Ca_Recv Modbus_Port
begin

text \<open>
  A verification library for the wire protocols of \<^verbatim>\<open>epics-rs\<close>, a Rust
  implementation of the EPICS control system.  File names below are relative to
  \<^verbatim>\<open>src/crates/\<close>.

  \<^bold>\<open>The program.\<close>  A server publishes process variables and clients read, write
  and monitor them over two protocols: pvAccess (crate \<^verbatim>\<open>epics-pva-rs\<close>),
  which sends structured values with an introspection descriptor and
  incremental updates, and Channel Access (crate \<^verbatim>\<open>epics-ca-rs\<close>), which sends
  flat messages with a fixed header.  Servers in turn read their values from
  devices; \<^verbatim>\<open>modbus-rs\<close> is the driver for Modbus devices.  All three take
  bytes from a peer they do not trust, so the library covers for each of them
  the path from bytes to values and back, and the queues, gates and loops
  those bytes drive.

  \<^bold>\<open>Conventions\<close> (\<open>Epics_Prelude\<close>).  A byte is an \<open>8 word\<close>, a fixed-width integer
  a word of its width, \<^verbatim>\<open>usize\<close> a natural number with saturating and checked
  operations at \<open>usize_max\<close>.  A writer is the list of bytes it appends; a
  reader maps the remaining bytes to an error or a result with the bytes left,
  and \<open>and_then\<close> is the \<^verbatim>\<open>?\<close> operator.  A panic is \<open>None\<close>.  Loops are
  structural or well-founded recursion; none uses fuel except where the code
  itself bounds the loop (\<^verbatim>\<open>MAX_STALE_FRAMES\<close>, \<^verbatim>\<open>UDP_MAX_RETRIES\<close>, the depth limit of the
  decoders), so those bounds are the code's.  The locales \<open>codec\<close>,
  \<open>stream_decoder\<close>, \<open>wire_format\<close> and \<open>framer\<close> state what an encoder/decoder pair,
  a reader on a stream and a message cutter promise; every primitive codec and
  both message cutters are interpreted in them.

  \<^bold>\<open>pvAccess\<close> (\<^verbatim>\<open>epics-pva-rs/src\<close>).

  \<^item> \<open>Pva_Buffer\<close>, \<open>Pva_Proto\<close>, \<open>Pva_BitSet\<close>, \<open>Utf8_Lossy\<close>: \<^verbatim>\<open>proto/\<close>.  Integers in both
    byte orders, sizes, strings, headers, status, addresses, the bit set (a
    byte vector that refines a set of naturals through the locale
    \<open>bit_container\<close>) and selectors.
  \<^item> \<open>Pva_Field\<close>, \<open>Pva_TypeDesc\<close>, \<open>Pva_TypeDesc_Correct\<close>: \<^verbatim>\<open>pvdata/field.rs\<close>,
    \<^verbatim>\<open>pvdata/scalar.rs\<close> and the descriptor part of \<^verbatim>\<open>pvdata/encode.rs\<close>.  The
    descriptor tree, its depth-first bit numbering, both encoders and the
    decoder with the connection's type cache.  The lemmas show that whatever
    arrives is within the limits, that both encodings read back and where the
    cached one does not.
  \<^item> \<open>Pva_Scalar\<close>, \<open>Pva_Value\<close>, \<open>Pva_Value_Correct\<close>: \<^verbatim>\<open>pvdata/structure.rs\<close>,
    \<^verbatim>\<open>value.rs\<close>, \<^verbatim>\<open>convert.rs\<close>, \<^verbatim>\<open>cpp_cast.rs\<close> and the value part of
    \<^verbatim>\<open>encode.rs\<close>.  \<open>has_type\<close> is the shape of a value under a descriptor; every
    decoded value has it, every well-typed value reads back, and the encoder
    writes a well-typed value whatever it is given.
  \<^item> \<open>Pva_Delta\<close>, \<open>Pva_Delta_Correct\<close>: the bit-set-gated parts of \<^verbatim>\<open>encode.rs\<close>,
    \<^verbatim>\<open>value_check.rs\<close> and \<^verbatim>\<open>monitor_squash.rs\<close>.  \<open>overlay\<close>, the marked parts of
    one value on top of another, is the specification of a partial update;
    the three receivers of the code implement it (locale \<open>delta_receiver\<close>) and
    squashing two updates has the effect of both.
  \<^item> \<open>Pva_Frame\<close>: \<^verbatim>\<open>decode.rs\<close>, \<^verbatim>\<open>peer_buf.rs\<close>.  Frame cutting, segment
    reassembly and the response decoders.
  \<^item> \<open>Pva_Monitor\<close>, \<open>Pva_Monitor_Correct\<close>: subscriptions.  The server's squash
    queue and frame builders (\<^verbatim>\<open>server_native/tcp.rs\<close>, \<^verbatim>\<open>source.rs\<close>, \<^verbatim>\<open>peers.rs\<close>), the
    client's backlog and delivery fence (\<^verbatim>\<open>client_native/monitor_queue.rs\<close>) and
    the loop that delivers values (\<^verbatim>\<open>client_native/ops_v2.rs\<close>).  Runs are lists
    of arrivals and turns, or inductive relations (\<open>fence_run\<close>, \<open>queue_run\<close>); one
    step is what the code does under its lock.

  \<^bold>\<open>Channel Access\<close> (\<^verbatim>\<open>epics-ca-rs/src\<close>).  \<open>Ca_Protocol\<close> holds \<^verbatim>\<open>protocol.rs\<close>: headers,
  limits, and the client's write frames.  \<open>Ca_Recv\<close> holds \<^verbatim>\<open>server/recv.rs\<close>,
  \<^verbatim>\<open>server/rate_limit.rs\<close> and the receive loop of \<^verbatim>\<open>server/blocking.rs\<close>: the
  accumulation buffer refines a scan of the whole stream whatever the reads
  are, stays bounded and never panics.  A run is the list of the reads that
  return bytes, each with the times of the calls of its pass; a message whose
  handler fails ends it, as a closing gate does.

  \<^bold>\<open>Modbus\<close> (\<^verbatim>\<open>modbus-rs/src\<close>).  \<open>Modbus_Protocol\<close>, \<open>Modbus_Framing\<close>,
  \<open>Modbus_Datatype\<close> and \<open>Modbus_Driver\<close> follow \<^verbatim>\<open>protocol.rs\<close> with \<^verbatim>\<open>error.rs\<close>,
  \<^verbatim>\<open>interpose.rs\<close>, \<^verbatim>\<open>datatype.rs\<close> and \<^verbatim>\<open>driver.rs\<close>.  The transport is a record of
  operations over an arbitrary state.  \<open>Modbus_Port\<close> holds the operations of
  \<^verbatim>\<open>ioc.rs\<close> that drive the engine: creation, connection management, acquisition,
  the reads and writes behind the accessors, the histogram controls; \<open>served\<close> is
  their inductive closure.

  \<^bold>\<open>What is a parameter.\<close>  The clock, environment values, the transport, whether
  an allocation can grow, the dispatch of a delivered message (which may fail), the
  host's byte order, and the conversions that need floating point (\<open>conv_ops\<close>).

  \<^bold>\<open>This theory\<close> states the properties, in the order of the layers above:
  descriptors, primitives, values, messages and subscriptions, Channel Access,
  Modbus.  Each property with hypotheses is followed by its application to
  concrete data.

  \<^bold>\<open>Not modelled.\<close>  Text output and error messages, because they are not
  observable on the wire; arithmetic on floating point values, for want of an
  executable semantics in the library; sockets, tasks and timers, which appear only as the
  order of steps; in \<^verbatim>\<open>decode.rs\<close> the rewriting of type-cache markers by the
  reader task, which leaves frames without markers (all that the modelled server
  sends) as they are; in \<^verbatim>\<open>ops_v2.rs\<close> and \<^verbatim>\<open>tcp.rs\<close> everything outside the monitor
  path.  The record database, its
  processing, loaders, links and shell (\<^verbatim>\<open>epics-base-rs\<close>), the port driver framework
  with the callbacks a Modbus port delivers through it,
  motor, detector, scan, stream and sequencer crates, bridges, tools and
  generated code are outside the library: they sit above or beside the
  protocol stack and are dominated by floating point computation, configuration
  text and operating system interfaces.
\<close>

section \<open>pvAccess: introspection descriptors\<close>

text \<open>
  C1: Whatever bytes a peer sends, and however many descriptors one connection
  reads from them through its shared type cache, every descriptor the decoder
  hands out has consistent bit counts, UTF-8 names, a height within
  \<^verbatim>\<open>MAX_FIELD_DEPTH\<close> and at most \<^verbatim>\<open>MAX_FIELD_NODES\<close> nodes, and
  the unread input is a suffix of what was given.
\<close>

theorem descriptor_stream_safe:
  "case fst (decode_descs ord n Map.empty bs) of
     Inl _ \<Rightarrow> True
   | Inr (ds, rest) \<Rightarrow> length ds = n \<and> list_all desc_bounded ds \<and> suffix rest bs"
proof -
  have "cache_ok Map.empty" by (simp add: cache_ok_def)
  from decode_descs_ok [OF this, of n bs ord] show ?thesis
    by (auto simp: st_ok_def split: sum.split)
qed

text \<open>
  C2: A stream of descriptors written by the caching encoder (full definitions
  on first use, three-byte references afterwards) is read back by the caching
  decoder exactly, in order, with nothing of the following bytes consumed, provided
  each descriptor has consistent bit counts, UTF-8 names and lengths that fit the wire, at most
  \<^verbatim>\<open>MAX_FIELD_NODES\<close> nodes, and a cached form (a definition costs a level of its
  own) that nests no deeper than \<^verbatim>\<open>MAX_FIELD_DEPTH\<close>.  The encoder does not check
  the last condition itself: C4 shows what becomes of deeper descriptors.
\<close>

theorem cached_stream_roundtrip:
  assumes "\<forall>d \<in> set ds. wire_desc d \<and> desc_nodes d \<le> MAX_FIELD_NODES \<and> cached_depth d \<le> MAX_FIELD_DEPTH"
    and "encode_descs ord ds encode_type_cache_new = Some (out, E')"
  shows "fst (decode_descs ord (length ds) Map.empty (out @ rest)) = Inr (ds, rest)"
proof -
  have "list_all sendable ds" using assms(1) by (simp add: list_all_iff sendable_def)
  from decode_encode_descs [OF this assms(2) sync_new, of rest] show ?thesis by auto
qed

definition sample_desc :: field_desc where
  "sample_desc = Structure [0x74] (struct_fields_from
     [([0x61], Scalar TInt), ([0x62], Structure [] (struct_fields_from [([0x63], Scalar TDouble)]))])"

lemma sample_sendable: "sendable sample_desc"
  by (simp add: sample_desc_def sendable_def struct_fields_from_def wire_string_def cached_depth_def
      MAX_FIELD_NODES_def MAX_FIELD_DEPTH_def utf8_valid_ascii)

theorem cached_stream_roundtrip_witness:
  "\<exists>out E'. encode_descs Big [sample_desc, sample_desc] encode_type_cache_new = Some (out, E') \<and>
     fst (decode_descs Big 2 Map.empty (out @ [7])) = Inr ([sample_desc, sample_desc], [7])"
proof -
  have "\<forall>d \<in> set [sample_desc, sample_desc].
      wire_desc d \<and> desc_nodes d \<le> MAX_FIELD_NODES \<and> cached_depth d \<le> MAX_FIELD_DEPTH"
    using sample_sendable by (simp add: sendable_def)
  moreover have "encode_descs Big [sample_desc, sample_desc] encode_type_cache_new \<noteq> None"
    by code_simp
  ultimately show ?thesis
    using cached_stream_roundtrip [of "[sample_desc, sample_desc]" Big _ _ "[7]"]
    by (fastforce simp: numeral_2_eq_2)
qed

text \<open>
  C3: The inline encoding of a descriptor whose nesting and node count are
  within the limits is read back by \<^verbatim>\<open>decode_type_desc\<close> exactly, in both
  byte orders.
\<close>

theorem inline_roundtrip:
  assumes "wire_desc d" "inline_depth d \<le> MAX_FIELD_DEPTH" "desc_nodes d \<le> MAX_FIELD_NODES"
  shows "decode_type_desc ord (encode_type_desc ord d @ rest) = Inr (d, rest)"
  using decode_encode_type_desc(1) [of d 0] assms
  by (simp add: decode_type_desc_def decode_type_desc_cached_def)

theorem inline_roundtrip_witness:
  "decode_type_desc Little (encode_type_desc Little sample_desc @ [1, 2]) = Inr (sample_desc, [1, 2])"
  by (rule inline_roundtrip)
    (simp_all add: sample_desc_def struct_fields_from_def wire_string_def MAX_FIELD_NODES_def
      MAX_FIELD_DEPTH_def utf8_valid_ascii)

text \<open>
  C4: The two encodings disagree about depth. A chain of between 11 and 20
  nested structures is within the limits: its inline encoding is read back.
  The caching encoder accepts it too, but the bytes it writes are refused by the
  decoder as nested too deep, since every cached definition costs a second level.
\<close>

theorem cached_depth_gap:
  assumes "11 \<le> n" "n \<le> 20"
  shows "decode_type_desc ord (encode_type_desc ord (nest n)) = Inr (nest n, []) \<and>
    (\<exists>out E'. encode_type_desc_cached ord (nest n) encode_type_cache_new = Some (out, E') \<and>
       fst (decode_type_desc_cached ord Map.empty out) = Inl NestingTooDeep)"
proof
  have "decode_type_at ord Interop 0 Map.empty (encode_type_desc ord (nest n) @ []) =
      (Inr (nest n, metrics_of (nest n), []), Map.empty)"
    using assms by (intro decode_encode_type_desc(1))
      (simp_all add: nest_wire MAX_FIELD_DEPTH_def MAX_FIELD_NODES_def)
  then show "decode_type_desc ord (encode_type_desc ord (nest n)) = Inr (nest n, [])"
    by (simp add: decode_type_desc_def decode_type_desc_cached_def)
next
  have new: "\<forall>j. 0 < j \<and> j \<le> n \<longrightarrow> ec_map encode_type_cache_new (nest j) = None"
    by (simp add: encode_type_cache_new_def)
  obtain out E' where enc: "encode_type_desc_cached ord (nest n) encode_type_cache_new = Some (out, E')"
    using nest_cached_total [OF _ new, of ord] assms(2)
    by (auto simp: encode_type_cache_new_def)
  have "fst (decode_type_at ord Interop 0 Map.empty (out @ [])) = Inl NestingTooDeep"
    by (rule nest_cached_refused [OF enc new]) (use assms(1) in \<open>simp add: MAX_FIELD_DEPTH_def\<close>)
  then have "fst (decode_type_desc_cached ord Map.empty out) = Inl NestingTooDeep"
    by (cases "decode_type_at ord Interop 0 Map.empty out") (simp add: decode_type_desc_cached_def)
  with enc show "\<exists>out E'. encode_type_desc_cached ord (nest n) encode_type_cache_new = Some (out, E') \<and>
       fst (decode_type_desc_cached ord Map.empty out) = Inl NestingTooDeep"
    by blast
qed

theorem cached_depth_gap_witness:
  "decode_type_desc Big (encode_type_desc Big (nest 11)) = Inr (nest 11, []) \<and>
    (\<exists>out E'. encode_type_desc_cached Big (nest 11) encode_type_cache_new = Some (out, E') \<and>
       fst (decode_type_desc_cached Big Map.empty out) = Inl NestingTooDeep)"
  using cached_depth_gap [of 11 Big] by simp

text \<open>
  C5: The explicit-stack loop of \<^verbatim>\<open>TreeMetrics::measure\<close> computes the
  height and the (saturating) node count that the recursive definitions give,
  for every descriptor whose height fits the unchecked 32-bit level of the loop.
\<close>

theorem measure_loop_correct:
  assumes "desc_height d < 2 ^ 32"
  shows "measure_desc d = \<lparr> tm_height = desc_height d, tm_nodes = min (2 ^ 32 - 1) (desc_nodes d) \<rparr>"
  using assms by (rule measure_desc_eq)

theorem measure_loop_correct_witness:
  "measure_desc sample_desc = \<lparr> tm_height = 2, tm_nodes = 4 \<rparr>"
  using measure_loop_correct [of sample_desc] by (simp add: sample_desc_def struct_fields_from_def)

section \<open>pvAccess: values and primitive codecs\<close>

text \<open>
  C6: The bulk array codec is transparent: what it writes does not depend on the
  byte order of the machine, it is the concatenation of the scalar encodings, and
  a machine of either byte order reads it back.
\<close>

theorem typed_array_roundtrip:
  assumes "list_all wire_value (array_values arr)" "length (array_values arr) * 8 \<le> usize_max"
  shows "encode_typed_scalar_array hb ord arr = concat (map (encode_scalar_value ord) (array_values arr)) \<and>
    decode_typed_scalar_array hb' (array_type arr) (length (array_values arr)) ord
      (encode_typed_scalar_array hb ord arr @ rest) = Inr (Some arr, rest)"
  using decode_encode_array [OF assms, of hb' ord rest]
  by (simp add: encode_array_elementwise)

theorem typed_array_roundtrip_witness:
  "encode_typed_scalar_array True Little (AShort [1, 0x102]) = [1, 0, 2, 1] \<and>
   decode_typed_scalar_array False TShort 2 Little [1, 0, 2, 1, 9] = Inr (Some (AShort [1, 0x102]), [9])"
proof -
  have enc: "encode_typed_scalar_array True Little (AShort [1, 0x102]) = [1, 0, 2, 1]" by code_simp
  have "list_all wire_value (array_values (AShort [1, 0x102]))"
    "length (array_values (AShort [1, 0x102])) * 8 \<le> usize_max"
    by (simp_all add: usize_max_def)
  from typed_array_roundtrip [OF this, of True Little False "[9]"] show ?thesis
    by (simp add: enc numeral_2_eq_2)
qed

text \<open>
  C7: A change mask survives the wire: what a peer decodes has exactly the bits
  that were set, for every mask whose bytes fit the 32-bit length.
\<close>

theorem change_mask_roundtrip:
  assumes "length (bit_bytes s) < 2 ^ 32"
  shows "\<exists>s'. bitset_decode ord (bitset_write_into ord s @ rest) = Inr (s', rest) \<and>
    (\<forall>i. bitset_get s' i \<longleftrightarrow> bitset_get s i)"
  using bitset_decode_write [OF assms] get_trimmed by blast

theorem change_mask_roundtrip_witness:
  "\<exists>s'. bitset_decode Big (bitset_write_into Big (bitset_set (bitset_set bitset_new 3) 70) @ [5]) = Inr (s', [5]) \<and>
    (\<forall>i. bitset_get s' i \<longleftrightarrow> i = 70 \<or> i = 3 \<or> bitset_get bitset_new i)"
proof -
  have "length (bit_bytes (bitset_set (bitset_set bitset_new 3) 70)) = 9" by code_simp
  then have "length (bit_bytes (bitset_set (bitset_set bitset_new 3) 70)) < 2 ^ 32" by simp
  from change_mask_roundtrip [OF this, of Big "[5]"] show ?thesis by (simp add: get_set_bit)
qed

text \<open>
  C8: The bit set refines a set of naturals: after any operation membership is the
  set operation's, the iterator lists the members in ascending order without
  repetition, and the count is the cardinality.
\<close>

theorem bit_set_refines_set:
  "(bitset_get (bitset_set s i) j \<longleftrightarrow> j = i \<or> bitset_get s j) \<and>
   (bitset_get (bitset_clear s i) j \<longleftrightarrow> j \<noteq> i \<and> bitset_get s j) \<and>
   (bitset_get (bitset_union_with s t) j \<longleftrightarrow> bitset_get s j \<or> bitset_get t j) \<and>
   (bitset_any_in s a e \<longleftrightarrow> (\<exists>i. a \<le> i \<and> i < e \<and> bitset_get s i)) \<and>
   (bitset_get (bitset_all_set n) j \<longleftrightarrow> j < n) \<and>
   set (bitset_iter s) = {i. bitset_get s i} \<and> sorted_wrt (<) (bitset_iter s) \<and>
   bitset_count s = card {i. bitset_get s i}"
  by (intro conjI get_set_bit get_clear_bit get_union_with any_in_iff all_set_get bitset_iter_set
      bitset_iter_ascending bitset_count_card)

text \<open>
  C9: Squashing two monitor updates keeps exactly the leaves that either update
  marked, itself or through an enclosing structure whose whole subtree was marked.
\<close>

theorem squash_keeps_marked_leaves:
  "bitset_get (squash_changed d a b) j \<longleftrightarrow> leaf_marked d a 0 False j \<or> leaf_marked d b 0 False j"
  by (rule squash_changed_get)

text \<open>
  C10: In a descriptor with consistent bit counts the bit of a field path is
  unique to the path, and the path's bit span is nonempty and inside the
  descriptor's.
\<close>

theorem field_path_bits:
  assumes "wf_desc d" "find_bit_for_path d 0 p = Some (s, e)"
  shows "s < e \<and> e \<le> total_bits d \<and> (\<forall>q e'. find_bit_for_path d 0 q = Some (s, e') \<longrightarrow> q = p)"
  using find_bit_span(1) [OF assms] find_bit_inject(1) [OF assms(1) _ assms(2)] by auto

theorem field_path_bits_witness:
  "find_bit_for_path sample_desc 0 [[0x62], [0x63]] = Some (3, 4) \<and> 4 \<le> total_bits sample_desc \<and>
    find_bit_for_path sample_desc 0 [[0x61]] \<noteq> Some (3, 4)"
proof -
  have wf: "wf_desc sample_desc" by code_simp
  have bit: "find_bit_for_path sample_desc 0 [[0x62], [0x63]] = Some (3, 4)" by code_simp
  from field_path_bits [OF wf bit] bit show ?thesis by auto
qed

text \<open>
  C11: A message header with a nonzero version and a status with sendable texts
  are read back in the byte order the header's flags announce; text that is not
  valid UTF-8 can only enter as its lossy repair.
\<close>

theorem control_plane_roundtrip:
  assumes "h_version h \<noteq> 0" "wire_status s"
  shows "and_then (header_decode (header_encode h @ status_write_into (flags_byte_order (h_flags h)) s @ rest))
     (\<lambda>(h', bs). and_then (status_decode (flags_byte_order (h_flags h')) bs) (\<lambda>(s', r). Inr (h', s', r))) =
     Inr (h, s, rest)"
  using header_wire.dec_enc [OF assms(1)] status_wire.dec_enc [OF assms(2)]
  by (simp add: header_encode_write_into)

theorem control_plane_roundtrip_witness:
  "and_then (header_decode (header_encode (header_application True Big 1 0) @
      status_write_into Big (status_error [0x6E, 0x6F]) @ [3]))
     (\<lambda>(h', bs). and_then (status_decode (flags_byte_order (h_flags h')) bs) (\<lambda>(s', r). Inr (h', s', r))) =
     Inr (header_application True Big 1 0, status_error [0x6E, 0x6F], [3])"
proof -
  have "h_version (header_application True Big 1 0) \<noteq> 0"
    "flags_byte_order (h_flags (header_application True Big 1 0)) = Big"
    "wire_status (status_error [0x6E, 0x6F])"
    by (simp_all add: header_application_def PVA_VERSION_def header_flags_new_bits status_error_def
        wire_string_def utf8_valid_ascii)
  with control_plane_roundtrip [of "header_application True Big 1 0" "status_error [0x6E, 0x6F]" "[3]"]
  show ?thesis by simp
qed

section \<open>pvAccess: values\<close>

text \<open>
  C12: Whatever bytes follow, in a connection that has read any number of
  descriptors from any bytes, a value the decoder returns for a descriptor has
  that descriptor's type (scalar and array types, member names and order,
  union selectors and names, the types carried by variants, all the way down),
  nests no deeper than \<^verbatim>\<open>MAX_FIELD_DEPTH\<close>, and the unread input is a
  suffix of what was given.
\<close>

theorem value_decoder_typed:
  "case fst (decode_value_at hb ord depth d (snd (decode_descs ord n Map.empty bs0)) bs) of
     Inl _ \<Rightarrow> True
   | Inr (v, rest) \<Rightarrow>
       has_type d v \<and> depth + value_depth v \<le> MAX_FIELD_DEPTH \<and> suffix rest bs"
proof -
  have "cache_ok (snd (decode_descs ord n Map.empty bs0))"
    using decode_descs_ok [of Map.empty n bs0 ord] by (simp add: cache_ok_def st_ok_def)
  from decodes_atD [OF decode_value_ok this, where d = d and bs = bs and hb = hb and ord = ord and depth = depth] show ?thesis
    by (auto simp: st_ok_def split: sum.split)
qed

text \<open>
  C13: A value of its descriptor's type whose lengths fit the wire, whose nesting
  is at most \<^verbatim>\<open>MAX_FIELD_DEPTH\<close> and whose descriptor has at most
  \<^verbatim>\<open>MAX_FIELD_NODES\<close> nodes decodes to itself, structures, arrays, unions and self-describing variants included, on
  any host byte order and from any state of the type cache; the cache and the
  following bytes are left alone.
\<close>

theorem value_roundtrip:
  assumes "has_type d v" "value_wire v" "desc_nodes d \<le> MAX_FIELD_NODES" "value_depth v \<le> MAX_FIELD_DEPTH"
  shows "decode_pv_field_cached hb ord d cache (encode_pv_field cv hb' ord v d @ rest) = (Inr (v, rest), cache)"
  using recoveredD [OF value_recovered [OF assms(2)] assms(1,3), of 0 hb ord cache cv hb' rest] assms(4)
  by (simp add: decode_pv_field_cached_def)

definition union_desc :: field_desc where
  "union_desc = Structure [0x74] (struct_fields_from
     [([0x75], Union [] [([0x61], Scalar TInt), ([0x62], Scalar TString)]), ([0x76], Variant)])"

definition union_value :: pv_field where
  "union_value = PStructure (PvStructure [0x74]
     [([0x75], PUnion 1 [0x62] (PScalar (VString [0x68]))),
      ([0x76], PVariant (VariantValue (Some (Scalar TDouble)) (PScalar (VDouble 7))))])"

lemma union_typed: "has_type union_desc union_value"
  by (simp add: union_desc_def union_value_def struct_fields_from_def has_type_compound members_typed_def
      union_index_def desc_bounded_def MAX_FIELD_NODES_def)

lemma union_postable: "postable union_desc union_value"
proof -
  have "value_depth (PUnion 1 [0x62] (PScalar (VString [0x68]))) = 1"
    using value_depth_PUnion [of desc_bounded "Scalar TString"] by simp
  then have "value_depth union_value \<le> MAX_FIELD_DEPTH"
    using value_depth_PStructure [of 0]
    by (simp add: union_value_def value_depth_PVariant MAX_FIELD_DEPTH_def)
  moreover have "value_wire union_value"
    by (simp add: union_value_def value_wire_unfold inlineable_def MAX_FIELD_NODES_def)
  moreover have "wf_desc union_desc \<and> desc_nodes union_desc \<le> MAX_FIELD_NODES"
    by (simp add: union_desc_def struct_fields_from_def MAX_FIELD_NODES_def)
  ultimately show ?thesis using union_typed by (simp add: postable_def)
qed

theorem value_roundtrip_witness:
  "\<forall>cv. decode_pv_field_cached False Big union_desc Map.empty
     (encode_pv_field cv True Big union_value union_desc @ [9]) = (Inr (union_value, [9]), Map.empty)"
  using value_roundtrip [of union_desc union_value] union_postable by (simp add: postable_def)

text \<open>
  C14: The encoder is driven by the descriptor: whatever value it is given, of
  whatever shape, the bytes it writes are those of some value that has the
  descriptor's type.
\<close>

theorem encoder_descriptor_driven:
  "\<exists>w. typed (\<lambda>_. True) d w \<and> encode_pv_field cv hb ord v d = encode_pv_field cv hb ord w d"
  using encode_realised [of cv hb ord d v] unfolding realised_def .

text \<open>
  C15: The three readers of a partial value agree. The in-place decoder of the
  server's write path, the client's decode-and-fill over its previous value and
  the checked merge into a stored value all give the sent value where the mask
  marks it (a marked structure marks all below it) and the previous value
  elsewhere, and none reports an error.
\<close>

theorem receivers_agree:
  assumes "postable d v" "has_type d prior" "distinct_names d"
  shows "decode_with_bitset_into hb ord prior d bits 0 cache
      (encode_pv_field_with_bitset cv hb' ord v d bits 0 @ rest) =
        (Inr rest, overlay d bits 0 v prior, cache) \<and>
    (\<exists>w. decode_with_bitset_cached hb ord d bits 0 cache
        (encode_pv_field_with_bitset cv hb' ord v d bits 0 @ rest) = (Inr (w, rest), cache) \<and>
      fill_unmarked_from_prior d bits 0 w prior = overlay d bits 0 v prior) \<and>
    apply_marked_delta d bits 0 v prior = (Inr (), overlay d bits 0 v prior)"
proof (intro conjI)
  have s: "shaped d v" "shaped d prior" "has_type d v"
    using assms typed_shaped(1) by (auto simp: postable_def)
  show "decode_with_bitset_into hb ord prior d bits 0 cache
      (encode_pv_field_with_bitset cv hb' ord v d bits 0 @ rest) =
        (Inr rest, overlay d bits 0 v prior, cache)"
    by (rule decode_into_encode(1) [OF assms(1) s(2)])
  show "\<exists>w. decode_with_bitset_cached hb ord d bits 0 cache
        (encode_pv_field_with_bitset cv hb' ord v d bits 0 @ rest) = (Inr (w, rest), cache) \<and>
      fill_unmarked_from_prior d bits 0 w prior = overlay d bits 0 v prior"
    using fill_overlay(1) [OF overlay_shaped(1) [OF s(1) default_shaped(1)] s(2) assms(3)]
    by (simp add: decode_encode_marked(1) [OF assms(1)] overlay_overlay(1) [OF s(1) default_shaped(1)])
  show "apply_marked_delta d bits 0 v prior = (Inr (), overlay d bits 0 v prior)"
    by (rule apply_delta_overlay [OF s(3) assms(3) s(2)])
qed

definition union_prior :: pv_field where
  "union_prior = PStructure (PvStructure [0x74]
     [([0x75], PUnion 0 [0x61] (PScalar (VInt 3))), ([0x76], PVariant (VariantValue None PNull))])"

theorem receivers_agree_witness:
  "apply_marked_delta union_desc (bitset_set bitset_new 1) 0 union_value union_prior =
     (Inr (), PStructure (PvStructure [0x74]
       [([0x75], PUnion 1 [0x62] (PScalar (VString [0x68]))), ([0x76], PVariant (VariantValue None PNull))]))"
proof -
  have "has_type union_desc union_prior"
    by (simp add: union_desc_def union_prior_def struct_fields_from_def has_type_compound members_typed_def
        union_index_def)
  moreover have "distinct_names union_desc" by (simp add: union_desc_def struct_fields_from_def)
  ultimately have "apply_marked_delta union_desc (bitset_set bitset_new 1) 0 union_value union_prior =
      (Inr (), overlay union_desc (bitset_set bitset_new 1) 0 union_value union_prior)"
    using receivers_agree [OF union_postable] by blast
  then show ?thesis
    by (simp add: union_desc_def struct_fields_from_def overlay_Structure overlay_leaf union_value_def
        union_prior_def bs.get_set bs.get_new)
qed

section \<open>pvAccess: messages and subscriptions\<close>

text \<open>
  C16: Reassembly inverts segmentation. When the receiver can grow its buffer up
  to the cap, any messages within the cap, each sent whole or cut into first,
  middle and last segments at arbitrary places, empty pieces included, come out
  of the assembler unchanged, header and payload, and in order, and leave it
  idle.
\<close>

theorem segments_reassembled:
  assumes "\<forall>a b. a + b \<le> c \<longrightarrow> g a b" "c \<le> usize_max" "list_all (\<lambda>(m, ps). cut_of c m ps) ms"
  shows "\<exists>sa. \<not> sa_expect sa \<and> sa_buf sa = [] \<and>
    segment_run g (Some c) segment_assembler_default (concat (map (\<lambda>(m, ps). message_frames m ps) ms)) =
      (Inr (map fst ms), sa)"
  using assms by (intro segments_run) (simp_all add: segment_assembler_default_def)

theorem segments_reassembled_witness:
  "fst (segment_run (\<lambda>_ _. True) (Some 10) segment_assembler_default
     (message_frames (app_frame True Big Monitor [1, 2, 3, 4]) [[1, 2], [], [3], [4]] @
      message_frames (app_frame False Little Message [5]) [[5]])) =
   Inr [app_frame True Big Monitor [1, 2, 3, 4], app_frame False Little Message [5]]"
proof -
  have "cut_of 10 (app_frame True Big Monitor [1, 2, 3, 4]) [[1, 2], [], [3], [4]]"
    "cut_of 10 (app_frame False Little Message [5]) [[5]]"
    by code_simp+
  moreover have "10 \<le> usize_max" by (simp add: usize_max_def)
  ultimately show ?thesis
    using segments_reassembled [of 10 "\<lambda>_ _. True" "[(app_frame True Big Monitor [1, 2, 3, 4], [[1, 2], [], [3], [4]]),
      (app_frame False Little Message [5], [[5]])]"] by auto
qed

text \<open>
  C17: A slow consumer loses intermediate values and nothing else. The server's
  update frames, parsed and queued by the client in any interleaving with the
  loop that takes and applies them, squashed whenever the backlog is full, leave
  the subscriber, once the backlog is drained, with the value that applying every
  update in order gives; a pop per update is enough to drain it, and without
  flow control the backlog never exceeds its limit.
\<close>

theorem subscription_lossless:
  assumes "distinct_names d" "list_all (post_sendable cv hs d) (posts_of ops)" "dr_prior s = None"
    and "length (posts_of ops) \<le> n"
  shows "case foldl (client_step cv hs hb d flow) (backlog_arm (backlog_new limit pipeline) d, s)
      (ops @ replicate n Drain) of (b', s') \<Rightarrow>
    bl_q b' = [] \<and>
    dr_prior s' = (if posts_of ops = [] then None else Some (effect d (posts_of ops))) \<and>
    (pipeline \<or> bl_max_queue b' \<le> max limit 1)"
  by (rule subscription_delivers [OF assms])

definition pair_desc :: field_desc where
  "pair_desc = Structure [] (struct_fields_from [([0x61], Scalar TInt), ([0x62], Scalar TInt)])"

definition pair_value :: "32 word \<Rightarrow> 32 word \<Rightarrow> pv_field" where
  "pair_value a b = PStructure (PvStructure [] [([0x61], PScalar (VInt a)), ([0x62], PScalar (VInt b))])"

definition pair_post :: "nat \<Rightarrow> 32 word \<Rightarrow> 32 word \<Rightarrow> post" where
  "pair_post i a b =
     \<lparr> po_ioid = 7, po_order = Big, po_changed = bitset_set bitset_new i, po_value = pair_value a b, po_ticket = 0 \<rparr>"

lemma pair_postable: "postable pair_desc (pair_value a b)"
  using value_depth_PStructure [of 0]
  by (simp add: postable_def pair_desc_def pair_value_def struct_fields_from_def has_type_compound members_typed_def
      value_wire_unfold MAX_FIELD_DEPTH_def MAX_FIELD_NODES_def)

lemma pair_masks:
  "bitset_write_into Big (bitset_set bitset_new 1) = [1, 2]" "bitset_write_into Big (bitset_set bitset_new 2) = [1, 4]"
  "bitset_write_into Big bitset_new = [0]"
  by code_simp+

lemma int_wire: "encode_pv_field cv hs Big (PScalar (VInt a)) (Scalar TInt) = put_i32 a Big"
  by (subst encode_pv_field.simps) simp

lemma pair_wire:
  assumes "i \<noteq> 0"
  shows "length (encode_pv_field_with_bitset cv hs Big (pair_value a b) pair_desc (bitset_set bitset_new i) 0) \<le> 8"
  using assms
  by (simp add: encode_pv_field_with_bitset_def encode_marked_Structure encode_marked_leaf pair_desc_def pair_value_def
      struct_fields_from_def Let_def member_at_def wire_length bs.get_set bs.get_new int_wire put_i32_def)

lemma pair_sendable:
  assumes "i = 1 \<or> i = 2"
  shows "post_sendable cv hs pair_desc (pair_post i a b)"
proof -
  have "length (bitset_write_into Big (bitset_set bitset_new i)) = 2" using assms pair_masks by auto
  moreover have "i \<noteq> 0" using assms by auto
  note pair_wire [OF this, of cv hs a b]
  ultimately have "length (post_bytes cv hs pair_desc (pair_post i a b)) < 100"
    by (simp add: post_bytes_def pair_post_def build_monitor_payload_def Let_def header_encode_write_into wire_length
        pair_masks(3))
  moreover have "short_set (bitset_set bitset_new i)" using assms by (auto simp: short_set_def bitset_set_def bitset_new_def Let_def)
  ultimately show ?thesis using pair_postable by (simp add: post_sendable_def pair_post_def)
qed

theorem subscription_lossless_witness:
  "\<forall>cv flow s. dr_prior
     (snd (foldl (client_step cv True False pair_desc flow) (backlog_arm (backlog_new 1 False) pair_desc, s \<lparr> dr_prior := None \<rparr>)
       ([Arrive (pair_post 1 5 6), Arrive (pair_post 2 7 8)] @ [Drain, Drain]))) = Some (pair_value 5 8)"
proof (intro allI)
  fix cv flow and s :: drain_state
  let ?ops = "[Arrive (pair_post 1 5 6), Arrive (pair_post 2 7 8)]"
  have "distinct_names pair_desc" by (simp add: pair_desc_def struct_fields_from_def)
  moreover have "list_all (post_sendable cv True pair_desc) (posts_of ?ops)" by (simp add: pair_sendable)
  moreover have "effect pair_desc (posts_of ?ops) = pair_value 5 8"
    by (simp add: effect_def play_def pair_post_def pair_value_def pair_desc_def struct_fields_from_def
        overlay_Structure overlay_leaf default_value_for.simps bs.get_set bs.get_new)
  moreover have "replicate 2 Drain = [Drain, Drain]" by (simp add: numeral_2_eq_2)
  ultimately show "dr_prior (snd (foldl (client_step cv True False pair_desc flow)
      (backlog_arm (backlog_new 1 False) pair_desc, s \<lparr> dr_prior := None \<rparr>) (?ops @ [Drain, Drain]))) = Some (pair_value 5 8)"
    using subscription_lossless [where d = pair_desc and cv = cv and hs = True and ops = ?ops
        and s = "s \<lparr> dr_prior := None \<rparr>" and n = 2 and hb = False and flow = flow and limit = 1 and pipeline = False]
    by (auto split: prod.splits)
qed

text \<open>
  C18: Squashing never touches a control frame. However pushes and pops are
  interleaved and whatever the frames hold, the frames that are not plain updates
  (FINISH, errors, responses) come out in the order they came in, none lost or
  repeated, and every pushed frame is delivered, still queued, or counted as
  squashed.
\<close>

theorem control_frames_survive:
  "case foldl (backlog_step cv hb) (backlog_arm (backlog_new limit pipeline) d, []) ops of (b, got) \<Rightarrow>
     control_frames (got @ map fst (bl_q b)) = control_frames (pushed ops) \<and>
     length got + length (bl_q b) + bl_n_squash b = length (pushed ops)"
  using backlog_run_frames [where b = "backlog_arm (backlog_new limit pipeline) d" and got = "[]"]
  by (simp add: backlog_arm_def backlog_new_def control_frames_def)

text \<open>
  C19: The server decides once which fields an update carries. In every state of a
  subscription's queue, the changed set stored with a pending update, cached per
  shared mark set and merged bit by bit when updates squash, is the one computed
  from the update's own marks under the request mask; and a new update is dropped
  exactly when it is not the first, not the end of the type and that set is empty.
  Pushing never panics.
\<close>

theorem queue_gate_is_wire:
  assumes "queue_run q" "arc_ok q ev" "same_alloc same"
  shows "(\<forall>e \<in> set (mq_pending q). \<not> mu_type_changed (qu_update e) \<longrightarrow>
      (\<forall>i. bitset_get (qu_changed e) i \<longleftrightarrow>
        bitset_get (read_changed_bitset (mq_intro q) (mq_mask q)
          (map_option marks_paths (mu_marked (qu_update e)))) i)) \<and>
    (\<exists>q'. monitor_queue_push same q ev =
      Some (mq_first q \<or> mu_type_changed ev \<or>
        (\<exists>i. bitset_get (read_changed_bitset (mq_intro q) (mq_mask q) (map_option marks_paths (mu_marked ev))) i), q'))"
proof -
  note ok = queue_run_ok [OF assms(1)]
  obtain q' where "monitor_queue_push same q ev =
      Some (mq_first q \<or> mu_type_changed ev \<or> (\<exists>i. bitset_get (wire_of q ev) i), q')"
    by (rule queue_push [OF ok assms(2,3)])
  moreover have "\<forall>e \<in> set (mq_pending q). entry_ok q e" using ok by (simp add: queue_ok_def)
  ultimately show ?thesis by (auto simp: entry_ok_def wire_of_def)
qed

definition gate_event :: "byte \<Rightarrow> monitor_update" where
  "gate_event name = \<lparr> mu_value = pair_value 1 2, mu_marked = Some (MShared (unat name) [[name]]),
     mu_type_changed = False, mu_overrun = [] \<rparr>"

theorem queue_gate_is_wire_witness:
  "\<exists>q q'. monitor_queue_push (\<lambda>_ _. False)
      (monitor_queue_new 1 pair_desc (bitset_set bitset_new 1) \<lparr> ms_max_queue = 0, ms_n_squash = 0 \<rparr>) (gate_event 0x61) =
        Some (True, q) \<and> monitor_queue_push (\<lambda>_ _. False) q (gate_event 0x62) = Some (False, q')"
proof -
  let ?q = "monitor_queue_new 1 pair_desc (bitset_set bitset_new 1) \<lparr> ms_max_queue = 0, ms_n_squash = 0 \<rparr>"
  let ?s = "\<lambda>_ _. False"
  define r where "r = monitor_queue_push ?s ?q (gate_event 0x61)"
  define q where "q = snd (the r)"
  have r: "r = Some (True, q)" "mq_first q = False" "mq_intro q = pair_desc" "mq_mask q = bitset_set bitset_new 1"
    "map fst (mq_shared_changed q) = [MShared 0x61 [[0x61]]]"
    "map (\<lambda>e. mu_marked (qu_update e)) (mq_pending q) = [Some (MShared 0x61 [[0x61]])]"
    unfolding q_def r_def by code_simp+
  have same: "same_alloc ?s" by (simp add: same_alloc_def)
  have "arc_ok ?q (gate_event 0x61)" by (simp add: arc_ok_def queue_marks_def monitor_queue_new_def)
  then have run: "queue_run q"
    using queue_run.push [OF queue_run.start _ same] r(1) unfolding r_def by blast
  have "arc_ok q (gate_event 0x62)"
    using r(5,6) by (auto simp: arc_ok_def queue_marks_def gate_event_def)
  from queue_gate_is_wire [OF run this same]
  obtain q' where "monitor_queue_push ?s q (gate_event 0x62) =
      Some (\<exists>i. bitset_get (read_changed_bitset pair_desc (bitset_set bitset_new 1) (Some [[0x62]])) i, q')"
    using r(2-4) by (auto simp: gate_event_def)
  moreover have "bitset_is_empty (read_changed_bitset pair_desc (bitset_set bitset_new 1) (Some [[0x62]]))"
    by code_simp
  ultimately show ?thesis using r(1) unfolding r_def is_empty_iff by auto
qed

text \<open>
  C20: Deliveries leave in the order their frames arrived. Whatever deliveries are
  issued, polled and dropped, a poll by one that is alive never panics and says
  ready exactly when no older one is alive; a point in the stream is reached
  exactly when everything issued before it is gone; and whoever is parked has an
  older delivery alive to wake it.
\<close>

theorem deliveries_in_order:
  assumes "fence_run t live parked" "seq \<in> live"
  shows "(\<exists>t'. turn_poll seq w t = Some (\<forall>s \<in> live. seq \<le> s, t')) \<and>
    (\<forall>n. point_reached (Some n) t \<longleftrightarrow> (\<forall>s \<in> live. n \<le> s)) \<and>
    (\<forall>s w. parked s = Some w \<longrightarrow> (\<exists>s' \<in> live. s' < s))"
  using fence_waiters [OF assms(1)] assms(2) by blast

theorem deliveries_in_order_witness:
  "\<exists>t'. turn_poll 1 9 (snd (fence_issue (snd (fence_issue fence_new)))) = Some (False, t')"
proof -
  have "fence_run (snd (fence_issue (snd (fence_issue fence_new)))) (insert 1 (insert 0 {})) Map.empty"
    by (rule fence_run.issue, rule fence_run.issue, rule fence_run.start) code_simp+
  from deliveries_in_order [OF this, of 1 9] show ?thesis by auto
qed

section \<open>Channel Access: message headers\<close>

text \<open>
  C21: A Channel Access header filled by \<^verbatim>\<open>set_payload_size\<close> announces
  exactly the requested size and count, is written in the short or the extended
  form, and is read back unchanged with the number of bytes it occupies.
\<close>

theorem ca_header_roundtrip:
  assumes "set_payload_size h sz cnt minor = Some h'" "sz < 2 ^ 32"
  shows "actual_postsize h' = sz \<and> actual_count h' = cnt \<and>
    ca_from_bytes_extended (ca_to_bytes_extended h' @ rest) =
      Inr (h', if is_extended h' then 24 else 16)"
  using set_payload_size_spec [OF assms]
  by (simp add: ca_from_bytes_extended_roundtrip length_ca_to_bytes_extended)

theorem ca_header_roundtrip_witness:
  "\<exists>h'. set_payload_size (ca_header_new 15) 70000 3 13 = Some h' \<and> actual_postsize h' = 70000 \<and>
     ca_from_bytes_extended (ca_to_bytes_extended h' @ [1]) = Inr (h', if is_extended h' then 24 else 16)"
proof -
  have "set_payload_size (ca_header_new 15) 70000 3 13 \<noteq> None"
    by (simp add: set_payload_size_def ca_v49_def)
  then obtain h' where "set_payload_size (ca_header_new 15) 70000 3 13 = Some h'" by blast
  with ca_header_roundtrip [OF this, of "[1]"] show ?thesis by simp
qed

section \<open>Channel Access: the server's receive path\<close>

text \<open>
  C22: However TCP cuts the client's bytes into reads of at most 64 KiB, and whenever
  they arrive, the receive loop of the blocking server, with rate limiting off, emits
  the gates that a scan of the whole stream with the abstract gate function gives, in
  the same order (log message numbers apart).  It ends in an accumulator holding
  exactly the undecided tail of the stream, or ended exactly when the scan does: at
  the first gate that closes the circuit or the first message whose handler fails.
\<close>

theorem recv_stream_refinement:
  assumes "ceiling + 24 + 64 * 1024 < usize_max" "rate_limit_build cfg = None"
    "list_all (\<lambda>(_, chunk). length chunk \<le> 64 * 1024) reads"
  shows "\<exists>gs r. serve_reads minor dispatch (Some (s, with_rate_limit ceiling cfg)) reads = Some (gs, r) \<and>
    map erase_mnum gs =
      fst (scan (\<lambda>s. ca_gate ceiling (minor s)) (ends dispatch) (after_gate dispatch) s (concat (map snd reads))) \<and>
    represents ceiling r
      (snd (scan (\<lambda>s. ca_gate ceiling (minor s)) (ends dispatch) (after_gate dispatch) s (concat (map snd reads))))"
  using assms by (rule serve_stream)

definition echo_reads :: "((nat \<Rightarrow> nat) \<times> byte list) list" where
  "echo_reads =
     [(\<lambda>k. k, [0, 0x17, 0]), (\<lambda>k. 1000000 + k, [0, 0, 0, 0, 0, 0, 0, 0, 0, 0, 0, 0, 0, 0, 0x17])]"

definition one_message :: "nat \<Rightarrow> ca_header \<Rightarrow> byte list \<Rightarrow> nat option" where
  "one_message s hdr payload = (if s = 0 then Some 1 else None)"

theorem recv_stream_refinement_witness:
  "\<exists>gs r. serve_reads (\<lambda>_. 13) one_message (Some (0, with_rate_limit 16384
      \<lparr> cfg_msgs_per_sec = 0, cfg_burst = 0, cfg_strike_threshold = 100 \<rparr>)) echo_reads = Some (gs, r) \<and>
    map erase_mnum gs =
      fst (scan (\<lambda>s. ca_gate 16384 13) (ends one_message) (after_gate one_message) 0 (concat (map snd echo_reads))) \<and>
    represents 16384 r
      (snd (scan (\<lambda>s. ca_gate 16384 13) (ends one_message) (after_gate one_message) 0 (concat (map snd echo_reads))))"
  by (rule recv_stream_refinement [where minor = "\<lambda>_. 13"])
    (simp_all add: usize_max_def rate_limit_build_def echo_reads_def)

text \<open>
  C23: Whatever a client sends, in whatever reads at whatever times, and whatever the
  handlers and the rate limit do, the receive loop never panics and the buffer of a
  circuit that is still open never exceeds the frame ceiling plus one extended header
  and one read, for every setting of the two environment variables that size it.
\<close>

theorem recv_buffer_bounded:
  assumes "max_bytes < 2 ^ 63"
  shows "\<exists>gs r. serve_reads minor dispatch
        (Some (s, with_rate_limit (max_frame_body_bytes env max_bytes) cfg)) reads = Some (gs, r) \<and>
    (case r of
       None \<Rightarrow> True
     | Some (s', acc) \<Rightarrow> ra_offset acc \<le> length (ra_buf acc) \<and>
         length (ra_buf acc) \<le> max_frame_body_bytes env max_bytes + 24 + 64 * 1024)"
proof -
  let ?acc = "with_rate_limit (max_frame_body_bytes env max_bytes) cfg"
  have "recv_ok ?acc"
    using frame_ceiling_small [OF assms, of env] by (simp add: recv_ok_def with_rate_limit_def)
  from serve_reads_ok [OF this, of minor dispatch s reads]
  have ok: "pass_ok (max_frame_body_bytes env max_bytes) (serve_reads minor dispatch (Some (s, ?acc)) reads)"
    by (simp add: with_rate_limit_def)
  then obtain gs r where "serve_reads minor dispatch (Some (s, ?acc)) reads = Some (gs, r)"
    by (cases "serve_reads minor dispatch (Some (s, ?acc)) reads") (auto simp: pass_ok_def)
  with ok show ?thesis by (auto simp: pass_ok_def recv_ok_def split: option.splits)
qed

theorem recv_buffer_bounded_witness:
  "\<exists>gs r. serve_reads (\<lambda>_. 13) one_message (Some (0, with_rate_limit
      (max_frame_body_bytes (Some False) 0x4000)
      \<lparr> cfg_msgs_per_sec = 1, cfg_burst = 1, cfg_strike_threshold = 1 \<rparr>)) echo_reads = Some (gs, r) \<and>
    (case r of
       None \<Rightarrow> True
     | Some (s', acc) \<Rightarrow> ra_offset acc \<le> length (ra_buf acc) \<and>
         length (ra_buf acc) \<le> max_frame_body_bytes (Some False) 0x4000 + 24 + 64 * 1024)"
  by (rule recv_buffer_bounded) simp

text \<open>
  C24: A client's write frame passes the server's gates: the bytes
  \<^verbatim>\<open>build_put_frame\<close> produces are delivered as one message that carries the
  command, server id, type, count and request id asked for and the payload padded to
  eight bytes, and exactly the frame is taken from the stream.  This holds for a legal
  command, a payload below 2 GiB whose padded size is within the server's ceiling,
  and a server that knows the client's minor version as one with extended headers.
\<close>

theorem put_frame_delivered:
  assumes "build_put_frame cmd sid dtype cnt ioid payload peer_minor = Inr frame"
    and "put_body dtype cnt payload = Inr body"
    and "length payload < 2 ^ 31" "align8 (length body) \<le> ceiling"
    and "ca_v49 minor" "is_legal_tcp_command cmd"
  shows "\<exists>hdr. ca_gate ceiling minor (frame @ rest) =
      Some (Deliver hdr (resize0 (align8 (length body)) body), length frame) \<and>
    cmmd hdr = cmd \<and> cid hdr = sid \<and> data_type hdr = dtype \<and> actual_count hdr = cnt \<and>
    available hdr = (case ioid of None \<Rightarrow> 0 | Some i \<Rightarrow> i)"
  using assms by (rule put_frame_gate)

theorem put_frame_delivered_witness:
  "\<exists>frame. build_put_frame CA_PROTO_WRITE 7 0 1 None [0x6F, 0x6E, 0] 13 = Inr frame \<and>
    (\<exists>hdr. ca_gate 16384 13 (frame @ [9]) =
       Some (Deliver hdr (resize0 (align8 3) [0x6F, 0x6E, 0]), length frame) \<and>
     cmmd hdr = CA_PROTO_WRITE \<and> cid hdr = 7 \<and> data_type hdr = 0 \<and> actual_count hdr = 1 \<and> available hdr = 0)"
proof -
  have body: "put_body 0 1 [0x6F, 0x6E, 0] = Inr [0x6F, 0x6E, 0]"
    by (simp add: put_body_def scalar_string_put_len_def MAX_STRING_SIZE_def)
  have a8: "align8 3 = 8" by (simp add: align8_def sat_add_def usize_max_def)
  have legal: "ca_v49 13" "is_legal_tcp_command CA_PROTO_WRITE" by code_simp+
  have "\<exists>frame. build_put_frame CA_PROTO_WRITE 7 0 1 None [0x6F, 0x6E, 0] 13 = Inr frame"
    using body a8 legal(1)
    by (simp add: build_put_frame_def put_body_def resize0_def set_payload_size_def Let_def numeral_3_eq_3)
  then obtain frame where frame: "build_put_frame CA_PROTO_WRITE 7 0 1 None [0x6F, 0x6E, 0] 13 = Inr frame" by blast
  from put_frame_delivered [OF frame body _ _ legal, of 16384 "[9]"] frame a8 show ?thesis
    by (auto simp: numeral_3_eq_3)
qed

text \<open>
  C25: A scalar string of 8, 16, 24 or 32 characters and no terminator is sent without
  one: the body of the frame is the bare characters, although the length that
  \<^verbatim>\<open>scalar_string_put_len\<close> computes counts a terminator.
\<close>

theorem unterminated_string_frame:
  assumes "0 \<notin> set payload" "length payload < MAX_STRING_SIZE" "length payload mod 8 = 0"
    and "build_put_frame cmd sid 0 1 ioid payload peer_minor = Inr frame"
  shows "scalar_string_put_len payload = Inr (length payload + 1) \<and>
    (\<exists>hdr. frame = ca_to_bytes_extended hdr @ payload \<and> actual_postsize hdr = length payload)"
proof -
  have nul: "find_nul (take MAX_STRING_SIZE payload) = None"
    using assms(1) by (simp add: find_nul_None) (meson in_set_takeD)
  obtain hdr body where "put_body 0 1 payload = Inr body"
    "frame = ca_to_bytes_extended hdr @ resize0 (align8 (length body)) body"
    "actual_postsize hdr = align8 (length body)"
    by (rule build_put_frame_parts [OF assms(4)]) (use assms(2) in \<open>simp add: MAX_STRING_SIZE_def\<close>)
  moreover have "align8 (length payload) = length payload"
    using assms(2,3) align8_spec [of "length payload"] by (simp add: usize_max_def MAX_STRING_SIZE_def) presburger
  ultimately show ?thesis
    using unterminated_put_body [OF assms(1,2,3)] nul assms(2) by (auto simp: scalar_string_put_len_def)
qed

theorem unterminated_string_frame_witness:
  "\<exists>frame hdr. build_put_frame CA_PROTO_WRITE 7 0 1 None (replicate 8 0x61) 13 = Inr frame \<and>
    frame = ca_to_bytes_extended hdr @ replicate 8 0x61 \<and> actual_postsize hdr = 8 \<and>
    scalar_string_put_len (replicate 8 0x61) = Inr 9"
proof -
  have pre: "0 \<notin> set (replicate 8 (0x61 :: byte))" "length (replicate 8 (0x61 :: byte)) < MAX_STRING_SIZE"
    "length (replicate 8 (0x61 :: byte)) mod 8 = 0" by (simp_all add: MAX_STRING_SIZE_def)
  have v: "ca_v49 13" by code_simp
  have a8: "align8 8 = 8" by (simp add: align8_def sat_add_def usize_max_def)
  have "\<exists>frame. build_put_frame CA_PROTO_WRITE 7 0 1 None (replicate 8 0x61) 13 = Inr frame"
    using unterminated_put_body [OF pre] a8 v
    by (simp add: build_put_frame_def put_body_def set_payload_size_def Let_def)
  then obtain frame where frame: "build_put_frame CA_PROTO_WRITE 7 0 1 None (replicate 8 0x61) 13 = Inr frame" by blast
  from unterminated_string_frame [OF pre frame] frame show ?thesis by auto
qed

text \<open>
  C26: A message refused because its sender speaks too old a protocol is skipped
  without the alignment test: with a body that is not a multiple of eight bytes the
  parse cursor is left off an eight-byte boundary.
\<close>

theorem refused_cursor_misaligned:
  assumes "ra_offset acc = 0" "ra_buf acc = ca_to_bytes h @ body @ rest" "length body = unat (postsize h)"
    and "cmmd h \<noteq> CA_PROTO_VERSION" "minor < CA_MINIMUM_SUPPORTED_VERSION" "length body mod 8 \<noteq> 0"
  shows "\<exists>e acc'. next_message minor now acc = Some (Refuse e, acc') \<and> ge_status e = ECA_DEFUNCT \<and>
    ra_offset acc' = 16 + length body \<and> ra_offset acc' mod 8 \<noteq> 0"
proof -
  let ?h = "h \<lparr> extended_postsize := None, extended_count := None \<rparr>"
  have v: "\<not> ca_v49 minor"
    using assms(5) by (simp add: ca_v49_def CA_MINIMUM_SUPPORTED_VERSION_def word_less_nat_alt word_le_nat_alt)
  then have parsed: "ca_from_bytes_for_peer (drop (ra_offset acc) (ra_buf acc)) minor = Inr (?h, 16)"
    using assms(1,2) by (simp add: ca_from_bytes_for_peer_def ca_from_bytes_to_bytes)
  have post: "actual_postsize ?h = length body" using assms(3) by (simp add: actual_postsize_def)
  have "unat (postsize h) < 65536" by (rule order_less_le_trans [OF unsigned_less]) simp
  then have len: "message_len 16 (actual_postsize ?h) = Some (16 + length body)"
    using assms(3) by (simp add: message_len_def post EXTENDED_EXTRA_def)
  have "next_message minor now acc = Some (Refuse \<lparr> ge_hdr = ?h, ge_status = ECA_DEFUNCT,
      ge_diagnostic = ClientTooOld minor, ge_mnum = ra_nmsg acc \<rparr>, skip_refused (16 + length body) acc)"
    using next_message_framed [OF _ parsed len, of now] assms(1,2,4,5) v by simp
  moreover have "ra_offset (skip_refused (16 + length body) acc) = 16 + length body"
    using assms(1,2) by (simp add: skip_refused_eq)
  moreover have "(16 + length body) mod 8 \<noteq> 0" using assms(6) by presburger
  ultimately show ?thesis by auto
qed

theorem refused_cursor_misaligned_witness:
  "\<exists>e acc'. next_message 3 0 ((with_rate_limit 16384
        \<lparr> cfg_msgs_per_sec = 0, cfg_burst = 0, cfg_strike_threshold = 100 \<rparr>)
        \<lparr> ra_buf := ca_to_bytes ((ca_header_new CA_PROTO_WRITE) \<lparr> postsize := 4 \<rparr>) @ [1, 2, 3, 4] @ [5] \<rparr>) =
      Some (Refuse e, acc') \<and> ge_status e = ECA_DEFUNCT \<and> ra_offset acc' = 20 \<and> ra_offset acc' mod 8 \<noteq> 0"
  using refused_cursor_misaligned [of "(with_rate_limit 16384
        \<lparr> cfg_msgs_per_sec = 0, cfg_burst = 0, cfg_strike_threshold = 100 \<rparr>)
        \<lparr> ra_buf := ca_to_bytes ((ca_header_new CA_PROTO_WRITE) \<lparr> postsize := 4 \<rparr>) @ [1, 2, 3, 4] @ [5] \<rparr>"
      "(ca_header_new CA_PROTO_WRITE) \<lparr> postsize := 4 \<rparr>" "[1, 2, 3, 4]" "[5]" 3 0]
  by (simp add: with_rate_limit_def ca_header_new_def CA_PROTO_WRITE_def CA_PROTO_VERSION_def
      CA_MINIMUM_SUPPORTED_VERSION_def)

text \<open>
  C27: The token bucket bounds the load: however the requests are timed, by a given
  moment (in microseconds) at most the burst plus the rate times the elapsed time of
  them were granted.
\<close>

theorem rate_limit_bound:
  assumes "0 < capacity" "\<forall>t \<in> set ts. t \<le> now"
  shows "1000000 * grants (rate_limiter_new capacity rate) ts \<le> 1000000 * capacity + rate * now"
  using grants_bound [OF bucket_ok_new, of capacity rate now ts] assms
  by (simp add: rate_limiter_new_def rate_enabled_def)

theorem rate_limit_bound_witness:
  "1000000 * grants (rate_limiter_new 3 2) [5, 7, 7, 100, 600000] \<le> (1000000 :: nat) * 3 + 2 * 1000000"
  by (rule rate_limit_bound) simp_all

section \<open>Modbus\<close>

text \<open>
  C28: On every link (TCP, RTU, ASCII, UDP) the response unwrapper inverts the request
  framer: it returns the bytes after the slave address with the transaction id that
  was assigned, so checksum, hex and header fields all agree.
\<close>

theorem modbus_frame_roundtrip:
  assumes "frame_request l pdu counter = (Inr fr, counter')" "2 \<le> length pdu"
  shows "unwrap_response l (fr_bytes fr) =
    Inr \<lparr> ur_pdu = tl pdu, ur_transaction_id = fr_transaction_id fr \<rparr>"
  using assms by (rule frame_unwrap)

theorem modbus_frame_roundtrip_witness:
  "\<exists>fr counter'. frame_request Ascii (pdu_read 1 ReadHoldingRegisters 0x10 2) 7 = (Inr fr, counter') \<and>
    unwrap_response Ascii (fr_bytes fr) = Inr \<lparr> ur_pdu = [3, 0, 0x10, 0, 2], ur_transaction_id = fr_transaction_id fr \<rparr>"
proof -
  have pdu: "pdu_read 1 ReadHoldingRegisters 0x10 2 = [1, 3, 0, 0x10, 0, 2]" by code_simp
  have "fst (frame_request Ascii [1, 3, 0, 0x10, 0, 2] 7) =
      Inr \<lparr> fr_bytes = [0x3A, 0x30, 0x31, 0x30, 0x33, 0x30, 0x30, 0x31, 0x30, 0x30, 0x30, 0x30, 0x32, 0x45, 0x41],
            fr_transaction_id = None \<rparr>" by code_simp
  then obtain fr counter' where fr: "frame_request Ascii [1, 3, 0, 0x10, 0, 2] 7 = (Inr fr, counter')"
    by (cases "frame_request Ascii [1, 3, 0, 0x10, 0, 2] 7") auto
  with modbus_frame_roundtrip [OF fr] show ?thesis unfolding pdu by auto
qed

text \<open>
  C29: The RTU checksum detects every error confined to two adjacent bytes: if a frame
  is accepted, no frame that differs from it in exactly such a window is.
\<close>

theorem rtu_burst_detected:
  assumes "unwrap_response Rtu (u @ [a, b] @ v) = Inr r" "(a, b) \<noteq> (a', b')"
  shows "unwrap_response Rtu (u @ [a', b'] @ v) = Inl CrcError"
  using assms by (rule rtu_corruption)

theorem rtu_burst_detected_witness:
  "\<exists>lo hi. unwrap_response Rtu ([1] @ [3, 2] @ [0x12, 0x34, lo, hi]) =
      Inr \<lparr> ur_pdu = [3, 2, 0x12, 0x34], ur_transaction_id = None \<rparr> \<and>
    unwrap_response Rtu ([1] @ [3, 3] @ [0x12, 0x34, lo, hi]) = Inl CrcError"
proof -
  let ?c = "compute_crc [1, 3, 2, 0x12, 0x34]"
  let ?lo = "ucast (?c AND 0xFF) :: byte" and ?hi = "ucast (drop_bit 8 ?c) :: byte"
  have ok: "unwrap_response Rtu ([1] @ [3, 2] @ [0x12, 0x34, ?lo, ?hi]) =
      Inr \<lparr> ur_pdu = [3, 2, 0x12, 0x34], ur_transaction_id = None \<rparr>"
    using crc_residue [of "[1, 3, 2, 0x12, 0x34]"] by (simp add: unwrap_response_def)
  then have "unwrap_response Rtu ([1] @ [3, 3] @ [0x12, 0x34, ?lo, ?hi]) = Inl CrcError"
    by (rule rtu_burst_detected) simp
  with ok show ?thesis by blast
qed

text \<open>
  C30: Reassembly makes progress and is exact: when the bytes of a valid MBAP frame
  arrive in nonempty reads, cut anywhere and possibly followed by more, the reader
  returns that frame after finitely many reads, every read it issued asked for at
  least one byte, and the bytes after the frame are kept.
\<close>

theorem mbap_reassembly:
  assumes "mbap_valid frame" "ma_buf acc @ concat reads = frame @ rest" "[] \<notin> set reads"
  shows "\<exists>asked acc'. read_frame expected acc (map Inr reads) = (Frame frame, asked, acc') \<and>
    list_all (\<lambda>n. 0 < n) asked \<and> length asked \<le> length reads \<and>
    ma_buf acc' @ concat (drop (length asked) reads) = rest"
  using assms by (rule read_frame_exact)

theorem mbap_reassembly_witness:
  "\<exists>asked acc'. read_frame 12 mbap_acc_new (map Inr [[0, 1, 0, 0], [0, 3, 1], [3, 0, 9]]) =
      (Frame [0, 1, 0, 0, 0, 3, 1, 3, 0], asked, acc') \<and>
    list_all (\<lambda>n. 0 < n) asked \<and> length asked \<le> 3 \<and>
    ma_buf acc' @ concat (drop (length asked) [[0, 1, 0, 0], [0, 3, 1], [3, 0, 9]]) = [9]"
proof -
  have "mbap_from_bytes [0, 1, 0, 0, 0, 3, 1, 3, 0] =
        Inr \<lparr> mb_transaction_id = 1, mb_protocol_type = 0, mb_cmd_length = 3 \<rparr>"
    "mbap_frame_len \<lparr> mb_transaction_id = 1, mb_protocol_type = 0, mb_cmd_length = 3 \<rparr> = Inr 9" by code_simp+
  then have "mbap_valid [0, 1, 0, 0, 0, 3, 1, 3, 0]" by (auto simp: mbap_valid_def)
  from mbap_reassembly [OF this, of mbap_acc_new "[[0, 1, 0, 0], [0, 3, 1], [3, 0, 9]]" "[9]" 12]
  show ?thesis by (simp add: mbap_acc_new_def numeral_3_eq_3)
qed

text \<open>
  C31: Every integer in a data type's range is read back from the registers it is
  written to, for the 16-bit forms (two's complement, sign and magnitude, binary
  coded decimal with and without sign) and the 32- and 64-bit forms in all four word
  and byte orders, and exactly the type's number of registers is used.
\<close>

theorem register_roundtrip:
  assumes "in_range dt v"
  shows "\<exists>regs. write_int64 dt v = Inr (Conv regs) \<and> length regs = register_count dt \<and>
    read_int64 dt (regs @ rest) = Inr (Conv (v, register_count dt))"
  using assms by (rule write_read_int64)

theorem register_roundtrip_witness:
  "\<exists>regs. write_int64 DBcdSigned (- 1234) = Inr (Conv regs) \<and> length regs = register_count DBcdSigned \<and>
    read_int64 DBcdSigned (regs @ [5]) = Inr (Conv (- 1234, register_count DBcdSigned))"
  by (rule register_roundtrip) (simp add: in_range_def)

text \<open>
  C32: Splitting a value into up to four registers and combining them are inverse to
  each other in every word and byte order.
\<close>

theorem word_order_inverse:
  assumes "n \<le> 4" "length regs = n"
  shows "combine (split_words v n order bs) order bs = take_bit (16 * n) v \<and>
    split_words (combine regs order bs) n order bs = regs"
  using combine_split [OF assms(1)] split_combine [of regs order bs] assms by simp

theorem word_order_inverse_witness:
  "combine (split_words 0x11223344 2 BigWords True) BigWords True = take_bit (16 * 2) 0x11223344 \<and>
    split_words (combine [1, 2] BigWords True) 2 BigWords True = [1, 2]"
  by (rule word_order_inverse) simp_all

text \<open>
  C33: A string without NUL characters survives the registers of every string type, cut
  only by the number of registers offered to the writer and the number of characters
  asked of the reader; the writer reports exactly the characters it used.
\<close>

theorem string_register_roundtrip:
  assumes "is_string_type dt" "0 \<notin> set s"
  shows "\<exists>regs k. write_string dt s max_regs = Inr (regs, min (length s) (chars_per_reg dt * max_regs)) \<and>
    length regs \<le> max_regs \<and>
    read_string dt regs max_chars = Inr (take max_chars (take (chars_per_reg dt * max_regs) s), k)"
  using string_roundtrip [OF assms, of max_regs max_chars] by metis

theorem string_register_roundtrip_witness:
  "\<exists>regs k. write_string DZStringLowHigh [0x61, 0x62, 0x63] 9 =
      Inr (regs, min (length [0x61 :: byte, 0x62, 0x63]) (chars_per_reg DZStringLowHigh * 9)) \<and>
    length regs \<le> 9 \<and>
    read_string DZStringLowHigh regs 2 = Inr (take 2 (take (chars_per_reg DZStringLowHigh * 9) [0x61, 0x62, 0x63]), k)"
  by (rule string_register_roundtrip) (simp_all add: is_string_type_def)

text \<open>
  C34: The BCD writers accept every 64-bit value but the lowest 21494809: on those the
  subtraction in the digit loop leaves the 64-bit range, which panics in a checked
  build.  Exactly they are affected when the type is unsigned; the signed type escapes
  where the low 16 bits read as a negative number, which it negates first.  Every
  other value is written to one register.
\<close>

theorem bcd_write_overflow:
  assumes "dt = DBcdUnsigned \<or> dt = DBcdSigned" "- (2 ^ 63) \<le> v" "v < 2 ^ 63"
  shows "if v < - (2 ^ 63) + 21494809 \<and> (dt = DBcdUnsigned \<or> 0 \<le> as_i16 v)
    then write_int64 dt v = Inr ConvPanic else \<exists>w. write_int64 dt v = Inr (Conv [w])"
  using bcd_overflow_iff [OF assms(1,2)] by simp

theorem bcd_write_overflow_witness:
  "write_int64 DBcdUnsigned (- 9223372036833281000) = Inr ConvPanic \<and>
    (\<exists>w. write_int64 DBcdUnsigned (- 9223372036833280999) = Inr (Conv [w]))"
  using bcd_write_overflow [of DBcdUnsigned "- 9223372036833281000"]
    bcd_write_overflow [of DBcdUnsigned "- 9223372036833280999"] by simp

section \<open>Modbus: the driver engine\<close>

text \<open>
  C35: A transaction always ends: whatever the link delivers, the engine issues one
  combined write and read, at most 36 further reads and, on UDP only, at most four
  resends; and it answers only with the content of a frame it received that carries
  the request's transaction identifier (or none, on a serial link).
\<close>

theorem transaction_bounded:
  assumes "transact (logged T) l framed txid udp n (t, []) = (r, t', evs)"
  shows "transact T l framed txid udp n t = (r, t') \<and>
    (\<exists>first more. evs = Exchange first # more \<and> rereads more \<le> 36 \<and> resends more \<le> (if udp then 4 else 0) \<and>
      (\<forall>pdu. r = Inr pdu \<longrightarrow>
         (\<exists>raw. matching l txid raw pdu \<and> (first = Inr raw \<or> Reread (Inr raw) \<in> set more))))"
proof -
  have bounds: "UDP_MAX_RETRIES - 1 = 4" "MAX_STALE_FRAMES + 4 = 36"
    by (simp_all add: MAX_STALE_FRAMES_def UDP_MAX_RETRIES_def)
  show ?thesis using transact_spec [OF assms] unfolding bounds .
qed

theorem transaction_bounded_witness:
  "\<exists>r t' evs. transact (logged scripted) Udp [1] (Some 1) True 9 ([], []) = (r, t', evs) \<and>
    transact scripted Udp [1] (Some 1) True 9 [] = (r, t') \<and>
    (\<exists>first more. evs = Exchange first # more \<and> rereads more \<le> 36 \<and> resends more \<le> 4)"
proof -
  obtain r t' evs where tr: "transact (logged scripted) Udp [1] (Some 1) True 9 ([], []) = (r, t', evs)"
    by (metis surj_pair)
  from transaction_bounded [OF tr] tr show ?thesis by auto
qed

text \<open>
  C36: The engine resynchronises: up to 32 stale or too short frames in front of the
  reply are skipped, the reply is returned, and what follows it is left on the link.
\<close>

theorem transaction_resync:
  assumes "list_all (stale l txid) skipped" "length skipped \<le> 32" "matching l txid raw pdu"
  shows "transact scripted l framed txid udp n (map Inr skipped @ Inr raw # rest) = (Inr pdu, rest)"
  using assms by (intro scripted_transact) (simp_all add: MAX_STALE_FRAMES_def)

theorem transaction_resync_witness:
  "transact scripted Tcp [] (Some 2) False 9 (map Inr [[0, 1, 0, 0, 0, 3, 1, 3, 7], [5]] @
      Inr [0, 2, 0, 0, 0, 3, 1, 3, 8] # [Inl Timeout]) = (Inr [3, 8], [Inl Timeout])"
proof -
  have u: "unwrap_response Tcp [0, 1, 0, 0, 0, 3, 1, 3, 7] = Inr \<lparr> ur_pdu = [3, 7], ur_transaction_id = Some 1 \<rparr>"
    "unwrap_response Tcp [5] = Inl (FrameTooShort 1 8)"
    "unwrap_response Tcp [0, 2, 0, 0, 0, 3, 1, 3, 8] = Inr \<lparr> ur_pdu = [3, 8], ur_transaction_id = Some 2 \<rparr>"
    by code_simp+
  show ?thesis by (rule transaction_resync) (simp_all add: stale_def matching_def u)
qed


definition sample_config :: modbus_config where
  "sample_config =
     \<lparr> mc_slave = 1, mc_function = FReadHoldingRegisters, mc_start_address = 100, mc_length = 2,
       mc_data_type = DUInt16, mc_poll_delay = 0, mc_plc_type = ''Koyo'' \<rparr>"

definition sample_engine :: modbus_engine where
  "sample_engine =
     \<lparr> me_config = sample_config, me_link = Tcp, me_counter = 0, me_data = [0, 0], me_prev_data = [0, 0],
       me_stats = io_statistics_default, me_prev_write_read = Success, me_traces = None \<rparr>"

lemma sample_engine_new: "engine_with_counter sample_config Tcp 0 = Inr sample_engine"
  by (simp add: engine_with_counter_def config_validate_def sample_config_def sample_engine_def
      max_length_def MAX_READ_WORDS_def numeral_2_eq_2)






text \<open>
  C38: A poll from end to end, on every link: when the slave answers the request the
  engine framed with its registers, bits or identity, the buffer holds exactly those
  words afterwards, the poll reports whether they differ from the previous ones, and
  exactly one successful read is counted.
\<close>

theorem poll_end_to_end:
  assumes "engine_ok e" "\<not> absolute_addressing (me_config e)"
    and "carries (mc_function (me_config e)) ws" "length ws = mc_length (me_config e)"
    and "build_request e (mc_function (me_config e))
        (word_of_int (max (mc_start_address (me_config e)) 0)) [] (mc_length (me_config e)) = Some pdu"
    and "ot_write_read T (framed_bytes (me_link e) pdu (me_counter e))
        (expected_reply_frame_len (me_link e)
           (expected_reply_pdu_len (mc_function (me_config e)) (mc_length (me_config e)))) t =
        (Inr (framed_bytes (me_link e) (slave_reply slave (mc_function (me_config e)) ws) (me_counter e)), t')"
  shows "\<exists>e'. poll T msec e t = Some (Inr (ws \<noteq> me_prev_data e), e', t') \<and> me_data e' = ws \<and>
    me_prev_data e' = ws \<and> st_read_ok (me_stats e') = st_read_ok (me_stats e) + 1 \<and>
    st_io_errors (me_stats e') = st_io_errors (me_stats e) \<and> st_current_io_errors (me_stats e') = 0"
  using assms by (rule poll_answered)

theorem poll_end_to_end_witness:
  "\<exists>e'. poll scripted 3 sample_engine [Inr (framed_bytes Tcp (slave_reply 1 FReadHoldingRegisters [0x1234, 7]) 0)] =
      Some (Inr True, e', []) \<and> me_data e' = [0x1234, 7]"
proof -
  have fields: "me_config sample_engine = sample_config" "me_link sample_engine = Tcp" "me_counter sample_engine = 0"
    "me_prev_data sample_engine = [0, 0]" "mc_function sample_config = FReadHoldingRegisters" "mc_length sample_config = 2"
    by (simp_all add: sample_engine_def sample_config_def)
  have ok: "engine_ok sample_engine" by (rule engine_new_ok [OF sample_engine_new])
  have abs: "\<not> absolute_addressing (me_config sample_engine)"
    by (simp add: fields absolute_addressing_def) (simp add: sample_config_def)
  have cr: "carries (mc_function (me_config sample_engine)) [0x1234, 7]"
    "length [0x1234 :: u16, 7] = mc_length (me_config sample_engine)"
    by (simp_all add: fields carries_def function_is_read_def max_length_def MAX_READ_WORDS_def)
  obtain pdu where pdu: "build_request sample_engine (mc_function (me_config sample_engine))
      (word_of_int (max (mc_start_address (me_config sample_engine)) 0)) [] (mc_length (me_config sample_engine)) = Some pdu"
    by (simp add: fields build_request_def Let_def)
  show ?thesis
    using poll_end_to_end [OF ok abs cr pdu, where T = scripted and slave = 1 and msec = 3 and t' = "[]" and
        t = "[Inr (framed_bytes Tcp (slave_reply 1 FReadHoldingRegisters [0x1234, 7]) 0)]"]
    by (auto simp: fields scripted_def Let_def)
qed

text \<open>
  C39: An exception reply is not an I/O error: exception 5 counts as a success that
  leaves the register buffer as it was, every other code is returned as that
  exception, and in both cases neither the two success counters nor the error total
  move and the count of consecutive transport errors is reset, since the exchange
  itself succeeded.
\<close>

theorem exception_reply_handled:
  assumes "build_request e f start dat len = Some pdu" "length pdu \<le> 297"
    and "ot_write_read T (framed_bytes (me_link e) pdu (me_counter e))
        (expected_reply_frame_len (me_link e) (expected_reply_pdu_len f len)) t =
        (Inr (framed_bytes (me_link e) (exception_reply slave f code) (me_counter e)), t')"
  shows "\<exists>e'. do_modbus_io T msec f start dat len e t =
      Some (if code = 5 then Inr Acknowledged else Inl (ModbusException (exception_from_u8 code)), e', t') \<and>
    me_data e' = me_data e \<and> st_read_ok (me_stats e') = st_read_ok (me_stats e) \<and>
    st_write_ok (me_stats e') = st_write_ok (me_stats e) \<and> st_io_errors (me_stats e') = st_io_errors (me_stats e) \<and>
    st_current_io_errors (me_stats e') = 0"
  using assms by (rule exception_answered)

theorem exception_reply_handled_witness:
  "\<exists>e'. do_modbus_io scripted 3 FReportSlaveId 0 [] 2 sample_engine
      [Inr (framed_bytes Tcp (exception_reply 1 FReportSlaveId 2) 0)] =
      Some (Inl (ModbusException (exception_from_u8 2)), e', []) \<and> me_data e' = [0, 0]"
proof -
  have fields: "me_link sample_engine = Tcp" "me_counter sample_engine = 0" "me_data sample_engine = [0, 0]"
    by (simp_all add: sample_engine_def)
  have "build_request sample_engine FReportSlaveId 0 [] 2 = Some [1, 0x11]"
    by (simp add: build_request_def pdu_report_slave_id_def sample_engine_def sample_config_def)
  from exception_reply_handled [OF this, where T = scripted and slave = 1 and code = 2 and msec = 3 and t' = "[]"
      and t = "[Inr (framed_bytes Tcp (exception_reply 1 FReportSlaveId 2) 0)]"]
  show ?thesis by (auto simp: fields scripted_def Let_def)
qed

text \<open>
  C40: The number of bytes the engine asks the link for after a read request is exactly
  the length of the frame a slave answers it with; on an ASCII link, two more for the line
  terminator that the serial port removes.
\<close>

theorem reply_length_expected:
  assumes "carries f ws"
  shows "length (framed_bytes l (slave_reply slave f ws) c) + (if l = Ascii then 2 else 0) =
    expected_reply_frame_len l (expected_reply_pdu_len f (length ws))"
  using assms by (rule framed_reply_length)

theorem reply_length_expected_witness:
  "length (framed_bytes Rtu (slave_reply 1 FReadCoils [1, 0, 1]) 0) =
    expected_reply_frame_len Rtu (expected_reply_pdu_len FReadCoils 3)"
  using reply_length_expected [of FReadCoils "[1, 0, 1]" Rtu 1 0]
  by (simp add: carries_def function_is_read_def max_length_def MAX_READ_WORDS_def numeral_3_eq_3)

end
